(* ===== verification/Py_Prelude.thy ===== *)
theory Py_Prelude
  imports Complex_Main
begin

text \<open>
  Shared vocabulary of the development: the Python values and library operations that several
  components use, generic lemmas about them, the collections the component proofs add to, and
  the two interfaces that the stateful components instantiate.

  \<^item> \<open>seconds\<close>: a Python \<open>float\<close> that holds a time or a duration. It is modelled by an exact
    rational; rounding is not modelled.
  \<^item> \<open>deque_push\<close>: \<open>collections.deque.append\<close> on a deque with \<open>maxlen\<close>.
  \<^item> \<open>machine\<close>: a deterministic state machine driven by a list of events, with an invariant.
  \<^item> \<open>transitions\<close>: a step relation with its initial states, with an invariant.
\<close>

section \<open>Values\<close>

type_synonym seconds = rat

text \<open>Facts that unfold one operation of a component, and facts that close invariants.\<close>

named_theorems op_simps "equations of the modelled operations"
named_theorems inv_intros "introduction and preservation rules of component invariants"

section \<open>Strings and numbers\<close>

text \<open>
  Python strings are modelled by \<open>string\<close>, one \<open>char\<close> per code point below 256; code points above
  that do not occur in the header values, keys and names the components read.
\<close>

definition ascii_upper :: "char \<Rightarrow> char" where
  "ascii_upper c = (if 97 \<le> (of_char c :: nat) \<and> (of_char c :: nat) \<le> 122 then char_of ((of_char c :: nat) - 32) else c)"

definition ascii_lower :: "char \<Rightarrow> char" where
  "ascii_lower c = (if 65 \<le> (of_char c :: nat) \<and> (of_char c :: nat) \<le> 90 then char_of ((of_char c :: nat) + 32) else c)"

text \<open>\<open>str.isspace\<close> on one character, and \<open>str.strip()\<close>.\<close>

definition py_space :: "char \<Rightarrow> bool" where
  "py_space c =
     (let n = (of_char c :: nat) in 9 \<le> n \<and> n \<le> 13 \<or> 28 \<le> n \<and> n \<le> 32 \<or> n = 133 \<or> n = 160)"

definition py_strip :: "string \<Rightarrow> string" where
  "py_strip s = rev (dropWhile py_space (rev (dropWhile py_space s)))"

definition py_digit :: "char \<Rightarrow> bool" where
  "py_digit c = (48 \<le> (of_char c :: nat) \<and> (of_char c :: nat) \<le> 57)"

text \<open>
  \<open>int(s)\<close>: optional sign, digits with single underscores between them, surrounding white space;
  \<open>None\<close> is the \<open>ValueError\<close>, which more than 4300 digits raise as well. \<open>int_digits\<close> has its
  accumulator and whether a digit must come next.
\<close>

fun int_digits :: "int \<Rightarrow> bool \<Rightarrow> string \<Rightarrow> int option" where
  "int_digits acc need [] = (if need then None else Some acc)"
| "int_digits acc need (c # cs) =
     (if py_digit c then int_digits (10 * acc + (of_char c - 48)) False cs
      else if c = CHR ''_'' \<and> \<not> need then int_digits acc True cs
      else None)"

definition py_int :: "string \<Rightarrow> int option" where
  "py_int s =
     (let t = py_strip s in
      if 4300 < length (filter py_digit t) then None
      else
        (case t of
           CHR ''-'' # ds \<Rightarrow> map_option uminus (int_digits 0 True ds)
         | CHR ''+'' # ds \<Rightarrow> int_digits 0 True ds
         | _ \<Rightarrow> int_digits 0 True t))"

text \<open>
  \<open>float(n)\<close> of an integer raises \<open>OverflowError\<close> (\<open>None\<close>) from the first value that rounds to
  \<open>2 ^ 1024\<close>.
\<close>

definition py_float :: "int \<Rightarrow> rat option" where
  "py_float n = (if \<bar>n\<bar> < 2 ^ 1024 - 2 ^ 970 then Some (of_int n) else None)"

text \<open>\<open>str(n)\<close> of a natural number, and \<open>str.encode()\<close> of code points below 256.\<close>

fun decimal :: "nat \<Rightarrow> string" where
  "decimal n = (if n < 10 then [char_of (48 + n)] else decimal (n div 10) @ [char_of (48 + n mod 10)])"

declare decimal.simps [simp del]

definition utf8_char :: "char \<Rightarrow> string" where
  "utf8_char c = (let n = (of_char c :: nat) in if n < 128 then [c] else [char_of (192 + n div 64), char_of (128 + n mod 64)])"

definition utf8 :: "string \<Rightarrow> string" where
  "utf8 s = concat (map utf8_char s)"

lemma of_char_char_of_small: "n < 256 \<Longrightarrow> of_char (char_of (n :: nat) :: char) = n"
  by simp

lemma decimal_digits: "c \<in> set (decimal n) \<Longrightarrow> c \<noteq> CHR 0x00"
proof (induction n rule: decimal.induct)
  case (1 n)
  have digit: "char_of (48 + m) \<noteq> CHR 0x00" if "m < 10" for m :: nat
  proof
    assume "char_of (48 + m) = CHR 0x00"
    then have "of_char (char_of (48 + m) :: char) = (of_char (CHR 0x00) :: nat)" by simp
    with that show False by simp
  qed
  from "1.prems" have "c \<in> set (if n < 10 then [char_of (48 + n)] else decimal (n div 10) @ [char_of (48 + n mod 10)])"
    by (simp only: decimal.simps [of n])
  then show ?case
    using "1.IH" digit [of n] digit [of "n mod 10"] by (auto split: if_splits)
qed

definition undecimal :: "string \<Rightarrow> nat" where
  "undecimal s = foldl (\<lambda>a c. a * 10 + ((of_char c :: nat) - 48)) 0 s"

lemma undecimal_decimal: "undecimal (decimal n) = n"
proof (induction n rule: decimal.induct)
  case (1 n)
  show ?case
    using 1 by (subst decimal.simps) (auto simp: undecimal_def)
qed

lemma decimal_inject: "decimal m = decimal n \<Longrightarrow> m = n"
  by (metis undecimal_decimal)

lemma utf8_char_inject:
  assumes "utf8_char c @ xs = utf8_char d @ ys"
  shows "c = d \<and> xs = ys"
proof -
  have lt: "(of_char x :: nat) < 256" for x :: char by (rule nat_of_char_less_256)
  have lead: "(of_char (char_of (192 + n div 64) :: char) :: nat) = 192 + n div 64" if "n < 256" for n :: nat
    using that by (intro of_char_char_of_small) (auto simp: div_less_iff_less_mult)
  have cont: "(of_char (char_of (128 + n mod 64) :: char) :: nat) = 128 + n mod 64" for n :: nat
    by (intro of_char_char_of_small) (use mod_less_divisor [of 64 n] in linarith)
  have small: "x = y" if "(of_char x :: nat) = of_char y" for x y :: char
    using that by (simp add: of_char_eq_iff)
  show ?thesis
  proof (cases "(of_char c :: nat) < 128"; cases "(of_char d :: nat) < 128")
    assume "(of_char c :: nat) < 128" "(of_char d :: nat) < 128"
    with assms show ?thesis by (simp add: utf8_char_def)
  next
    assume *: "(of_char c :: nat) < 128" "\<not> (of_char d :: nat) < 128"
    with assms have "c = char_of (192 + of_char d div 64 :: nat)" by (simp add: utf8_char_def Let_def)
    with * lead [OF lt] show ?thesis by simp
  next
    assume *: "\<not> (of_char c :: nat) < 128" "(of_char d :: nat) < 128"
    with assms have "d = char_of (192 + of_char c div 64 :: nat)" by (simp add: utf8_char_def Let_def)
    with * lead [OF lt] show ?thesis by simp
  next
    assume *: "\<not> (of_char c :: nat) < 128" "\<not> (of_char d :: nat) < 128"
    with assms have "char_of (192 + of_char c div 64 :: nat) = (char_of (192 + of_char d div 64 :: nat) :: char)"
        "char_of (128 + of_char c mod 64 :: nat) = (char_of (128 + of_char d mod 64 :: nat) :: char)" and xs: "xs = ys"
      by (simp_all add: utf8_char_def Let_def)
    then have "(of_char c :: nat) div 64 = of_char d div 64" "(of_char c :: nat) mod 64 = of_char d mod 64"
      using lead [OF lt [of c]] lead [OF lt [of d]] cont by (metis add_left_cancel)+
    then have "(of_char c :: nat) = of_char d" by (metis div_mult_mod_eq)
    with small xs show ?thesis by blast
  qed
qed

lemma utf8_inject: "utf8 s = utf8 t \<Longrightarrow> s = t"
proof (induction s arbitrary: t)
  case Nil
  then show ?case by (cases t) (auto simp: utf8_def utf8_char_def Let_def split: if_splits)
next
  case (Cons c s)
  then obtain d u where t: "t = d # u"
    by (cases t) (auto simp: utf8_def utf8_char_def Let_def split: if_splits)
  with Cons.prems have "utf8_char c @ utf8 s = utf8_char d @ utf8 u" by (simp add: utf8_def)
  from utf8_char_inject [OF this] Cons.IH t show ?case by simp
qed

section \<open>Bounded deques\<close>

text \<open>
  \<open>deque(maxlen=n).append(x)\<close>: the element goes to the right end and the leftmost ones are
  discarded until at most \<open>n\<close> remain.
\<close>

definition last_n :: "nat \<Rightarrow> 'a list \<Rightarrow> 'a list" where
  "last_n n xs = drop (length xs - n) xs"

definition deque_push :: "nat \<Rightarrow> 'a list \<Rightarrow> 'a \<Rightarrow> 'a list" where
  "deque_push n xs x = last_n n (xs @ [x])"

lemma length_last_n [simp]: "length (last_n n xs) = min n (length xs)"
  by (simp add: last_n_def)

lemma length_deque_push_le [simp]: "length (deque_push n xs x) \<le> n"
  by (simp add: deque_push_def)

lemma last_n_Nil [simp]: "last_n n [] = []"
  by (simp add: last_n_def)

text \<open>Pushing onto a window keeps exactly the last \<open>n\<close> elements of the whole history.\<close>

lemma last_n_snoc: "last_n n (last_n n xs @ [x]) = last_n n (xs @ [x])"
proof (cases "length xs < n \<or> n = 0")
  case True
  then show ?thesis by (auto simp: last_n_def)
next
  case False
  define ys zs where "ys = take (length xs - n) xs" and "zs = drop (length xs - n) xs"
  have xs: "xs = ys @ zs" and zs: "length zs = n" and n: "0 < n"
    using False by (auto simp: ys_def zs_def)
  have "last_n n xs = zs"
    using zs by (simp add: xs last_n_def)
  moreover have "last_n n (zs @ [x]) = last_n n (xs @ [x])"
    using zs n by (simp add: xs last_n_def Suc_diff_le)
  ultimately show ?thesis by simp
qed

lemma deque_push_last_n [simp]: "deque_push n (last_n n xs) x = last_n n (xs @ [x])"
  by (simp add: deque_push_def last_n_snoc)

lemma set_last_n: "set (last_n n xs) \<subseteq> set xs"
  by (simp add: last_n_def set_drop_subset)

text \<open>Python's \<open>sum\<close> of a sequence of booleans counts the \<open>True\<close>s.\<close>

definition count_true :: "bool list \<Rightarrow> int" where
  "count_true bs = int (count_list bs True)"

lemma count_true_simps [simp]:
  "count_true [] = 0"
  "count_true (b # bs) = (if b then 1 else 0) + count_true bs"
  "count_true (bs @ cs) = count_true bs + count_true cs"
  by (simp_all add: count_true_def)

lemma count_true_nonneg [simp]: "0 \<le> count_true bs"
  by (simp add: count_true_def)

lemma count_true_le_length: "count_true bs \<le> int (length bs)"
  by (simp add: count_true_def count_le_length)

lemma count_true_drop_le: "count_true (drop k bs) \<le> count_true bs"
proof -
  have "count_true bs = count_true (take k bs @ drop k bs)"
    by simp
  also have "\<dots> = count_true (take k bs) + count_true (drop k bs)"
    by (simp only: count_true_simps)
  finally show ?thesis by simp
qed

lemma count_true_last_n_le: "count_true (last_n n bs) \<le> count_true bs"
  by (simp add: last_n_def count_true_drop_le)

lemma count_true_deque_push:
  "count_true (deque_push n bs b) \<le> count_true bs + (if b then 1 else 0)"
  using count_true_last_n_le [of n "bs @ [b]"] by (simp add: deque_push_def)

text \<open>Replacing one element moves a filtered count by what the old and the new element weigh.\<close>

lemma length_filter_update:
  assumes "i < length xs"
  shows "length (filter P (xs[i := y])) + (if P (xs ! i) then 1 else 0) =
         length (filter P xs) + (if P y then 1 else 0)"
proof -
  have "length (filter P xs) = length (filter P (take i xs @ xs ! i # drop (Suc i) xs))"
    using assms by (simp add: id_take_nth_drop [symmetric])
  then show ?thesis
    using assms by (simp add: upd_conv_take_nth_drop)
qed

lemma nth_update: "xs[i := x] ! j = (if i = j \<and> i < length xs then x else xs ! j)"
  by (cases "i < length xs") (auto simp: list_update_beyond)

lemma list_all_update: "list_all P xs \<Longrightarrow> P y \<Longrightarrow> list_all P (xs[i := y])"
  using set_update_subset_insert [of xs i y] by (auto simp: list_all_iff)

section \<open>Event machines\<close>

text \<open>
  A component whose operations are synchronous is a step function; a schedule of operations is a
  list of events. \<open>run\<close> executes a schedule.
\<close>

fun run :: "('s \<Rightarrow> 'e \<Rightarrow> 's) \<Rightarrow> 's \<Rightarrow> 'e list \<Rightarrow> 's" where
  "run f s [] = s"
| "run f s (e # es) = run f (f s e) es"

lemma run_append [simp]: "run f s (es @ es') = run f (run f s es) es'"
  by (induction es arbitrary: s) auto

text \<open>
  \<open>machine\<close> is the contract between a component and the arguments about its schedules: an
  invariant \<open>I\<close> that every event satisfying the environment's guard \<open>G\<close> preserves.
\<close>

locale machine =
  fixes step :: "'s \<Rightarrow> 'e \<Rightarrow> 's"
    and I :: "'s \<Rightarrow> bool"
    and G :: "'e \<Rightarrow> bool"
  assumes step_keeps: "I s \<Longrightarrow> G e \<Longrightarrow> I (step s e)"
begin

lemma run_keeps: "I s \<Longrightarrow> list_all G es \<Longrightarrow> I (run step s es)"
  by (induction es arbitrary: s) (auto intro: step_keeps)

text \<open>
  A second property that one step keeps in every state of the invariant holds along the whole
  schedule, with its own guard.
\<close>

lemma run_keeps_under:
  assumes keep: "\<And>s e. I s \<Longrightarrow> Q s \<Longrightarrow> G e \<Longrightarrow> H e \<Longrightarrow> Q (step s e)"
  shows "I s \<Longrightarrow> Q s \<Longrightarrow> list_all G es \<Longrightarrow> list_all H es \<Longrightarrow> Q (run step s es)"
  by (induction es arbitrary: s) (auto intro: step_keeps keep)

lemma run_prefix_keeps: "I s \<Longrightarrow> list_all G (es @ es') \<Longrightarrow> I (run step s es)"
  by (simp add: run_keeps)

end

section \<open>Separators\<close>

text \<open>A separator that the parts before it do not contain is found again.\<close>

lemma separator_split:
  "c \<notin> set a \<Longrightarrow> c \<notin> set b \<Longrightarrow> a @ c # xs = b @ c # ys \<Longrightarrow> a = b \<and> xs = ys"
proof (induction a arbitrary: b)
  case Nil
  then show ?case by (cases b) auto
next
  case (Cons d a)
  then show ?case by (cases b) auto
qed

section \<open>Step relations\<close>

text \<open>
  A component whose steps interleave with an environment is a relation; its reachable states are
  closed under the steps.
\<close>

inductive reach :: "('s \<Rightarrow> bool) \<Rightarrow> ('s \<Rightarrow> 's \<Rightarrow> bool) \<Rightarrow> 's \<Rightarrow> bool"
  for init :: "'s \<Rightarrow> bool" and step :: "'s \<Rightarrow> 's \<Rightarrow> bool" where
  reach_init: "init s \<Longrightarrow> reach init step s"
| reach_step: "reach init step s \<Longrightarrow> step s s' \<Longrightarrow> reach init step s'"

locale transitions =
  fixes init :: "'s \<Rightarrow> bool"
    and step :: "'s \<Rightarrow> 's \<Rightarrow> bool"
    and I :: "'s \<Rightarrow> bool"
  assumes init_ok: "init s \<Longrightarrow> I s"
    and step_ok: "I s \<Longrightarrow> step s s' \<Longrightarrow> I s'"
begin

lemma reach_ok: "reach init step s \<Longrightarrow> I s"
  by (induction rule: reach.induct) (auto intro: init_ok step_ok)

end

end
