(* ===== verification/Circuit_Breaker.thy ===== *)
theory Circuit_Breaker
  imports Py_Prelude
begin

text \<open>
  The per-origin circuit breaker, \<open>src/resilience/circuit.py\<close>, and its configuration from
  \<open>src/resilience/base.py\<close>.

  Every method of \<open>CircuitBreaker\<close> is synchronous, so one method call is one atomic step. The
  clock is injected in the source; here each reading of it is an argument. \<open>circuit_sys\<close> puts a
  breaker together with every \<open>CircuitCall\<close> it has handed out, in the order of admission, so
  that a schedule can settle the calls in any order and at any time, as concurrent requests do.
  Log lines are not modelled.
\<close>

section \<open>Definitions\<close>

subsection \<open>Configuration\<close>

datatype circuit_state = CLOSED | OPEN | HALF_OPEN

record breaker_config =
  failure_threshold :: int
  window_size :: int
  reset_timeout :: seconds
  success_threshold :: int
  half_open_max_calls :: int

definition default_breaker_config :: breaker_config where
  "default_breaker_config =
     \<lparr>failure_threshold = 5, window_size = 20, reset_timeout = 30,
      success_threshold = 2, half_open_max_calls = 1\<rparr>"

text \<open>\<open>CircuitBreakerConfig.__post_init__\<close>: the \<open>ValueError\<close> it raises, if any.\<close>

definition breaker_config_error :: "breaker_config \<Rightarrow> string option" where
  "breaker_config_error cfg =
     (if failure_threshold cfg < 1 then Some ''failure_threshold must be at least 1.''
      else if window_size cfg < failure_threshold cfg
        then Some ''window_size must be at least failure_threshold, otherwise the circuit can never trip.''
      else if reset_timeout cfg \<le> 0 then Some ''reset_timeout must be positive.''
      else if success_threshold cfg < 1 then Some ''success_threshold must be at least 1.''
      else if half_open_max_calls cfg < 1 then Some ''half_open_max_calls must be at least 1.''
      else None)"

abbreviation breaker_config_ok :: "breaker_config \<Rightarrow> bool" where
  "breaker_config_ok cfg \<equiv> breaker_config_error cfg = None"

subsection \<open>The breaker\<close>

record breaker =
  origin :: string
  cstate :: circuit_state
  window :: "bool list"
  open_until :: seconds
  generation :: int
  probes_in_flight :: int
  probe_successes :: int

record circuit_call =
  call_generation :: int
  probe :: bool
  settled :: bool

datatype circuit_error = CircuitOpenError string seconds

definition new_breaker :: "string \<Rightarrow> breaker" where
  "new_breaker orig =
     \<lparr>origin = orig, cstate = CLOSED, window = [], open_until = 0, generation = 0,
      probes_in_flight = 0, probe_successes = 0\<rparr>"

definition failures_in_window :: "breaker \<Rightarrow> int" where
  "failures_in_window b = count_true (window b)"

definition expire_open_period :: "seconds \<Rightarrow> breaker \<Rightarrow> breaker" where
  "expire_open_period now b =
     (if cstate b = OPEN \<and> open_until b \<le> now
      then b\<lparr>cstate := HALF_OPEN, probes_in_flight := 0, probe_successes := 0\<rparr>
      else b)"

text \<open>The \<open>state\<close> property: reading it can move \<open>OPEN\<close> to \<open>HALF_OPEN\<close>.\<close>

definition breaker_state :: "seconds \<Rightarrow> breaker \<Rightarrow> circuit_state \<times> breaker" where
  "breaker_state now b = (let b' = expire_open_period now b in (cstate b', b'))"

definition breaker_reject :: "seconds \<Rightarrow> breaker \<Rightarrow> circuit_error" where
  "breaker_reject retry_after b = CircuitOpenError (origin b) (max 0 retry_after)"

text \<open>
  \<open>acquire\<close> reads the clock once to expire the open period (\<open>now\<close>) and once more for the
  \<open>retry_after\<close> of a refusal (\<open>now'\<close>).
\<close>

definition breaker_acquire ::
    "breaker_config \<Rightarrow> seconds \<Rightarrow> seconds \<Rightarrow> breaker \<Rightarrow> (circuit_error + circuit_call) \<times> breaker" where
  "breaker_acquire cfg now now' b =
     (let b = expire_open_period now b in
      if cstate b = OPEN then (Inl (breaker_reject (open_until b - now') b), b)
      else if cstate b = HALF_OPEN \<and> half_open_max_calls cfg \<le> probes_in_flight b
        then (Inl (breaker_reject 0 b), b)
      else
        (let is_probe = (cstate b = HALF_OPEN);
             b' = (if is_probe then b\<lparr>probes_in_flight := probes_in_flight b + 1\<rparr> else b)
         in (Inr \<lparr>call_generation = generation b', probe = is_probe, settled = False\<rparr>, b')))"

definition breaker_reset :: "breaker \<Rightarrow> breaker" where
  "breaker_reset b =
     b\<lparr>cstate := CLOSED, window := [], probes_in_flight := 0, probe_successes := 0,
       generation := generation b + 1\<rparr>"

definition release_probe :: "breaker \<Rightarrow> breaker" where
  "release_probe b = b\<lparr>probes_in_flight := max 0 (probes_in_flight b - 1)\<rparr>"

definition open_circuit :: "breaker_config \<Rightarrow> seconds \<Rightarrow> breaker \<Rightarrow> breaker" where
  "open_circuit cfg now b =
     b\<lparr>cstate := OPEN, open_until := now + reset_timeout cfg, window := [],
       probes_in_flight := 0, probe_successes := 0, generation := generation b + 1\<rparr>"

definition record_probe :: "breaker_config \<Rightarrow> seconds \<Rightarrow> bool \<Rightarrow> breaker \<Rightarrow> breaker" where
  "record_probe cfg now failed b =
     (if failed then open_circuit cfg now b
      else
        (let b = b\<lparr>probe_successes := probe_successes b + 1\<rparr> in
         if probe_successes b < success_threshold cfg then b
         else b\<lparr>cstate := CLOSED, window := [], probe_successes := 0,
                generation := generation b + 1\<rparr>))"

definition record_outcome :: "breaker_config \<Rightarrow> seconds \<Rightarrow> int \<Rightarrow> bool \<Rightarrow> breaker \<Rightarrow> breaker" where
  "record_outcome cfg now gen failed b =
     (if gen \<noteq> generation b then b
      else if cstate b = HALF_OPEN then record_probe cfg now failed b
      else
        (let b = b\<lparr>window := deque_push (nat (window_size cfg)) (window b) failed\<rparr> in
         if failed \<and> failure_threshold cfg \<le> failures_in_window b
         then open_circuit cfg now b else b))"

subsection \<open>Calls\<close>

text \<open>\<open>CircuitCall.release\<close>: give the probe slot back without recording an outcome.\<close>

definition call_release :: "circuit_call \<Rightarrow> breaker \<Rightarrow> circuit_call \<times> breaker" where
  "call_release c b =
     (if settled c then (c, b)
      else (c\<lparr>settled := True\<rparr>, if probe c then release_probe b else b))"

text \<open>\<open>CircuitCall._settle\<close>, behind \<open>succeeded\<close> and \<open>failed\<close>.\<close>

definition call_settle ::
    "breaker_config \<Rightarrow> seconds \<Rightarrow> bool \<Rightarrow> circuit_call \<Rightarrow> breaker \<Rightarrow> circuit_call \<times> breaker" where
  "call_settle cfg now failed c b =
     (if settled c then (c, b)
      else
        (let b = (if probe c then release_probe b else b)
         in (c\<lparr>settled := True\<rparr>, record_outcome cfg now (call_generation c) failed b)))"

definition call_succeeded ::
    "breaker_config \<Rightarrow> seconds \<Rightarrow> circuit_call \<Rightarrow> breaker \<Rightarrow> circuit_call \<times> breaker" where
  "call_succeeded cfg now = call_settle cfg now False"

definition call_failed ::
    "breaker_config \<Rightarrow> seconds \<Rightarrow> circuit_call \<Rightarrow> breaker \<Rightarrow> circuit_call \<times> breaker" where
  "call_failed cfg now = call_settle cfg now True"

subsection \<open>Registry\<close>

record breaker_registry =
  registry_config :: breaker_config
  breakers :: "string \<rightharpoonup> breaker"

text \<open>
  \<open>get\<close> hands out a reference to the registry's own object; a caller that operates on it stores
  the result back with \<open>registry_put\<close>.
\<close>

definition registry_get :: "string \<Rightarrow> breaker_registry \<Rightarrow> breaker \<times> breaker_registry" where
  "registry_get orig reg =
     (case breakers reg orig of
        Some b \<Rightarrow> (b, reg)
      | None \<Rightarrow> (let b = new_breaker orig in (b, reg\<lparr>breakers := (breakers reg)(orig \<mapsto> b)\<rparr>)))"

definition registry_put :: "string \<Rightarrow> breaker \<Rightarrow> breaker_registry \<Rightarrow> breaker_registry" where
  "registry_put orig b reg = reg\<lparr>breakers := (breakers reg)(orig \<mapsto> b)\<rparr>"

definition registry_states ::
    "(string \<Rightarrow> seconds) \<Rightarrow> breaker_registry \<Rightarrow> (string \<rightharpoonup> circuit_state) \<times> breaker_registry" where
  "registry_states clock reg =
     (\<lambda>orig. map_option (\<lambda>b. fst (breaker_state (clock orig) b)) (breakers reg orig),
      reg\<lparr>breakers := (\<lambda>orig. map_option (\<lambda>b. snd (breaker_state (clock orig) b)) (breakers reg orig))\<rparr>)"

definition registry_reset :: "breaker_registry \<Rightarrow> breaker_registry" where
  "registry_reset reg = reg\<lparr>breakers := map_option breaker_reset \<circ> breakers reg\<rparr>"

subsection \<open>A breaker and its outstanding calls\<close>

record circuit_sys =
  sys_breaker :: breaker
  sys_calls :: "circuit_call list"

datatype circuit_event =
    Acquire seconds seconds
  | Succeeded seconds nat
  | Failed seconds nat
  | Release nat
  | ReadState seconds
  | Reset

definition with_call ::
    "nat \<Rightarrow> (circuit_call \<Rightarrow> breaker \<Rightarrow> circuit_call \<times> breaker) \<Rightarrow> circuit_sys \<Rightarrow> circuit_sys" where
  "with_call i f s =
     (if i < length (sys_calls s)
      then (case f (sys_calls s ! i) (sys_breaker s) of
              (c, b) \<Rightarrow> \<lparr>sys_breaker = b, sys_calls = (sys_calls s)[i := c]\<rparr>)
      else s)"

fun circuit_step :: "breaker_config \<Rightarrow> circuit_sys \<Rightarrow> circuit_event \<Rightarrow> circuit_sys" where
  "circuit_step cfg s (Acquire now now') =
     (case breaker_acquire cfg now now' (sys_breaker s) of
        (Inl _, b) \<Rightarrow> s\<lparr>sys_breaker := b\<rparr>
      | (Inr c, b) \<Rightarrow> \<lparr>sys_breaker = b, sys_calls = sys_calls s @ [c]\<rparr>)"
| "circuit_step cfg s (Succeeded now i) = with_call i (call_succeeded cfg now) s"
| "circuit_step cfg s (Failed now i) = with_call i (call_failed cfg now) s"
| "circuit_step cfg s (Release i) = with_call i call_release s"
| "circuit_step cfg s (ReadState now) = s\<lparr>sys_breaker := snd (breaker_state now (sys_breaker s))\<rparr>"
| "circuit_step cfg s Reset = s\<lparr>sys_breaker := breaker_reset (sys_breaker s)\<rparr>"

definition new_circuit :: "string \<Rightarrow> circuit_sys" where
  "new_circuit orig = \<lparr>sys_breaker = new_breaker orig, sys_calls = []\<rparr>"

subsection \<open>Invariant\<close>

text \<open>What a breaker's own fields satisfy between two method calls.\<close>

definition breaker_ok :: "breaker_config \<Rightarrow> breaker \<Rightarrow> bool" where
  "breaker_ok cfg b \<longleftrightarrow>
     length (window b) \<le> nat (window_size cfg) \<and>
     failures_in_window b < failure_threshold cfg \<and>
     (cstate b \<noteq> CLOSED \<longrightarrow> window b = []) \<and>
     0 \<le> probes_in_flight b \<and> probes_in_flight b \<le> half_open_max_calls cfg \<and>
     0 \<le> probe_successes b \<and> probe_successes b < success_threshold cfg \<and>
     (cstate b \<noteq> HALF_OPEN \<longrightarrow> probe_successes b = 0)"

text \<open>
  What an outstanding call knows about the breaker: no call is from a later generation, and one
  from the current generation was admitted in the state the breaker is still in.
\<close>

definition call_ok :: "breaker \<Rightarrow> circuit_call \<Rightarrow> bool" where
  "call_ok b c \<longleftrightarrow>
     call_generation c \<le> generation b \<and>
     (\<not> settled c \<and> call_generation c = generation b \<longrightarrow>
        cstate b \<noteq> OPEN \<and> (probe c \<longleftrightarrow> cstate b = HALF_OPEN))"

definition live_probe :: "breaker \<Rightarrow> circuit_call \<Rightarrow> bool" where
  "live_probe b c \<longleftrightarrow> probe c \<and> \<not> settled c \<and> call_generation c = generation b"

definition live_probes :: "circuit_sys \<Rightarrow> nat" where
  "live_probes s = length (filter (live_probe (sys_breaker s)) (sys_calls s))"

definition circuit_inv :: "breaker_config \<Rightarrow> circuit_sys \<Rightarrow> bool" where
  "circuit_inv cfg s \<longleftrightarrow>
     breaker_ok cfg (sys_breaker s) \<and>
     list_all (call_ok (sys_breaker s)) (sys_calls s) \<and>
     (cstate (sys_breaker s) = HALF_OPEN \<longrightarrow>
        probes_in_flight (sys_breaker s) \<le> int (live_probes s))"

subsection \<open>Schedules\<close>

text \<open>Events that happen before \<open>until\<close> and do not use the operator's override.\<close>

fun before_without_reset :: "seconds \<Rightarrow> circuit_event \<Rightarrow> bool" where
  "before_without_reset until (Acquire now _) = (now < until)"
| "before_without_reset until (ReadState now) = (now < until)"
| "before_without_reset until Reset = False"
| "before_without_reset until _ = True"

fun is_reset :: "circuit_event \<Rightarrow> bool" where
  "is_reset Reset = True"
| "is_reset _ = False"

text \<open>
  Requests one after another: each is admitted at its time and settles at that time with its
  outcome (\<open>True\<close> for a failure). The first call gets number \<open>i\<close>.
\<close>

fun outcome_events :: "nat \<Rightarrow> (seconds \<times> bool) list \<Rightarrow> circuit_event list" where
  "outcome_events i [] = []"
| "outcome_events i ((t, failed) # os) =
     Acquire t t # (if failed then Failed t i else Succeeded t i) # outcome_events (Suc i) os"

definition unsettled_probes :: "circuit_sys \<Rightarrow> nat" where
  "unsettled_probes s = length (filter (\<lambda>c. probe c \<and> \<not> settled c) (sys_calls s))"

section \<open>Lemmas\<close>

lemmas breaker_defs =
  expire_open_period_def breaker_reject_def breaker_reset_def release_probe_def
  open_circuit_def record_probe_def record_outcome_def failures_in_window_def Let_def

declare breaker_state_def [op_simps] call_succeeded_def [op_simps] call_failed_def [op_simps]

lemma breaker_config_okD:
  assumes "breaker_config_ok cfg"
  shows "1 \<le> failure_threshold cfg" "failure_threshold cfg \<le> window_size cfg"
    "0 < reset_timeout cfg" "1 \<le> success_threshold cfg" "1 \<le> half_open_max_calls cfg"
  using assms by (auto simp: breaker_config_error_def split: if_splits)

subsection \<open>Preservation of the fields' invariant\<close>

lemma breaker_ok_new: "breaker_config_ok cfg \<Longrightarrow> breaker_ok cfg (new_breaker orig)"
  by (auto dest: breaker_config_okD simp: breaker_ok_def new_breaker_def failures_in_window_def)

lemma breaker_ok_expire [inv_intros]:
  "breaker_config_ok cfg \<Longrightarrow> breaker_ok cfg b \<Longrightarrow> breaker_ok cfg (expire_open_period now b)"
  by (auto dest: breaker_config_okD simp: breaker_ok_def breaker_defs)

lemma breaker_ok_release_probe [inv_intros]:
  "breaker_ok cfg b \<Longrightarrow> breaker_ok cfg (release_probe b)"
  by (auto simp: breaker_ok_def breaker_defs)

lemma breaker_ok_open_circuit [inv_intros]:
  "breaker_config_ok cfg \<Longrightarrow> breaker_ok cfg (open_circuit cfg now b)"
  by (auto dest: breaker_config_okD simp: breaker_ok_def breaker_defs)

lemma breaker_ok_reset [inv_intros]:
  "breaker_config_ok cfg \<Longrightarrow> breaker_ok cfg (breaker_reset b)"
  by (auto dest: breaker_config_okD simp: breaker_ok_def breaker_defs)

lemma breaker_ok_record_probe [inv_intros]:
  "breaker_config_ok cfg \<Longrightarrow> breaker_ok cfg b \<Longrightarrow> cstate b = HALF_OPEN \<Longrightarrow>
     breaker_ok cfg (record_probe cfg now failed b)"
  by (auto dest: breaker_config_okD simp: breaker_ok_def breaker_defs)

text \<open>Recording is sound in any state but \<open>OPEN\<close>, where no current call exists.\<close>

lemma breaker_ok_push:
  assumes "breaker_ok cfg b" "cstate b = CLOSED"
    and "failed \<longrightarrow> count_true (deque_push (nat (window_size cfg)) (window b) failed) < failure_threshold cfg"
  shows "breaker_ok cfg (b\<lparr>window := deque_push (nat (window_size cfg)) (window b) failed\<rparr>)"
  using assms count_true_deque_push [of "nat (window_size cfg)" "window b" failed]
  by (cases failed) (auto simp: breaker_ok_def failures_in_window_def)

lemma breaker_ok_record_outcome [inv_intros]:
  assumes "breaker_config_ok cfg" "breaker_ok cfg b" "gen = generation b \<longrightarrow> cstate b \<noteq> OPEN"
  shows "breaker_ok cfg (record_outcome cfg now gen failed b)"
proof (cases "gen = generation b \<and> cstate b \<noteq> HALF_OPEN")
  case True
  with assms have "cstate b = CLOSED" by (cases "cstate b") auto
  with True assms show ?thesis
    by (auto simp: record_outcome_def Let_def failures_in_window_def not_le
             intro: breaker_ok_push inv_intros)
next
  case False
  then show ?thesis
    using assms by (auto simp: record_outcome_def intro: inv_intros)
qed

subsection \<open>What a step does to the outstanding calls\<close>

lemma call_ok_cong: "generation b' = generation b \<Longrightarrow> cstate b' = cstate b \<Longrightarrow> call_ok b' = call_ok b"
  by (simp add: call_ok_def fun_eq_iff)

lemma call_ok_advance: "call_ok b c \<Longrightarrow> generation b < generation b' \<Longrightarrow> call_ok b' c"
  by (auto simp: call_ok_def)

lemma call_ok_settled: "call_ok b c \<Longrightarrow> call_ok b (c\<lparr>settled := True\<rparr>)"
  by (auto simp: call_ok_def)

lemma call_ok_expire: "call_ok b c \<Longrightarrow> call_ok (expire_open_period now b) c"
  by (auto simp: call_ok_def expire_open_period_def)

lemma generation_expire [simp]: "generation (expire_open_period now b) = generation b"
  by (simp add: expire_open_period_def)

text \<open>
  Recording an outcome either leaves generation and state alone or starts a new generation, and
  with it makes every outstanding call stale.
\<close>

lemma record_outcome_frame:
  "generation (record_outcome cfg now gen failed b) = generation b \<and>
     cstate (record_outcome cfg now gen failed b) = cstate b \<and>
     probes_in_flight (record_outcome cfg now gen failed b) = probes_in_flight b \<or>
   generation b < generation (record_outcome cfg now gen failed b) \<and>
     cstate (record_outcome cfg now gen failed b) \<noteq> HALF_OPEN"
  by (auto simp: breaker_defs)

lemma release_probe_frame [simp]:
  "generation (release_probe b) = generation b"
  "cstate (release_probe b) = cstate b"
  "window (release_probe b) = window b"
  "open_until (release_probe b) = open_until b"
  by (simp_all add: release_probe_def)

lemma call_ok_release_probe [simp]: "call_ok (release_probe b) = call_ok b"
  by (rule call_ok_cong) simp_all

lemma call_ok_record_outcome: "call_ok b c \<Longrightarrow> call_ok (record_outcome cfg now gen failed b) c"
  using record_outcome_frame [of cfg now gen failed b] call_ok_advance [of b c] call_ok_cong by metis

lemma live_probe_counter [simp]: "live_probe (b\<lparr>probes_in_flight := n\<rparr>) = live_probe b"
  by (simp add: live_probe_def fun_eq_iff)

text \<open>Settling one call moves the number of live probes by at most that call.\<close>

lemma live_probes_settle:
  assumes i: "i < length (sys_calls s)" and c: "sys_calls s ! i = c"
    and gen: "generation b = generation (sys_breaker s)"
  shows "live_probes \<lparr>sys_breaker = b, sys_calls = (sys_calls s)[i := c\<lparr>settled := True\<rparr>]\<rparr> =
         live_probes s - (if live_probe (sys_breaker s) c then 1 else 0)"
proof -
  have "live_probe b = live_probe (sys_breaker s)"
    using gen by (simp add: live_probe_def fun_eq_iff)
  then show ?thesis
    using length_filter_update [OF i, of "live_probe (sys_breaker s)" "c\<lparr>settled := True\<rparr>"] c
    by (auto simp: live_probes_def live_probe_def split: if_splits)
qed

lemma live_probes_pos:
  "i < length (sys_calls s) \<Longrightarrow> live_probe (sys_breaker s) (sys_calls s ! i) \<Longrightarrow> 0 < live_probes s"
  by (auto simp: live_probes_def filter_empty_conv intro: nth_mem)

subsection \<open>Preservation of the system invariant\<close>

lemma circuit_inv_new: "breaker_config_ok cfg \<Longrightarrow> circuit_inv cfg (new_circuit orig)"
  by (auto simp: circuit_inv_def new_circuit_def breaker_ok_new) (simp add: new_breaker_def)

lemma circuit_inv_breaker:
  assumes "circuit_inv cfg s" "breaker_ok cfg b"
    and "\<And>c. call_ok (sys_breaker s) c \<Longrightarrow> call_ok b c"
    and "cstate b = HALF_OPEN \<Longrightarrow> probes_in_flight b \<le> int (live_probes (s\<lparr>sys_breaker := b\<rparr>))"
  shows "circuit_inv cfg (s\<lparr>sys_breaker := b\<rparr>)"
  using assms by (auto simp: circuit_inv_def list_all_iff)

lemma circuit_inv_expire [inv_intros]:
  assumes "breaker_config_ok cfg" "circuit_inv cfg s"
  shows "circuit_inv cfg (s\<lparr>sys_breaker := expire_open_period now (sys_breaker s)\<rparr>)"
proof (rule circuit_inv_breaker [OF assms(2)])
  show "breaker_ok cfg (expire_open_period now (sys_breaker s))"
    using assms by (auto simp: circuit_inv_def intro: inv_intros)
  show "probes_in_flight (expire_open_period now (sys_breaker s))
      \<le> int (live_probes (s\<lparr>sys_breaker := expire_open_period now (sys_breaker s)\<rparr>))"
    if "cstate (expire_open_period now (sys_breaker s)) = HALF_OPEN"
    using assms that by (auto simp: circuit_inv_def expire_open_period_def)
qed (rule call_ok_expire)

lemma circuit_inv_reset [inv_intros]:
  assumes "breaker_config_ok cfg" "circuit_inv cfg s"
  shows "circuit_inv cfg (s\<lparr>sys_breaker := breaker_reset (sys_breaker s)\<rparr>)"
  using assms
  by (intro circuit_inv_breaker breaker_ok_reset) (auto simp: call_ok_def breaker_reset_def)

lemma circuit_inv_call:
  assumes inv: "circuit_inv cfg s" and i: "i < length (sys_calls s)" and c: "sys_calls s ! i = c"
    and b: "breaker_ok cfg b" "\<And>c. call_ok (sys_breaker s) c \<Longrightarrow> call_ok b c"
    and frame: "cstate b = HALF_OPEN \<Longrightarrow>
      generation b = generation (sys_breaker s) \<and> cstate (sys_breaker s) = HALF_OPEN \<and>
      probes_in_flight b \<le>
        probes_in_flight (if probe c then release_probe (sys_breaker s) else sys_breaker s)"
    and open_c: "\<not> settled c"
  shows "circuit_inv cfg \<lparr>sys_breaker = b, sys_calls = (sys_calls s)[i := c\<lparr>settled := True\<rparr>]\<rparr>"
proof -
  have ok: "call_ok (sys_breaker s) c"
    using inv i c by (auto simp: circuit_inv_def list_all_length)
  have "list_all (call_ok b) (sys_calls s)"
    using inv b(2) by (auto simp: circuit_inv_def list_all_iff)
  then have calls: "list_all (call_ok b) ((sys_calls s)[i := c\<lparr>settled := True\<rparr>])"
    using ok b(2) by (auto intro: list_all_update call_ok_settled)
  have "probes_in_flight b
      \<le> int (live_probes \<lparr>sys_breaker = b, sys_calls = (sys_calls s)[i := c\<lparr>settled := True\<rparr>]\<rparr>)"
    if "cstate b = HALF_OPEN"
    using frame [OF that] inv live_probes_settle [OF i c, of b] live_probes_pos [OF i] c ok open_c
    by (auto simp: circuit_inv_def release_probe_def live_probe_def call_ok_def split: if_splits)
  with calls b(1) show ?thesis by (simp add: circuit_inv_def)
qed

lemma circuit_inv_with_release [inv_intros]:
  assumes "circuit_inv cfg s"
  shows "circuit_inv cfg (with_call i call_release s)"
proof (cases "i < length (sys_calls s) \<and> \<not> settled (sys_calls s ! i)")
  case True
  with assms show ?thesis
    by (auto simp: with_call_def call_release_def circuit_inv_def [of cfg s]
             intro!: circuit_inv_call [OF assms] breaker_ok_release_probe)
next
  case False
  with assms show ?thesis by (cases s) (auto simp: with_call_def call_release_def)
qed

lemma circuit_inv_with_settle [inv_intros]:
  assumes cfg: "breaker_config_ok cfg" and inv: "circuit_inv cfg s"
  shows "circuit_inv cfg (with_call i (call_settle cfg now failed) s)"
proof (cases "i < length (sys_calls s) \<and> \<not> settled (sys_calls s ! i)")
  case True
  define c b where "c = sys_calls s ! i"
    and "b = (if probe c then release_probe (sys_breaker s) else sys_breaker s)"
  have i: "i < length (sys_calls s)" and c: "\<not> settled c"
    using True by (auto simp: c_def)
  have b: "breaker_ok cfg b" "generation b = generation (sys_breaker s)"
      "cstate b = cstate (sys_breaker s)"
    using inv by (auto simp: b_def circuit_inv_def intro: breaker_ok_release_probe)
  have ok: "call_ok b c"
    using inv i b call_ok_cong [of b "sys_breaker s"]
    by (auto simp: circuit_inv_def list_all_length c_def)
  have "circuit_inv cfg \<lparr>sys_breaker = record_outcome cfg now (call_generation c) failed b,
      sys_calls = (sys_calls s)[i := c\<lparr>settled := True\<rparr>]\<rparr>"
  proof (rule circuit_inv_call [OF inv i c_def [symmetric]])
    show "breaker_ok cfg (record_outcome cfg now (call_generation c) failed b)"
      using cfg b(1) ok c by (auto simp: call_ok_def intro: breaker_ok_record_outcome)
    show "call_ok (record_outcome cfg now (call_generation c) failed b) c'"
      if "call_ok (sys_breaker s) c'" for c'
      using that b call_ok_cong [of b "sys_breaker s"] by (auto intro: call_ok_record_outcome)
  qed (use record_outcome_frame [of cfg now "call_generation c" failed b] b c in \<open>auto simp: b_def\<close>)
  then show ?thesis
    using i c by (simp add: with_call_def call_settle_def c_def b_def Let_def)
next
  case False
  with inv show ?thesis by (cases s) (auto simp: with_call_def call_settle_def)
qed

lemma circuit_inv_acquire [inv_intros]:
  assumes cfg: "breaker_config_ok cfg" and inv: "circuit_inv cfg s"
  shows "circuit_inv cfg (circuit_step cfg s (Acquire now now'))"
proof -
  define b where "b = expire_open_period now (sys_breaker s)"
  have inv': "circuit_inv cfg (s\<lparr>sys_breaker := b\<rparr>)"
    unfolding b_def by (rule circuit_inv_expire [OF cfg inv])
  have admit: "circuit_inv cfg
      \<lparr>sys_breaker = (if cstate b = HALF_OPEN then b\<lparr>probes_in_flight := probes_in_flight b + 1\<rparr> else b),
       sys_calls = sys_calls s @
         [\<lparr>call_generation = generation b, probe = (cstate b = HALF_OPEN), settled = False\<rparr>]\<rparr>"
    if "cstate b \<noteq> OPEN" "cstate b = HALF_OPEN \<longrightarrow> probes_in_flight b < half_open_max_calls cfg"
    using that inv'
    by (auto simp: circuit_inv_def breaker_ok_def failures_in_window_def call_ok_def list_all_iff
        live_probes_def) (auto simp: live_probe_def)
  show ?thesis
    using inv' admit by (auto simp: breaker_acquire_def b_def [symmetric] Let_def)
qed

lemma circuit_inv_step:
  assumes "breaker_config_ok cfg" "circuit_inv cfg s"
  shows "circuit_inv cfg (circuit_step cfg s e)"
proof (cases e)
  case (Acquire now now')
  with assms show ?thesis by (simp only: circuit_inv_acquire)
qed (use assms in \<open>simp_all add: op_simps Let_def inv_intros\<close>)

text \<open>The breaker as an event machine.\<close>

interpretation circuit: machine "circuit_step cfg" "\<lambda>s. breaker_config_ok cfg \<and> circuit_inv cfg s" "\<lambda>_. True"
  for cfg
  by unfold_locales (simp add: circuit_inv_step)

subsection \<open>An open circuit\<close>

lemma acquire_open:
  "cstate b = OPEN \<Longrightarrow> now < open_until b \<Longrightarrow>
     breaker_acquire cfg now now' b = (Inl (CircuitOpenError (origin b) (max 0 (open_until b - now'))), b)"
  by (simp add: breaker_acquire_def breaker_defs)

lemma open_with_call:
  assumes inv: "circuit_inv cfg s" and "cstate (sys_breaker s) = OPEN"
    and f: "f = call_release \<or> f = call_settle cfg now failed"
  shows "cstate (sys_breaker (with_call i f s)) = OPEN \<and>
         open_until (sys_breaker (with_call i f s)) = open_until (sys_breaker s) \<and>
         length (sys_calls (with_call i f s)) = length (sys_calls s)"
proof (cases "i < length (sys_calls s)")
  case True
  then have "call_ok (sys_breaker s) (sys_calls s ! i)"
    using inv by (auto simp: circuit_inv_def list_all_length)
  with assms True show ?thesis
    by (auto simp: with_call_def call_release_def call_settle_def call_ok_def record_outcome_def Let_def)
next
  case False
  with assms show ?thesis by (simp add: with_call_def)
qed

lemma open_step:
  assumes "circuit_inv cfg s" "cstate (sys_breaker s) = OPEN" "open_until (sys_breaker s) = u"
    and "before_without_reset u e"
  shows "cstate (sys_breaker (circuit_step cfg s e)) = OPEN \<and>
         open_until (sys_breaker (circuit_step cfg s e)) = u \<and>
         length (sys_calls (circuit_step cfg s e)) = length (sys_calls s)"
  using assms open_with_call [OF assms(1,2)]
  by (cases e) (auto simp: acquire_open op_simps expire_open_period_def Let_def)

subsection \<open>A closed circuit and its window\<close>

lemma closed_outcome:
  assumes "cstate (sys_breaker s) = CLOSED" "length (sys_calls s) = i"
  shows "sys_breaker (run (circuit_step cfg) s (outcome_events i [(t, failed)])) =
           record_outcome cfg t (generation (sys_breaker s)) failed (sys_breaker s)"
    and "length (sys_calls (run (circuit_step cfg) s (outcome_events i [(t, failed)]))) = Suc i"
  using assms
  by (auto simp: breaker_acquire_def expire_open_period_def with_call_def op_simps call_settle_def Let_def nth_append)

lemma outcome_events_snoc:
  "outcome_events i (os @ [o']) = outcome_events i os @ outcome_events (i + length os) [o']"
  by (induction os arbitrary: i) (auto split: prod.splits)

abbreviation quiet :: "breaker_config \<Rightarrow> bool list \<Rightarrow> bool" where
  "quiet cfg fs \<equiv> count_true (last_n (nat (window_size cfg)) fs) < failure_threshold cfg"

lemma closed_while_quiet:
  assumes "\<forall>k\<le>length os. quiet cfg (map snd (take k os))"
  shows "let s = run (circuit_step cfg) (new_circuit orig) (outcome_events 0 os) in
         cstate (sys_breaker s) = CLOSED \<and> generation (sys_breaker s) = 0 \<and>
         window (sys_breaker s) = last_n (nat (window_size cfg)) (map snd os) \<and>
         length (sys_calls s) = length os"
  using assms
proof (induction os rule: rev_induct)
  case Nil
  then show ?case by (simp add: new_circuit_def new_breaker_def)
next
  case (snoc x os)
  obtain t failed where x: "x = (t, failed)" by (cases x)
  define s where "s = run (circuit_step cfg) (new_circuit orig) (outcome_events 0 os)"
  have "quiet cfg (map snd (take k os))" if "k \<le> length os" for k
    using that snoc.prems [rule_format, of k] by simp
  then have IH: "cstate (sys_breaker s) = CLOSED" "generation (sys_breaker s) = 0"
      "window (sys_breaker s) = last_n (nat (window_size cfg)) (map snd os)"
      "length (sys_calls s) = length os"
    using snoc.IH by (auto simp: s_def Let_def)
  have "quiet cfg (map snd os @ [failed])"
    using snoc.prems [rule_format, of "length (os @ [x])"] by (simp add: x)
  with IH closed_outcome [OF IH(1) IH(4), of cfg t failed] show ?case
    by (auto simp: outcome_events_snoc x s_def [symmetric] record_outcome_def
        failures_in_window_def Let_def)
qed

subsection \<open>One probe at a time\<close>

text \<open>
  With one probe slot and no override the counter is exact: outside \<open>HALF_OPEN\<close> no probe is
  unsettled, and inside it the counter is their number.
\<close>

definition single_probe_inv :: "circuit_sys \<Rightarrow> bool" where
  "single_probe_inv s \<longleftrightarrow>
     int (unsettled_probes s) =
       (if cstate (sys_breaker s) = HALF_OPEN then probes_in_flight (sys_breaker s) else 0)"

lemma unsettled_probes_settle:
  assumes "i < length (sys_calls s)" "\<not> settled (sys_calls s ! i)"
  shows "int (unsettled_probes \<lparr>sys_breaker = b, sys_calls = (sys_calls s)[i := (sys_calls s ! i)\<lparr>settled := True\<rparr>]\<rparr>) =
         int (unsettled_probes s) - (if probe (sys_calls s ! i) then 1 else 0)"
  using length_filter_update [OF assms(1), of "\<lambda>c. probe c \<and> \<not> settled c" "(sys_calls s ! i)\<lparr>settled := True\<rparr>"] assms(2)
  by (auto simp: unsettled_probes_def split: if_splits)

lemma unsettled_probes_pos:
  "i < length (sys_calls s) \<Longrightarrow> probe (sys_calls s ! i) \<Longrightarrow> \<not> settled (sys_calls s ! i) \<Longrightarrow>
     0 < unsettled_probes s"
  by (auto simp: unsettled_probes_def filter_empty_conv intro: nth_mem)

lemma single_probe_with_release:
  assumes inv: "circuit_inv cfg s" and sp: "single_probe_inv s"
  shows "single_probe_inv (with_call i call_release s)"
proof (cases "i < length (sys_calls s) \<and> \<not> settled (sys_calls s ! i)")
  case True
  with sp show ?thesis
    using unsettled_probes_settle [of i s] unsettled_probes_pos [of i s]
    by (auto simp: single_probe_inv_def with_call_def call_release_def release_probe_def split: if_splits)
next
  case False
  with sp show ?thesis by (cases s) (auto simp: with_call_def call_release_def)
qed

lemma single_probe_with_settle:
  assumes inv: "circuit_inv cfg s" and one: "half_open_max_calls cfg = 1" and sp: "single_probe_inv s"
  shows "single_probe_inv (with_call i (call_settle cfg now failed) s)"
proof (cases "i < length (sys_calls s) \<and> \<not> settled (sys_calls s ! i)")
  case True
  define c where "c = sys_calls s ! i"
  have ok: "call_ok (sys_breaker s) c"
    using inv True by (auto simp: circuit_inv_def list_all_length c_def)
  have le: "probes_in_flight (sys_breaker s) \<le> 1"
    using inv one by (auto simp: circuit_inv_def breaker_ok_def)
  have count: "int (unsettled_probes \<lparr>sys_breaker = b, sys_calls = (sys_calls s)[i := c\<lparr>settled := True\<rparr>]\<rparr>) =
      int (unsettled_probes s) - (if probe c then 1 else 0)" for b
    using unsettled_probes_settle [of i s b] True by (simp add: c_def)
  have pos: "probe c \<Longrightarrow> 0 < unsettled_probes s"
    using unsettled_probes_pos [of i s] True by (simp add: c_def)
  define b where "b = (if probe c then release_probe (sys_breaker s) else sys_breaker s)"
  have eq: "with_call i (call_settle cfg now failed) s =
      \<lparr>sys_breaker = record_outcome cfg now (call_generation c) failed b,
       sys_calls = (sys_calls s)[i := c\<lparr>settled := True\<rparr>]\<rparr>"
    using True by (simp add: with_call_def call_settle_def c_def b_def Let_def)
  have b: "cstate b = cstate (sys_breaker s)" "generation b = generation (sys_breaker s)"
    by (simp_all add: b_def)
  consider "call_generation c = generation b" "cstate b = HALF_OPEN" "probe c"
    | "call_generation c = generation b" "cstate b = CLOSED" "\<not> probe c"
    | "call_generation c \<noteq> generation b"
    using ok True b by (cases "cstate b") (auto simp: call_ok_def c_def)
  then show ?thesis
  proof cases
    case 1
    then show ?thesis
      using sp count pos le b
      by (auto simp: eq single_probe_inv_def record_outcome_def record_probe_def open_circuit_def
          b_def release_probe_def Let_def)
  next
    case 2
    then show ?thesis
      using sp count b
      by (auto simp: eq single_probe_inv_def record_outcome_def open_circuit_def Let_def)
  next
    case 3
    then show ?thesis
      using sp count pos b
      by (auto simp: eq single_probe_inv_def record_outcome_def b_def release_probe_def split: if_splits)
  qed
next
  case False
  with sp show ?thesis by (cases s) (auto simp: with_call_def call_settle_def)
qed

lemma single_probe_expire:
  "single_probe_inv s \<Longrightarrow> single_probe_inv (s\<lparr>sys_breaker := expire_open_period now (sys_breaker s)\<rparr>)"
  by (auto simp: single_probe_inv_def expire_open_period_def unsettled_probes_def)

lemma single_probe_step:
  assumes "circuit_inv cfg s" "half_open_max_calls cfg = 1" "single_probe_inv s" "\<not> is_reset e"
  shows "single_probe_inv (circuit_step cfg s e)"
proof (cases e)
  case (Acquire now now')
  then show ?thesis
    using assms by (auto simp: single_probe_inv_def breaker_acquire_def expire_open_period_def
        unsettled_probes_def Let_def split: if_splits)
qed (use assms in \<open>auto simp: op_simps Let_def
      intro: single_probe_with_settle single_probe_with_release single_probe_expire\<close>)

subsection \<open>Evaluation of concrete schedules\<close>

lemmas circuit_eval =
  new_circuit_def new_breaker_def breaker_acquire_def breaker_defs with_call_def call_release_def
  call_settle_def op_simps deque_push_def last_n_def

definition strict_config :: "int \<Rightarrow> breaker_config" where
  "strict_config probes =
     \<lparr>failure_threshold = 1, window_size = 1, reset_timeout = 30,
      success_threshold = 2, half_open_max_calls = probes\<rparr>"

lemma default_breaker_config_ok: "breaker_config_ok default_breaker_config"
  by (simp add: breaker_config_error_def default_breaker_config_def)

lemma strict_config_ok: "1 \<le> probes \<Longrightarrow> breaker_config_ok (strict_config probes)"
  by (simp add: breaker_config_error_def strict_config_def)

lemma strict_config_probes [simp]: "half_open_max_calls (strict_config probes) = probes"
  by (simp add: strict_config_def)

section \<open>Properties\<close>

text \<open>
  C21: in every state that any schedule of admissions, outcomes, releases, state reads and resets
  reaches, the window holds at most \<open>window_size\<close> outcomes and fewer than \<open>failure_threshold\<close>
  failures, the probe counter stays between 0 and \<open>half_open_max_calls\<close>, and every unsettled call
  of the current generation was admitted in the state the breaker is still in, so an outcome is
  never recorded in \<open>OPEN\<close> and only a probe's outcome is recorded in \<open>HALF_OPEN\<close>.
\<close>

theorem circuit_invariant:
  assumes "breaker_config_ok cfg"
  shows "circuit_inv cfg (run (circuit_step cfg) (new_circuit orig) es)"
  using circuit.run_keeps [of cfg "new_circuit orig" es] assms
  by (simp add: circuit_inv_new list_all_iff)

theorem circuit_invariant_witness:
  "breaker_config_ok default_breaker_config \<and>
   circuit_inv default_breaker_config
     (run (circuit_step default_breaker_config) (new_circuit ''https://api.test'')
        [Acquire 1 1, Acquire 1 1, Failed 2 1, Reset, Succeeded 3 0])"
  using circuit_invariant [OF default_breaker_config_ok] default_breaker_config_ok by blast

text \<open>
  C22: once a circuit is open, no request is admitted before its open period ends. Whatever calls
  admitted earlier report in the meantime, every acquisition before \<open>open_until\<close> is refused and
  the circuit stays open with the same deadline, unless an operator resets it.
\<close>

theorem open_circuit_admits_nothing:
  assumes "breaker_config_ok cfg"
    and "s = run (circuit_step cfg) (new_circuit orig) es"
    and "cstate (sys_breaker s) = OPEN"
    and "list_all (before_without_reset (open_until (sys_breaker s))) es'"
  shows "cstate (sys_breaker (run (circuit_step cfg) s es')) = OPEN \<and>
         open_until (sys_breaker (run (circuit_step cfg) s es')) = open_until (sys_breaker s) \<and>
         length (sys_calls (run (circuit_step cfg) s es')) = length (sys_calls s)"
proof -
  let ?Q = "\<lambda>s'. cstate (sys_breaker s') = OPEN \<and> open_until (sys_breaker s') = open_until (sys_breaker s) \<and>
      length (sys_calls s') = length (sys_calls s)"
  have "circuit_inv cfg s"
    using circuit.run_keeps [of cfg "new_circuit orig" es] assms(1,2)
    by (simp add: circuit_inv_new list_all_iff)
  then show ?thesis
    using circuit.run_keeps_under [of cfg ?Q "before_without_reset (open_until (sys_breaker s))" s es']
      open_step [of cfg] assms by (simp add: list_all_iff)
qed

theorem open_circuit_admits_nothing_witness:
  "let cfg = strict_config 1;
       s = run (circuit_step cfg) (new_circuit ''o'') [Acquire 1 1, Acquire 1 1, Failed 2 0];
       es' = [Acquire 31 31, Failed 5 1, ReadState 31]
   in cstate (sys_breaker s) = OPEN \<and> open_until (sys_breaker s) = 32 \<and>
      list_all (before_without_reset 32) es' \<and>
      cstate (sys_breaker (run (circuit_step cfg) s es')) = OPEN \<and>
      length (sys_calls (run (circuit_step cfg) s es')) = 2"
proof -
  define s where "s = run (circuit_step (strict_config 1)) (new_circuit ''o'') [Acquire 1 1, Acquire 1 1, Failed 2 0]"
  have s: "cstate (sys_breaker s) = OPEN" "open_until (sys_breaker s) = 32" "length (sys_calls s) = 2"
    by (simp_all add: s_def strict_config_def circuit_eval)
  show ?thesis
    using open_circuit_admits_nothing [OF strict_config_ok [of 1] s_def s(1), of "[Acquire 31 31, Failed 5 1, ReadState 31]"] s
    by (simp only: s_def [symmetric] Let_def) simp
qed

text \<open>
  a half-open circuit never runs out of probe slots for good. In every reachable state, when
  the open period is over and fewer than \<open>half_open_max_calls\<close> probes of the current generation
  are unsettled, the next acquisition is admitted; a probe that was released without an outcome
  (a cancelled request) has given its slot back.
\<close>

theorem probe_slots_come_back:
  assumes "breaker_config_ok cfg"
    and "s = run (circuit_step cfg) (new_circuit orig) es"
    and "open_until (sys_breaker s) \<le> now"
    and "int (live_probes s) < half_open_max_calls cfg"
  shows "\<exists>c b. breaker_acquire cfg now now' (sys_breaker s) = (Inr c, b) \<and> \<not> settled c \<and>
           call_generation c = generation (sys_breaker s)"
proof -
  have "circuit_inv cfg s"
    using circuit.run_keeps [of cfg "new_circuit orig" es] assms(1,2)
    by (simp add: circuit_inv_new list_all_iff)
  then show ?thesis
    using assms breaker_config_okD(5) [OF assms(1)]
    by (cases "cstate (sys_breaker s)")
      (auto simp: circuit_inv_def breaker_acquire_def expire_open_period_def Let_def)
qed

theorem probe_slots_come_back_witness:
  "let cfg = strict_config 1;
       s = run (circuit_step cfg) (new_circuit ''o'') [Acquire 1 1, Failed 2 0, Acquire 40 40, Release 1]
   in cstate (sys_breaker s) = HALF_OPEN \<and> open_until (sys_breaker s) \<le> 41 \<and> live_probes s = 0 \<and>
      (\<exists>c b. breaker_acquire cfg 41 41 (sys_breaker s) = (Inr c, b) \<and> \<not> settled c \<and>
         call_generation c = generation (sys_breaker s))"
proof -
  define s where "s = run (circuit_step (strict_config 1)) (new_circuit ''o'') [Acquire 1 1, Failed 2 0, Acquire 40 40, Release 1]"
  have s: "cstate (sys_breaker s) = HALF_OPEN" "open_until (sys_breaker s) \<le> 41" "live_probes s = 0"
    by (simp_all add: s_def strict_config_def circuit_eval live_probes_def live_probe_def)
  have "\<exists>c b. breaker_acquire (strict_config 1) 41 41 (sys_breaker s) = (Inr c, b) \<and> \<not> settled c \<and>
      call_generation c = generation (sys_breaker s)"
    using s by (intro probe_slots_come_back [OF strict_config_ok s_def s(2)]) simp_all
  with s show ?thesis
    by (simp only: s_def [symmetric] Let_def)
qed

text \<open>
  C23: a closed breaker is exactly the sliding window its documentation describes. For requests
  one after another, as long as no earlier prefix reached the threshold, the circuit is open after
  the last of them, with its deadline \<open>reset_timeout\<close> after that request, if and only if at least
  \<open>failure_threshold\<close> of the last \<open>window_size\<close> outcomes failed; otherwise it is closed and the
  window is the list of those outcomes.
\<close>

theorem breaker_trips_on_sliding_window:
  assumes "breaker_config_ok cfg"
    and "\<forall>k<length os. count_true (last_n (nat (window_size cfg)) (map snd (take k os))) < failure_threshold cfg"
  shows "let b = sys_breaker (run (circuit_step cfg) (new_circuit orig) (outcome_events 0 os));
             recent = last_n (nat (window_size cfg)) (map snd os)
         in if failure_threshold cfg \<le> count_true recent
            then cstate b = OPEN \<and> open_until b = fst (last os) + reset_timeout cfg
            else cstate b = CLOSED \<and> window b = recent"
proof (cases os rule: rev_cases)
  case Nil
  then show ?thesis
    using breaker_config_okD(1) [OF assms(1)] by (simp add: new_circuit_def new_breaker_def)
next
  case (snoc os' x)
  obtain t failed where x: "x = (t, failed)" by (cases x)
  define s where "s = run (circuit_step cfg) (new_circuit orig) (outcome_events 0 os')"
  have quiet: "quiet cfg (map snd (take k os'))" if "k \<le> length os'" for k
    using that assms(2) [rule_format, of k] snoc by simp
  then have s: "cstate (sys_breaker s) = CLOSED" "generation (sys_breaker s) = 0"
      "window (sys_breaker s) = last_n (nat (window_size cfg)) (map snd os')"
      "length (sys_calls s) = length os'" "quiet cfg (map snd os')"
    using closed_while_quiet [of os' cfg orig] quiet [of "length os'"] by (auto simp: s_def Let_def)
  have "count_true (last_n (nat (window_size cfg)) (map snd os' @ [False])) < failure_threshold cfg"
    using s(5) count_true_deque_push [of "nat (window_size cfg)" "last_n (nat (window_size cfg)) (map snd os')" False]
    by simp
  with s closed_outcome [OF s(1) s(4), of cfg t failed] show ?thesis
    by (cases failed) (auto simp: snoc x outcome_events_snoc s_def [symmetric] record_outcome_def
        failures_in_window_def open_circuit_def Let_def)
qed

theorem breaker_trips_on_sliding_window_witness:
  "let cfg = \<lparr>failure_threshold = 2, window_size = 3, reset_timeout = 30, success_threshold = 2, half_open_max_calls = 1\<rparr>;
       b = sys_breaker (run (circuit_step cfg) (new_circuit ''o'')
             (outcome_events 0 [(1, True), (2, False), (3, True)]))
   in cstate b = OPEN \<and> open_until b = 33"
  using breaker_trips_on_sliding_window
    [of "\<lparr>failure_threshold = 2, window_size = 3, reset_timeout = 30, success_threshold = 2, half_open_max_calls = 1\<rparr>"
        "[(1, True), (2, False), (3, True)]" "''o''"]
  by (simp add: breaker_config_error_def last_n_def All_less_Suc numeral_3_eq_3 Let_def del: outcome_events.simps run.simps)

text \<open>
  with the default of one probe slot and no operator reset, at most one probe is ever
  unsettled, in whatever order outcomes arrive.
\<close>

theorem one_probe_at_a_time:
  assumes "breaker_config_ok cfg" and "half_open_max_calls cfg = 1"
    and "list_all (\<lambda>e. \<not> is_reset e) es"
  shows "unsettled_probes (run (circuit_step cfg) (new_circuit orig) es) \<le> 1"
proof -
  let ?s = "run (circuit_step cfg) (new_circuit orig) es"
  have "single_probe_inv (new_circuit orig)"
    by (simp add: single_probe_inv_def new_circuit_def new_breaker_def unsettled_probes_def)
  then have "single_probe_inv ?s"
    using circuit.run_keeps_under [of cfg single_probe_inv "\<lambda>e. \<not> is_reset e" "new_circuit orig" es]
      single_probe_step [of cfg] assms by (simp add: circuit_inv_new list_all_iff)
  moreover have "circuit_inv cfg ?s"
    using circuit.run_keeps [of cfg "new_circuit orig" es] assms(1)
    by (simp add: circuit_inv_new list_all_iff)
  ultimately show ?thesis
    using assms(2) by (auto simp: single_probe_inv_def circuit_inv_def breaker_ok_def split: if_splits)
qed

theorem one_probe_at_a_time_witness:
  "breaker_config_ok (strict_config 1) \<and>
   unsettled_probes (run (circuit_step (strict_config 1)) (new_circuit ''o'')
     [Acquire 1 1, Failed 2 0, Acquire 40 40, Acquire 40 40]) \<le> 1"
  using one_probe_at_a_time [OF strict_config_ok [of 1], of "[Acquire 1 1, Failed 2 0, Acquire 40 40, Acquire 40 40]" "''o''"]
  by (simp add: strict_config_ok del: run.simps)


end
