(* ===== verification/Bulkhead.thy ===== *)
theory Bulkhead
  imports Py_Prelude
begin

text \<open>
  The per-origin compartment, \<open>src/resilience/bulkhead.py\<close>, and its configuration and error from
  \<open>src/resilience/base.py\<close>.

  \<open>Bulkhead.acquire\<close> has one suspension point, the wait on its own future. It is modelled as two
  atomic halves: \<open>bulkhead_enter\<close>, up to the \<open>await\<close>, and \<open>bulkhead_resume\<close>, from the moment the
  event loop resumes the task. Between the two any other step may happen. The heap part of the
  state records every future that a caller waits on (a \<open>ticket\<close>, numbered by order of arrival)
  and every \<open>BulkheadSlot\<close> handed out. The steps of the event loop that the code relies on (a
  pending future may be cancelled, a task may only be resumed once its future is done) are the
  premises of \<open>bulkhead_step\<close>.
\<close>

section \<open>Definitions\<close>

subsection \<open>Configuration and errors\<close>

record bulkhead_config =
  limit :: int
  max_queue :: int
  acquire_timeout :: seconds
  execution_timeout :: "seconds option"

definition default_bulkhead_config :: bulkhead_config where
  "default_bulkhead_config =
     \<lparr>limit = 20, max_queue = 40, acquire_timeout = 1, execution_timeout = Some 30\<rparr>"

definition bulkhead_config_error :: "bulkhead_config \<Rightarrow> string option" where
  "bulkhead_config_error cfg =
     (if limit cfg < 1 then Some ''limit must be at least 1.''
      else if max_queue cfg < 0 then Some ''max_queue must not be negative.''
      else if acquire_timeout cfg < 0 then Some ''acquire_timeout must not be negative.''
      else if (case execution_timeout cfg of None \<Rightarrow> False | Some t \<Rightarrow> t \<le> 0)
        then Some ''execution_timeout must be positive, or None.''
      else None)"

abbreviation bulkhead_config_ok :: "bulkhead_config \<Rightarrow> bool" where
  "bulkhead_config_ok cfg \<equiv> bulkhead_config_error cfg = None"

datatype bulkhead_rejection = QUEUE_FULL | ACQUIRE_TIMEOUT | NO_BUDGET

record bulkhead_full_error =
  full_origin :: string
  full_reason :: bulkhead_rejection
  full_limit :: int
  full_queued :: int
  full_waited :: seconds
  full_retry_after :: seconds

subsection \<open>State\<close>

text \<open>A future: pending, given its result by a releaser, cancelled, or failed by \<open>reset\<close>.\<close>

datatype future_state = Pending | Served | Cancelled | FutureFailed bulkhead_full_error

text \<open>\<open>parked\<close>: the task that called \<open>acquire\<close> is still suspended on the future.\<close>

record ticket =
  future :: future_state
  parked :: bool

record bulkhead =
  bh_origin :: string
  in_flight :: int
  waiters :: "nat list"
  rejected :: int

record bulkhead_sys = bulkhead +
  tickets :: "ticket list"
  slots_released :: "bool list"

definition new_bulkhead :: "string \<Rightarrow> bulkhead_sys" where
  "new_bulkhead orig =
     \<lparr>bh_origin = orig, in_flight = 0, waiters = [], rejected = 0, tickets = [], slots_released = []\<rparr>"

definition future_done :: "ticket list \<Rightarrow> nat \<Rightarrow> bool" where
  "future_done ts w \<longleftrightarrow> future (ts ! w) \<noteq> Pending"

text \<open>\<open>_was_handed_a_slot\<close>: done, not cancelled, no exception.\<close>

definition was_handed_a_slot :: "ticket list \<Rightarrow> nat \<Rightarrow> bool" where
  "was_handed_a_slot ts w \<longleftrightarrow> future (ts ! w) = Served"

subsection \<open>Rejection, queue and release\<close>

definition bulkhead_error :: "bulkhead_config \<Rightarrow> bulkhead_rejection \<Rightarrow> seconds \<Rightarrow> bulkhead_sys \<Rightarrow> bulkhead_full_error" where
  "bulkhead_error cfg reason waited s =
     \<lparr>full_origin = bh_origin s, full_reason = reason, full_limit = limit cfg,
      full_queued = int (length (waiters s)), full_waited = waited,
      full_retry_after = acquire_timeout cfg\<rparr>"

definition bulkhead_reject ::
    "bulkhead_config \<Rightarrow> bulkhead_rejection \<Rightarrow> seconds \<Rightarrow> bulkhead_sys \<Rightarrow> bulkhead_full_error \<times> bulkhead_sys" where
  "bulkhead_reject cfg reason waited s =
     (let s = s\<lparr>rejected := rejected s + 1\<rparr> in (bulkhead_error cfg reason waited s, s))"

definition discard_waiter :: "nat \<Rightarrow> bulkhead_sys \<Rightarrow> bulkhead_sys" where
  "discard_waiter w s = s\<lparr>waiters := remove1 w (waiters s)\<rparr>"

text \<open>
  The loop of \<open>_release\<close>: pop waiters, skip those whose future is done, stop at the first that
  is not. The result is the rest of the queue and the waiter found, if any.
\<close>

fun pop_waiter :: "ticket list \<Rightarrow> nat list \<Rightarrow> nat list \<times> nat option" where
  "pop_waiter ts [] = ([], None)"
| "pop_waiter ts (w # ws) = (if future_done ts w then pop_waiter ts ws else (ws, Some w))"

definition bulkhead_release :: "bulkhead_sys \<Rightarrow> bulkhead_sys" where
  "bulkhead_release s =
     (case pop_waiter (tickets s) (waiters s) of
        (ws, Some w) \<Rightarrow> s\<lparr>waiters := ws, tickets := (tickets s)[w := (tickets s ! w)\<lparr>future := Served\<rparr>]\<rparr>
      | (ws, None) \<Rightarrow> s\<lparr>waiters := ws, in_flight := max 0 (in_flight s - 1)\<rparr>)"

definition slot_release :: "nat \<Rightarrow> bulkhead_sys \<Rightarrow> bulkhead_sys" where
  "slot_release j s =
     (if slots_released s ! j then s
      else bulkhead_release (s\<lparr>slots_released := (slots_released s)[j := True]\<rparr>))"

definition new_slot :: "bulkhead_sys \<Rightarrow> bulkhead_sys" where
  "new_slot s = s\<lparr>slots_released := slots_released s @ [False]\<rparr>"

text \<open>
  \<open>_wait_budget\<close>: \<open>remaining\<close> is \<open>current_deadline().remaining()\<close> where there is an enclosing
  deadline. \<open>Inl\<close> refuses; \<open>Inr None\<close> leaves the wait to the enclosing scope.
\<close>

definition wait_budget :: "bulkhead_config \<Rightarrow> seconds option \<Rightarrow> bulkhead_rejection + seconds option" where
  "wait_budget cfg remaining =
     (case remaining of
        None \<Rightarrow> Inr (Some (acquire_timeout cfg))
      | Some r \<Rightarrow>
          if r \<le> 0 then Inl NO_BUDGET
          else if r \<le> acquire_timeout cfg then Inr None
          else Inr (Some (acquire_timeout cfg)))"

subsection \<open>Acquire\<close>

datatype entry = Admitted | Refused bulkhead_full_error | Queued nat "seconds option"

definition bulkhead_enter :: "bulkhead_config \<Rightarrow> seconds option \<Rightarrow> bulkhead_sys \<Rightarrow> entry \<times> bulkhead_sys" where
  "bulkhead_enter cfg remaining s =
     (if in_flight s < limit cfg \<and> waiters s = []
      then (Admitted, new_slot (s\<lparr>in_flight := in_flight s + 1\<rparr>))
      else if max_queue cfg \<le> int (length (waiters s))
        then map_prod Refused id (bulkhead_reject cfg QUEUE_FULL 0 s)
      else
        (case wait_budget cfg remaining of
           Inl reason \<Rightarrow> map_prod Refused id (bulkhead_reject cfg reason 0 s)
         | Inr timeout \<Rightarrow>
             (let w = length (tickets s)
              in (Queued w timeout,
                  s\<lparr>waiters := waiters s @ [w], tickets := tickets s @ [\<lparr>future = Pending, parked = True\<rparr>]\<rparr>))))"

text \<open>How the \<open>await\<close> ends: the future's own result, this call's timer, or anything else.\<close>

datatype wakeup = Woken | TimedOut seconds | Interrupted

datatype resumed = Slot | Raised bulkhead_full_error | Propagated

definition unpark :: "nat \<Rightarrow> bulkhead_sys \<Rightarrow> bulkhead_sys" where
  "unpark w s = s\<lparr>tickets := (tickets s)[w := (tickets s ! w)\<lparr>parked := False\<rparr>]\<rparr>"

definition bulkhead_resume ::
    "bulkhead_config \<Rightarrow> nat \<Rightarrow> wakeup \<Rightarrow> bulkhead_sys \<Rightarrow> resumed \<times> bulkhead_sys" where
  "bulkhead_resume cfg w how s =
     (let s = unpark w s; handed = was_handed_a_slot (tickets s) w in
      case how of
        Woken \<Rightarrow>
          if handed then (Slot, new_slot (discard_waiter w s)) else (Propagated, discard_waiter w s)
      | TimedOut waited \<Rightarrow>
          if handed then (Slot, new_slot (discard_waiter w s))
          else map_prod Raised (discard_waiter w) (bulkhead_reject cfg ACQUIRE_TIMEOUT waited s)
      | Interrupted \<Rightarrow>
          (Propagated, discard_waiter w (if handed then bulkhead_release s else s)))"

subsection \<open>Reset and statistics\<close>

fun fail_waiters :: "(bulkhead_sys \<Rightarrow> bulkhead_full_error) \<Rightarrow> nat list \<Rightarrow> bulkhead_sys \<Rightarrow> bulkhead_sys" where
  "fail_waiters err [] s = s"
| "fail_waiters err (w # ws) s =
     (let s = s\<lparr>waiters := ws\<rparr> in
      fail_waiters err ws
        (if future_done (tickets s) w then s
         else s\<lparr>tickets := (tickets s)[w := (tickets s ! w)\<lparr>future := FutureFailed (err s)\<rparr>]\<rparr>))"

definition bulkhead_reset :: "bulkhead_config \<Rightarrow> bulkhead_sys \<Rightarrow> bulkhead_sys" where
  "bulkhead_reset cfg s =
     (fail_waiters (bulkhead_error cfg QUEUE_FULL 0) (waiters s) s)\<lparr>in_flight := 0, rejected := 0\<rparr>"

record bulkhead_stats =
  stats_origin :: string
  stats_limit :: int
  stats_in_flight :: int
  stats_queued :: int
  stats_rejected :: int

definition bulkhead_stats_of :: "bulkhead_config \<Rightarrow> bulkhead_sys \<Rightarrow> bulkhead_stats" where
  "bulkhead_stats_of cfg s =
     \<lparr>stats_origin = bh_origin s, stats_limit = limit cfg, stats_in_flight = in_flight s,
      stats_queued = int (length (waiters s)), stats_rejected = rejected s\<rparr>"

subsection \<open>Steps of the event loop\<close>

inductive bulkhead_step :: "bulkhead_config \<Rightarrow> bulkhead_sys \<Rightarrow> bulkhead_sys \<Rightarrow> bool" for cfg where
  enter: "bulkhead_step cfg s (snd (bulkhead_enter cfg remaining s))"
| release: "j < length (slots_released s) \<Longrightarrow> bulkhead_step cfg s (slot_release j s)"
| cancel: "w < length (tickets s) \<Longrightarrow> future (tickets s ! w) = Pending \<Longrightarrow>
     bulkhead_step cfg s (s\<lparr>tickets := (tickets s)[w := (tickets s ! w)\<lparr>future := Cancelled\<rparr>]\<rparr>)"
| resume: "w < length (tickets s) \<Longrightarrow> parked (tickets s ! w) \<Longrightarrow> future (tickets s ! w) \<noteq> Pending \<Longrightarrow>
     bulkhead_step cfg s (snd (bulkhead_resume cfg w how s))"

abbreviation bulkhead_reachable :: "bulkhead_config \<Rightarrow> bulkhead_sys \<Rightarrow> bool" where
  "bulkhead_reachable cfg \<equiv> reach (\<lambda>s. s \<in> range new_bulkhead) (bulkhead_step cfg)"

subsection \<open>Invariant\<close>

definition slots_held :: "bulkhead_sys \<Rightarrow> nat" where
  "slots_held s = length (filter Not (slots_released s))"

text \<open>Callers that were given a slot and have not run yet.\<close>

definition handed_over :: "bulkhead_sys \<Rightarrow> nat" where
  "handed_over s = length (filter (\<lambda>t. parked t \<and> future t = Served) (tickets s))"

text \<open>
  \<open>bulkhead_owing k\<close> is the invariant while \<open>k\<close> slots are in transit, counted in \<open>in_flight\<close> and
  held by nobody: between two steps it is 0, inside a release it is 1.
\<close>

definition bulkhead_owing :: "nat \<Rightarrow> bulkhead_config \<Rightarrow> bulkhead_sys \<Rightarrow> bool" where
  "bulkhead_owing k cfg s \<longleftrightarrow>
     in_flight s = int (slots_held s + handed_over s + k) \<and>
     in_flight s \<le> limit cfg \<and>
     int (length (waiters s)) \<le> max_queue cfg \<and>
     (waiters s \<noteq> [] \<longrightarrow> in_flight s = limit cfg) \<and>
     sorted_wrt (<) (waiters s) \<and>
     (\<forall>w\<in>set (waiters s). w < length (tickets s) \<and> future (tickets s ! w) \<noteq> Served) \<and>
     (\<forall>w<length (tickets s). future (tickets s ! w) = Pending \<longrightarrow>
        parked (tickets s ! w) \<and> w \<in> set (waiters s))"

abbreviation bulkhead_inv :: "bulkhead_config \<Rightarrow> bulkhead_sys \<Rightarrow> bool" where
  "bulkhead_inv \<equiv> bulkhead_owing 0"

section \<open>Lemmas\<close>

lemma bulkhead_config_okD:
  assumes "bulkhead_config_ok cfg"
  shows "1 \<le> limit cfg" "0 \<le> max_queue cfg" "0 \<le> acquire_timeout cfg"
  using assms by (auto simp: bulkhead_config_error_def split: if_splits)

lemma pop_waiter_None: "pop_waiter ts ws = (ws', None) \<Longrightarrow> ws' = [] \<and> (\<forall>w\<in>set ws. future_done ts w)"
  by (induction ws) (auto split: if_splits)

lemma pop_waiter_Some:
  "pop_waiter ts ws = (ws', Some w) \<Longrightarrow>
     \<exists>skipped. ws = skipped @ w # ws' \<and> (\<forall>d\<in>set skipped. future_done ts d) \<and> \<not> future_done ts w"
proof (induction ws)
  case (Cons v vs)
  show ?case
  proof (cases "future_done ts v")
    case True
    with Cons obtain skipped where "vs = skipped @ w # ws'" "\<forall>d\<in>set skipped. future_done ts d" "\<not> future_done ts w"
      by auto
    with True show ?thesis by (intro exI [of _ "v # skipped"]) simp
  next
    case False
    with Cons.prems show ?thesis by (intro exI [of _ "[]"]) simp
  qed
qed simp

text \<open>Changing one ticket moves the number of slots handed over by what the ticket weighs.\<close>

lemma handed_over_update:
  assumes "w < length (tickets s)" "tickets s' = (tickets s)[w := t]"
  shows "handed_over s' +
           (if parked (tickets s ! w) \<and> future (tickets s ! w) = Served then 1 else 0) =
         handed_over s + (if parked t \<and> future t = Served then 1 else 0)"
  using length_filter_update [OF assms(1), of "\<lambda>t. parked t \<and> future t = Served" t] assms(2)
  by (simp add: handed_over_def)

lemma slots_held_release:
  assumes "j < length (slots_released s)" "\<not> slots_released s ! j"
  shows "slots_held (s\<lparr>slots_released := (slots_released s)[j := True]\<rparr>) + 1 = slots_held s"
  using length_filter_update [OF assms(1), of Not True] assms(2) by (simp add: slots_held_def)

lemma handed_over_frame [simp]:
  "handed_over (s\<lparr>waiters := ws\<rparr>) = handed_over s"
  "handed_over (s\<lparr>in_flight := n\<rparr>) = handed_over s"
  "handed_over (s\<lparr>rejected := r\<rparr>) = handed_over s"
  "handed_over (s\<lparr>slots_released := l\<rparr>) = handed_over s"
  by (simp_all add: handed_over_def)

lemma slots_held_frame [simp]:
  "slots_held (s\<lparr>waiters := ws\<rparr>) = slots_held s"
  "slots_held (s\<lparr>in_flight := n\<rparr>) = slots_held s"
  "slots_held (s\<lparr>rejected := r\<rparr>) = slots_held s"
  "slots_held (s\<lparr>tickets := ts\<rparr>) = slots_held s"
  by (simp_all add: slots_held_def)

lemma owing_pending:
  "bulkhead_owing k cfg s \<Longrightarrow> w < length (tickets s) \<Longrightarrow> future (tickets s ! w) = Pending \<Longrightarrow>
     w \<in> set (waiters s)"
  by (simp add: bulkhead_owing_def)

subsection \<open>Preservation\<close>

lemma owing_new: "bulkhead_config_ok cfg \<Longrightarrow> bulkhead_inv cfg (new_bulkhead orig)"
  by (auto dest: bulkhead_config_okD simp: bulkhead_owing_def new_bulkhead_def slots_held_def handed_over_def)

lemma owing_rejected [inv_intros]:
  "bulkhead_owing k cfg s \<Longrightarrow> bulkhead_owing k cfg (s\<lparr>rejected := n\<rparr>)"
  by (auto simp: bulkhead_owing_def)

lemma owing_discard [inv_intros]:
  assumes "bulkhead_owing k cfg s" "w < length (tickets s)" "future (tickets s ! w) \<noteq> Pending"
  shows "bulkhead_owing k cfg (discard_waiter w s)"
proof -
  have "sorted_wrt (<) (remove1 w (waiters s))"
    using assms(1) by (auto simp: bulkhead_owing_def strict_sorted_iff sorted_remove1)
  moreover have "length (remove1 w (waiters s)) \<le> length (waiters s)"
    by (simp add: length_remove1)
  moreover have "set (remove1 w (waiters s)) = set (waiters s) - {w}"
    using assms(1) by (auto simp: bulkhead_owing_def strict_sorted_iff)
  ultimately show ?thesis
    using assms by (auto simp: bulkhead_owing_def discard_waiter_def)
qed

lemma owing_new_slot [inv_intros]:
  "bulkhead_owing (Suc k) cfg s \<Longrightarrow> bulkhead_owing k cfg (new_slot s)"
  by (auto simp: bulkhead_owing_def new_slot_def slots_held_def)

lemma owing_unpark:
  assumes "bulkhead_owing k cfg s" "w < length (tickets s)" "parked (tickets s ! w)"
    "future (tickets s ! w) \<noteq> Pending"
  shows "bulkhead_owing (if future (tickets s ! w) = Served then Suc k else k) cfg (unpark w s)"
  using assms handed_over_update [OF assms(2), of "unpark w s" "(tickets s ! w)\<lparr>parked := False\<rparr>"]
  by (auto simp: bulkhead_owing_def unpark_def nth_list_update)

lemma owing_cancel:
  assumes "bulkhead_owing k cfg s" "w < length (tickets s)" "future (tickets s ! w) = Pending"
  shows "bulkhead_owing k cfg (s\<lparr>tickets := (tickets s)[w := (tickets s ! w)\<lparr>future := Cancelled\<rparr>]\<rparr>)"
  using assms handed_over_update [OF assms(2), of "s\<lparr>tickets := (tickets s)[w := (tickets s ! w)\<lparr>future := Cancelled\<rparr>]\<rparr>"
      "(tickets s ! w)\<lparr>future := Cancelled\<rparr>"]
  by (auto simp: bulkhead_owing_def nth_list_update)

text \<open>A release settles one slot in transit: to the first pending waiter, or to the pool.\<close>

lemma owing_release [inv_intros]:
  assumes "bulkhead_owing (Suc k) cfg s"
  shows "bulkhead_owing k cfg (bulkhead_release s)"
proof (cases "pop_waiter (tickets s) (waiters s)")
  case (Pair ws found)
  show ?thesis
  proof (cases found)
    case None
    then have "ws = []" "\<forall>w\<in>set (waiters s). future_done (tickets s) w"
      using Pair pop_waiter_None by auto
    with assms Pair None show ?thesis
      by (auto simp: bulkhead_owing_def bulkhead_release_def future_done_def)
  next
    case (Some w)
    then obtain skipped where ws: "waiters s = skipped @ w # ws"
        and skipped: "\<forall>d\<in>set skipped. future_done (tickets s) d" and w: "\<not> future_done (tickets s) w"
      using Pair pop_waiter_Some by blast
    have lt: "w < length (tickets s)" and pend: "future (tickets s ! w) = Pending" "parked (tickets s ! w)"
      using assms w ws by (auto simp: bulkhead_owing_def future_done_def)
    have "sorted_wrt (<) ws" "w \<notin> set ws"
      using assms by (auto simp: bulkhead_owing_def ws sorted_wrt_append)
    with assms Pair Some ws skipped pend lt handed_over_update [OF lt, of "bulkhead_release s" "(tickets s ! w)\<lparr>future := Served\<rparr>"]
    show ?thesis
      by (auto simp: bulkhead_owing_def bulkhead_release_def nth_list_update future_done_def)
  qed
qed

lemma owing_slot_release:
  assumes "bulkhead_inv cfg s" "j < length (slots_released s)"
  shows "bulkhead_inv cfg (slot_release j s)"
proof (cases "slots_released s ! j")
  case False
  then have "bulkhead_owing (Suc 0) cfg (s\<lparr>slots_released := (slots_released s)[j := True]\<rparr>)"
    using assms slots_held_release [of j s] by (auto simp: bulkhead_owing_def)
  with False show ?thesis by (auto simp: slot_release_def intro: owing_release)
qed (use assms in \<open>simp add: slot_release_def\<close>)

lemma owing_enter:
  assumes "bulkhead_inv cfg s"
  shows "bulkhead_inv cfg (snd (bulkhead_enter cfg remaining s))"
proof -
  have fast: "bulkhead_inv cfg (new_slot (s\<lparr>in_flight := in_flight s + 1\<rparr>))"
    if "in_flight s < limit cfg" "waiters s = []"
    using that assms by (intro owing_new_slot) (auto simp: bulkhead_owing_def)
  have queue: "bulkhead_inv cfg (s\<lparr>waiters := waiters s @ [length (tickets s)],
      tickets := tickets s @ [\<lparr>future = Pending, parked = True\<rparr>]\<rparr>)"
    if "\<not> (in_flight s < limit cfg \<and> waiters s = [])" "int (length (waiters s)) < max_queue cfg"
    using that assms
    by (auto simp: bulkhead_owing_def handed_over_def nth_append sorted_wrt_append less_Suc_eq)
  show ?thesis
    using fast queue assms
    by (auto simp: bulkhead_enter_def bulkhead_reject_def Let_def split: sum.split intro: inv_intros)
qed

lemma owing_resume:
  assumes inv: "bulkhead_inv cfg s" and w: "w < length (tickets s)" "parked (tickets s ! w)"
    and nopend: "future (tickets s ! w) \<noteq> Pending"
  shows "bulkhead_inv cfg (snd (bulkhead_resume cfg w how s))"
proof -
  define s' where "s' = unpark w s"
  have s': "bulkhead_owing (if future (tickets s ! w) = Served then Suc 0 else 0) cfg s'"
    unfolding s'_def by (rule owing_unpark [OF inv w nopend])
  have w': "w < length (tickets s')" "future (tickets s' ! w) = future (tickets s ! w)"
    using w(1) by (simp_all add: s'_def unpark_def)
  have gone: "bulkhead_inv cfg (discard_waiter w (bulkhead_release s'))" if "future (tickets s ! w) = Served"
  proof -
    have "bulkhead_inv cfg (bulkhead_release s')"
      using s' that by (auto intro: owing_release)
    moreover have "w < length (tickets (bulkhead_release s'))"
        "future (tickets (bulkhead_release s') ! w) \<noteq> Pending"
      using w' nopend
      by (auto simp: bulkhead_release_def nth_update split: prod.splits option.splits if_splits)
    ultimately show ?thesis by (rule owing_discard)
  qed
  have rej: "discard_waiter w (s'\<lparr>rejected := n\<rparr>) = (discard_waiter w s')\<lparr>rejected := n\<rparr>" for n
    by (simp add: discard_waiter_def)
  show ?thesis
    using s' w' nopend gone
    by (cases how)
      (auto simp: bulkhead_resume_def s'_def [symmetric] was_handed_a_slot_def bulkhead_reject_def rej Let_def
        intro!: owing_new_slot owing_rejected owing_discard)
qed

lemma bulkhead_inv_step: "bulkhead_inv cfg s \<Longrightarrow> bulkhead_step cfg s s' \<Longrightarrow> bulkhead_inv cfg s'"
  by (erule bulkhead_step.cases) (auto intro: owing_enter owing_slot_release owing_cancel owing_resume)

interpretation bulkhead: transitions "\<lambda>s. s \<in> range new_bulkhead" "bulkhead_step cfg"
  "\<lambda>s. bulkhead_config_ok cfg \<longrightarrow> bulkhead_inv cfg s" for cfg
  by unfold_locales (auto intro: owing_new bulkhead_inv_step)

lemma reachable_inv: "bulkhead_config_ok cfg \<Longrightarrow> bulkhead_reachable cfg s \<Longrightarrow> bulkhead_inv cfg s"
  using bulkhead.reach_ok by blast

subsection \<open>Concrete runs\<close>

lemma reachable_enter: "bulkhead_reachable cfg s \<Longrightarrow> bulkhead_reachable cfg (snd (bulkhead_enter cfg remaining s))"
  by (erule reach_step) (rule bulkhead_step.enter)

lemma reachable_new: "bulkhead_reachable cfg (new_bulkhead orig)"
  by (rule reach_init) simp

definition narrow_config :: bulkhead_config where
  "narrow_config = \<lparr>limit = 1, max_queue = 2, acquire_timeout = 1, execution_timeout = None\<rparr>"

definition enters :: "nat \<Rightarrow> bulkhead_sys" where
  "enters n = ((snd \<circ> bulkhead_enter narrow_config None) ^^ n) (new_bulkhead ''o'')"

lemma narrow_config_ok: "bulkhead_config_ok narrow_config"
  by (simp add: bulkhead_config_error_def narrow_config_def)

lemma reachable_enters: "bulkhead_reachable narrow_config (enters n)"
  by (induction n) (auto simp: enters_def reachable_new reachable_enter)

lemmas bulkhead_eval =
  enters_def narrow_config_def new_bulkhead_def bulkhead_enter_def new_slot_def wait_budget_def
  slot_release_def bulkhead_release_def future_done_def numeral_2_eq_2 numeral_3_eq_3

section \<open>Properties\<close>

text \<open>
  C25: a compartment never runs more than \<open>limit\<close> calls and never lets more than \<open>max_queue\<close> wait,
  in every interleaving of arrivals, releases, cancellations, timeouts and resumed waiters. The
  counter \<open>in_flight\<close> is exactly the number of unreleased slots and of slots handed to a caller
  that has not run yet, so no slot is lost or handed out twice; and a call waits only while the
  compartment is full.
\<close>

theorem bulkhead_capacity:
  assumes "bulkhead_config_ok cfg" "bulkhead_reachable cfg s"
  shows "in_flight s = int (slots_held s + handed_over s) \<and>
         int (slots_held s + handed_over s) \<le> limit cfg \<and>
         int (length (waiters s)) \<le> max_queue cfg \<and>
         (waiters s \<noteq> [] \<longrightarrow> int (slots_held s + handed_over s) = limit cfg)"
  using reachable_inv [OF assms] by (auto simp: bulkhead_owing_def)

theorem bulkhead_capacity_witness:
  "slots_held (enters 3) = 1 \<and> waiters (enters 3) = [0, 1] \<and> in_flight (enters 3) = 1 \<and>
   int (slots_held (enters 3) + handed_over (enters 3)) = limit narrow_config"
proof -
  have "slots_held (enters 3) = 1" "waiters (enters 3) = [0, 1]" "in_flight (enters 3) = 1"
    by (simp_all add: bulkhead_eval slots_held_def)
  then show ?thesis
    using bulkhead_capacity [OF narrow_config_ok reachable_enters [of 3]] by simp
qed

text \<open>
  releasing a slot hands it to the caller that has waited longest. If any future is still
  pending, exactly the oldest of them is served and \<open>in_flight\<close> does not move; otherwise no
  future changes and \<open>in_flight\<close> goes down by one.
\<close>

theorem slot_goes_to_longest_waiting:
  assumes cfg: "bulkhead_config_ok cfg" and s: "bulkhead_reachable cfg s"
    and j: "j < length (slots_released s)" "\<not> slots_released s ! j"
  shows "if \<exists>w<length (tickets s). future (tickets s ! w) = Pending
         then \<exists>w<length (tickets s). future (tickets s ! w) = Pending \<and>
                (\<forall>v<w. future (tickets s ! v) \<noteq> Pending) \<and>
                tickets (slot_release j s) = (tickets s)[w := (tickets s ! w)\<lparr>future := Served\<rparr>] \<and>
                in_flight (slot_release j s) = in_flight s
         else tickets (slot_release j s) = tickets s \<and> in_flight (slot_release j s) = in_flight s - 1"
proof -
  have inv: "bulkhead_inv cfg s" by (rule reachable_inv [OF cfg s])
  obtain ws found where pop: "pop_waiter (tickets s) (waiters s) = (ws, found)"
    by (cases "pop_waiter (tickets s) (waiters s)")
  show ?thesis
  proof (cases found)
    case None
    have "0 < slots_held s"
      using j slots_held_release [of j s] by simp
    moreover have "\<forall>w\<in>set (waiters s). future (tickets s ! w) \<noteq> Pending"
      using pop None pop_waiter_None [of "tickets s" "waiters s" ws] by (simp add: future_done_def)
    then have "\<forall>w<length (tickets s). future (tickets s ! w) \<noteq> Pending"
      using inv by (auto simp: bulkhead_owing_def)
    ultimately show ?thesis
      using inv pop None j by (auto simp: bulkhead_owing_def slot_release_def bulkhead_release_def)
  next
    case (Some w)
    then obtain skipped where ws: "waiters s = skipped @ w # ws"
        and skipped: "\<forall>d\<in>set skipped. future_done (tickets s) d" and w: "\<not> future_done (tickets s) w"
      using pop pop_waiter_Some by blast
    have lt: "w < length (tickets s)" and sorted: "sorted_wrt (<) (skipped @ w # ws)"
      using inv ws by (auto simp: bulkhead_owing_def)
    have "future (tickets s ! v) \<noteq> Pending" if "v < w" for v
    proof
      assume "future (tickets s ! v) = Pending"
      then have "v \<in> set (skipped @ w # ws)"
        using owing_pending [OF inv, of v] that lt ws by simp
      with that sorted have "v \<in> set skipped"
        by (auto simp: sorted_wrt_append)
      with skipped show False
        using \<open>future (tickets s ! v) = Pending\<close> by (auto simp: future_done_def)
    qed
    with lt w pop Some j show ?thesis
      by (auto simp: slot_release_def bulkhead_release_def future_done_def)
  qed
qed

theorem slot_goes_to_longest_waiting_witness:
  "future (tickets (slot_release 0 (enters 3)) ! 0) = Served \<and>
   future (tickets (slot_release 0 (enters 3)) ! 1) = Pending \<and>
   in_flight (slot_release 0 (enters 3)) = 1"
proof -
  have slot: "0 < length (slots_released (enters 3))" "\<not> slots_released (enters 3) ! 0"
    and ts: "tickets (enters 3) = [\<lparr>future = Pending, parked = True\<rparr>, \<lparr>future = Pending, parked = True\<rparr>]"
    and n: "in_flight (enters 3) = 1"
    by (simp_all add: bulkhead_eval)
  have "\<exists>w<length (tickets (enters 3)). future (tickets (enters 3) ! w) = Pending"
    by (rule exI [of _ 0]) (simp add: ts)
  then obtain w where w: "\<forall>v<w. future (tickets (enters 3) ! v) \<noteq> Pending"
      "tickets (slot_release 0 (enters 3)) = (tickets (enters 3))[w := (tickets (enters 3) ! w)\<lparr>future := Served\<rparr>]"
      "in_flight (slot_release 0 (enters 3)) = in_flight (enters 3)"
    using slot_goes_to_longest_waiting [OF narrow_config_ok reachable_enters [of 3] slot] by auto
  from w(1) have "w = 0"
    by (cases w) (auto simp: ts)
  with w ts n show ?thesis by simp
qed

text \<open>
  a call is refused at once only when the compartment is full, and for the reason the error
  names: the queue is at \<open>max_queue\<close>, or the enclosing deadline is already spent. Otherwise it is
  admitted, or queued with a timer of \<open>acquire_timeout\<close>, or, when the enclosing deadline ends
  first, queued without a timer.
\<close>

theorem bulkhead_enter_outcomes:
  assumes "bulkhead_config_ok cfg" "bulkhead_reachable cfg s"
  shows "case fst (bulkhead_enter cfg remaining s) of
           Admitted \<Rightarrow> in_flight s < limit cfg \<and> waiters s = []
         | Refused e \<Rightarrow> in_flight s = limit cfg \<and> full_limit e = limit cfg \<and>
             full_retry_after e = acquire_timeout cfg \<and>
             (full_reason e = QUEUE_FULL \<and> int (length (waiters s)) = max_queue cfg \<or>
              full_reason e = NO_BUDGET \<and> (\<exists>r. remaining = Some r \<and> r \<le> 0))
         | Queued w timer \<Rightarrow> in_flight s = limit cfg \<and> w = length (tickets s) \<and>
             timer = (case remaining of Some r \<Rightarrow> if r \<le> acquire_timeout cfg then None else Some (acquire_timeout cfg)
                                      | None \<Rightarrow> Some (acquire_timeout cfg))"
  using reachable_inv [OF assms]
  by (auto simp: bulkhead_owing_def bulkhead_enter_def bulkhead_reject_def bulkhead_error_def wait_budget_def
      Let_def split: option.split)

theorem bulkhead_enter_outcomes_witness:
  "fst (bulkhead_enter narrow_config None (enters 3)) =
     Refused \<lparr>full_origin = ''o'', full_reason = QUEUE_FULL, full_limit = 1, full_queued = 2,
              full_waited = 0, full_retry_after = 1\<rparr> \<and>
   in_flight (enters 3) = limit narrow_config"
proof -
  have "fst (bulkhead_enter narrow_config None (enters 3)) =
     Refused \<lparr>full_origin = ''o'', full_reason = QUEUE_FULL, full_limit = 1, full_queued = 2,
              full_waited = 0, full_retry_after = 1\<rparr>"
    by (simp add: bulkhead_eval bulkhead_reject_def bulkhead_error_def)
  then show ?thesis
    using bulkhead_enter_outcomes [OF narrow_config_ok reachable_enters [of 3], of None] by simp
qed

end
