(* ===== verification/Retry_Loops.thy ===== *)
theory Retry_Loops
  imports Py_Prelude
begin

text \<open>
  Backoff and the two call-level retry loops: \<open>backoff_delay\<close> of \<open>src/decorators/base.py\<close>, the
  \<open>@retry\<close> decorator of \<open>src/decorators/retry.py\<close>, and the transaction retry of
  \<open>src/locking/retry.py\<close> with the SQLSTATE inspection of \<open>src/locking/errors.py\<close>.

  The wrapped callable is an argument that says how its \<open>k\<close>-th invocation ends; the jitter source
  is an argument that gives the value in \<open>[0, 1]\<close> that \<open>random()\<close> draws for the wait after
  attempt \<open>k\<close>. Exception types are tested by predicates (\<open>isinstance\<close>). The locale
  \<open>retry_policy\<close> states what a retry decision promises to the loop that asks it; both loops are
  instances.
\<close>

section \<open>Definitions\<close>

subsection \<open>Backoff\<close>

definition MAX_BACKOFF_EXPONENT :: int where
  "MAX_BACKOFF_EXPONENT = 32"

text \<open>\<open>random.Random.uniform(a, b)\<close> with \<open>u\<close> the value of \<open>random()\<close>.\<close>

definition uniform :: "rat \<Rightarrow> seconds \<Rightarrow> seconds \<Rightarrow> seconds" where
  "uniform u a b = a + (b - a) * u"

definition backoff_ceiling :: "int \<Rightarrow> seconds \<Rightarrow> seconds \<Rightarrow> seconds" where
  "backoff_ceiling attempt base_delay max_delay =
     min max_delay (base_delay * 2 powi (min (attempt - 1) MAX_BACKOFF_EXPONENT))"

definition backoff_delay :: "int \<Rightarrow> seconds \<Rightarrow> seconds \<Rightarrow> bool \<Rightarrow> rat \<Rightarrow> seconds" where
  "backoff_delay attempt base_delay max_delay jitter u =
     (let ceiling = backoff_ceiling attempt base_delay max_delay in
      if \<not> jitter then ceiling else uniform u 0 ceiling)"

subsection \<open>The shape of a retry loop\<close>

text \<open>
  \<open>for attempt in range(1, attempts + 1)\<close>: return on success, ask \<open>decide\<close> on failure, re-raise
  when it says \<open>None\<close>, sleep otherwise; \<open>AssertionError("unreachable")\<close> after the loop. The second
  component is the list of sleeps.
\<close>

datatype ('e, 'a) loop_result = Returned 'a | Raised 'e | Unreachable

fun retry_from ::
    "(int \<Rightarrow> 'e \<Rightarrow> seconds option) \<Rightarrow> (int \<Rightarrow> 'e + 'a) \<Rightarrow> int list \<Rightarrow> ('e, 'a) loop_result \<times> seconds list" where
  "retry_from decide call [] = (Unreachable, [])"
| "retry_from decide call (k # ks) =
     (case call k of
        Inr v \<Rightarrow> (Returned v, [])
      | Inl e \<Rightarrow>
          (case decide k e of
             None \<Rightarrow> (Raised e, [])
           | Some d \<Rightarrow> map_prod id (Cons d) (retry_from decide call ks)))"

subsection \<open>The retry decorator\<close>

record 'e retry_config =
  retry_attempts :: int
  retry_on :: "'e \<Rightarrow> bool"
  retry_give_up_on :: "'e \<Rightarrow> bool"
  retry_should_retry :: "('e \<Rightarrow> bool) option"
  retry_base_delay :: seconds
  retry_max_delay :: seconds
  retry_jitter :: bool

definition retry_config_error :: "'e retry_config \<Rightarrow> string option" where
  "retry_config_error cfg =
     (if retry_attempts cfg < 1 then Some ''attempts must be at least 1.''
      else if retry_base_delay cfg < 0 then Some ''base_delay must not be negative.''
      else if retry_max_delay cfg < retry_base_delay cfg then Some ''max_delay must be at least base_delay.''
      else None)"

abbreviation retry_config_ok :: "'e retry_config \<Rightarrow> bool" where
  "retry_config_ok cfg \<equiv> retry_config_error cfg = None"

definition is_retryable_type :: "('e \<Rightarrow> bool) \<Rightarrow> 'e retry_config \<Rightarrow> 'e \<Rightarrow> bool" where
  "is_retryable_type is_cancelled cfg e =
     (if is_cancelled e then False
      else if retry_give_up_on cfg e then False
      else retry_on cfg e)"

definition retry_delay_for :: "'e retry_config \<Rightarrow> (int \<Rightarrow> rat) \<Rightarrow> int \<Rightarrow> seconds" where
  "retry_delay_for cfg rng attempt =
     backoff_delay attempt (retry_base_delay cfg) (retry_max_delay cfg) (retry_jitter cfg) (rng attempt)"

definition delay_after :: "('e \<Rightarrow> bool) \<Rightarrow> 'e retry_config \<Rightarrow> (int \<Rightarrow> rat) \<Rightarrow> int \<Rightarrow> 'e \<Rightarrow> seconds option" where
  "delay_after is_cancelled cfg rng attempt e =
     (if \<not> is_retryable_type is_cancelled cfg e then None
      else if retry_attempts cfg \<le> attempt then None
      else if (case retry_should_retry cfg of None \<Rightarrow> False | Some p \<Rightarrow> \<not> p e) then None
      else Some (retry_delay_for cfg rng attempt))"

text \<open>\<open>async_wrapper\<close> and \<open>sync_wrapper\<close>, which differ only in how they wait.\<close>

definition retry_wrapper ::
    "('e \<Rightarrow> bool) \<Rightarrow> 'e retry_config \<Rightarrow> (int \<Rightarrow> rat) \<Rightarrow> (int \<Rightarrow> 'e + 'a) \<Rightarrow> ('e, 'a) loop_result \<times> seconds list" where
  "retry_wrapper is_cancelled cfg rng call =
     retry_from (delay_after is_cancelled cfg rng) call [1..retry_attempts cfg]"

subsection \<open>SQLSTATE inspection\<close>

text \<open>
  An exception object as \<open>sqlstate\<close> sees it: its two attributes where they are strings, its
  \<open>orig\<close> where that is an exception, and what \<open>isinstance\<close> says of it. Objects live in a store,
  because an \<open>orig\<close> chain may be cyclic.
\<close>

record exc_object =
  attr_sqlstate :: "string option"
  attr_pgcode :: "string option"
  attr_orig :: "nat option"
  is_cancelled_error :: bool
  is_sqlalchemy_error :: bool

type_synonym exc_store = "nat \<Rightarrow> exc_object"

definition DEADLOCK_DETECTED :: string where "DEADLOCK_DETECTED = ''40P01''"
definition SERIALIZATION_FAILURE :: string where "SERIALIZATION_FAILURE = ''40001''"
definition LOCK_NOT_AVAILABLE :: string where "LOCK_NOT_AVAILABLE = ''55P03''"

definition RETRYABLE_SQLSTATES :: "string set" where
  "RETRYABLE_SQLSTATES = {DEADLOCK_DETECTED, SERIALIZATION_FAILURE}"

definition MAX_ORIG_DEPTH :: nat where "MAX_ORIG_DEPTH = 4"

definition five_chars :: "string option \<Rightarrow> string option" where
  "five_chars v = (case v of Some s \<Rightarrow> if length s = 5 then Some s else None | None \<Rightarrow> None)"

fun sqlstate_walk :: "exc_store \<Rightarrow> nat \<Rightarrow> nat option \<Rightarrow> string option" where
  "sqlstate_walk store 0 candidate = None"
| "sqlstate_walk store (Suc n) candidate =
     (case candidate of
        None \<Rightarrow> None
      | Some x \<Rightarrow>
          (case five_chars (attr_sqlstate (store x)) of
             Some s \<Rightarrow> Some s
           | None \<Rightarrow>
               (case five_chars (attr_pgcode (store x)) of
                  Some s \<Rightarrow> Some s
                | None \<Rightarrow>
                    sqlstate_walk store n
                      (case attr_orig (store x) of
                         Some y \<Rightarrow> if y \<noteq> x then Some y else None
                       | None \<Rightarrow> None))))"

definition sqlstate :: "exc_store \<Rightarrow> nat \<Rightarrow> string option" where
  "sqlstate store x = sqlstate_walk store MAX_ORIG_DEPTH (Some x)"

definition is_deadlock :: "exc_store \<Rightarrow> nat \<Rightarrow> bool" where
  "is_deadlock store x \<longleftrightarrow> sqlstate store x = Some DEADLOCK_DETECTED"

definition is_serialization_failure :: "exc_store \<Rightarrow> nat \<Rightarrow> bool" where
  "is_serialization_failure store x \<longleftrightarrow> sqlstate store x = Some SERIALIZATION_FAILURE"

definition is_lock_unavailable :: "exc_store \<Rightarrow> nat \<Rightarrow> bool" where
  "is_lock_unavailable store x \<longleftrightarrow> sqlstate store x = Some LOCK_NOT_AVAILABLE"

definition is_retryable_conflict :: "exc_store \<Rightarrow> string set \<Rightarrow> nat \<Rightarrow> bool" where
  "is_retryable_conflict store codes x \<longleftrightarrow>
     (case sqlstate store x of None \<Rightarrow> False | Some code \<Rightarrow> code \<in> codes)"

subsection \<open>The transaction retry\<close>

record deadlock_policy =
  dl_attempts :: int
  dl_codes :: "string set"
  dl_base_delay :: seconds
  dl_max_delay :: seconds
  dl_jitter :: bool

definition deadlock_policy_error :: "deadlock_policy \<Rightarrow> string option" where
  "deadlock_policy_error p =
     (if dl_attempts p < 1 then Some ''attempts must be at least 1.''
      else if dl_base_delay p < 0 then Some ''base_delay must not be negative.''
      else if dl_max_delay p < dl_base_delay p then Some ''max_delay must be at least base_delay.''
      else if dl_codes p = {} then Some ''codes must name at least one SQLSTATE''
      else None)"

abbreviation deadlock_policy_ok :: "deadlock_policy \<Rightarrow> bool" where
  "deadlock_policy_ok p \<equiv> deadlock_policy_error p = None"

definition default_deadlock_policy :: deadlock_policy where
  "default_deadlock_policy =
     \<lparr>dl_attempts = 3, dl_codes = RETRYABLE_SQLSTATES, dl_base_delay = 1 / 20, dl_max_delay = 1, dl_jitter = True\<rparr>"

text \<open>What the loop does to the session and the clock, in order.\<close>

datatype tx_action = Work int | Rollback | Sleep seconds

text \<open>
  \<open>_discard\<close>: the rollback is attempted; \<open>None\<close> is success, \<open>Some x\<close> the exception it raised.
  A \<open>SQLAlchemyError\<close> is swallowed, any other exception leaves the loop.
\<close>

definition discard_session :: "exc_store \<Rightarrow> nat option \<Rightarrow> nat option" where
  "discard_session store outcome =
     (case outcome of
        None \<Rightarrow> None
      | Some x \<Rightarrow> if is_sqlalchemy_error (store x) then None else Some x)"

fun deadlock_run ::
    "exc_store \<Rightarrow> deadlock_policy \<Rightarrow> (int \<Rightarrow> rat) \<Rightarrow> (int \<Rightarrow> nat option) \<Rightarrow> (int \<Rightarrow> nat + 'a) \<Rightarrow> int list \<Rightarrow>
       (nat, 'a) loop_result \<times> tx_action list" where
  "deadlock_run store p rng rollback work [] = (Unreachable, [])"
| "deadlock_run store p rng rollback work (k # ks) =
     (case work k of
        Inr v \<Rightarrow> (Returned v, [Work k])
      | Inl x \<Rightarrow>
          if is_cancelled_error (store x) then (Raised x, [Work k])
          else if \<not> is_sqlalchemy_error (store x) then (Raised x, [Work k])
          else if \<not> is_retryable_conflict store (dl_codes p) x then (Raised x, [Work k])
          else if dl_attempts p \<le> k then (Raised x, [Work k])
          else
            (let delay = backoff_delay k (dl_base_delay p) (dl_max_delay p) (dl_jitter p) (rng k) in
             case discard_session store (rollback k) of
               Some y \<Rightarrow> (Raised y, [Work k, Rollback])
             | None \<Rightarrow>
                 map_prod id (\<lambda>tr. Work k # Rollback # Sleep delay # tr)
                   (deadlock_run store p rng rollback work ks)))"

definition run_with_policy ::
    "exc_store \<Rightarrow> deadlock_policy \<Rightarrow> (int \<Rightarrow> rat) \<Rightarrow> (int \<Rightarrow> nat option) \<Rightarrow> (int \<Rightarrow> nat + 'a) \<Rightarrow>
       (nat, 'a) loop_result \<times> tx_action list" where
  "run_with_policy store p rng rollback work = deadlock_run store p rng rollback work [1..dl_attempts p]"

definition deadlock_decide :: "exc_store \<Rightarrow> deadlock_policy \<Rightarrow> (int \<Rightarrow> rat) \<Rightarrow> int \<Rightarrow> nat \<Rightarrow> seconds option" where
  "deadlock_decide store p rng k x =
     (if is_cancelled_error (store x) \<or> \<not> is_sqlalchemy_error (store x) \<or>
         \<not> is_retryable_conflict store (dl_codes p) x \<or> dl_attempts p \<le> k
      then None
      else Some (backoff_delay k (dl_base_delay p) (dl_max_delay p) (dl_jitter p) (rng k)))"

fun sleeps :: "tx_action list \<Rightarrow> seconds list" where
  "sleeps [] = []"
| "sleeps (Sleep d # tr) = d # sleeps tr"
| "sleeps (_ # tr) = sleeps tr"

text \<open>Every run of the work but the first comes directly after a rollback and a sleep.\<close>

fun rolled_back_between :: "tx_action list \<Rightarrow> bool" where
  "rolled_back_between [] = True"
| "rolled_back_between [Work _] = True"
| "rolled_back_between [Work _, Rollback] = True"
| "rolled_back_between (Work _ # Rollback # Sleep _ # tr) = rolled_back_between tr"
| "rolled_back_between _ = False"

section \<open>What a retry decision promises\<close>

text \<open>
  \<open>valid\<close> is what the policy's constructor checked. A decision never allows another attempt after
  the last, and a wait lies between 0 and the policy's ceiling.
\<close>

locale retry_policy =
  fixes valid :: bool
    and attempts :: int
    and decide :: "int \<Rightarrow> 'e \<Rightarrow> seconds option"
    and ceiling :: seconds
  assumes attempts_pos: "valid \<Longrightarrow> 1 \<le> attempts"
    and exhausted: "attempts \<le> k \<Longrightarrow> decide k e = None"
    and bounded: "valid \<Longrightarrow> decide k e = Some d \<Longrightarrow> 0 \<le> d \<and> d \<le> ceiling"
begin

text \<open>The outcome of the last call is the outcome of the loop, and every earlier one was retried.\<close>

lemma retry_from_result:
  assumes "i \<le> attempts"
  shows "\<exists>n. i \<le> n \<and> n \<le> attempts \<and>
     (\<forall>k. i \<le> k \<and> k < n \<longrightarrow> (\<exists>e. call k = Inl e \<and> decide k e \<noteq> None)) \<and>
     (\<forall>e. call n = Inl e \<longrightarrow> decide n e = None) \<and>
     int (length (snd (retry_from decide call [i..attempts]))) = n - i \<and>
     fst (retry_from decide call [i..attempts]) = (case call n of Inr v \<Rightarrow> Returned v | Inl e \<Rightarrow> Raised e)"
  using assms
proof (induction "nat (attempts - i)" arbitrary: i)
  case 0
  then have i: "i = attempts" by simp
  then show ?case
    by (intro exI [of _ i]) (auto simp: upto_rec1 exhausted split: sum.splits option.splits)
next
  case (Suc m)
  show ?case
  proof (cases "\<exists>e d. call i = Inl e \<and> decide i e = Some d")
    case True
    then obtain e d where e: "call i = Inl e" "decide i e = Some d" by blast
    have "m = nat (attempts - (i + 1))" "i + 1 \<le> attempts"
      using Suc.hyps(2) by simp_all
    from Suc.hyps(1) [OF this] obtain n where n: "i + 1 \<le> n" "n \<le> attempts"
        "\<forall>k. i + 1 \<le> k \<and> k < n \<longrightarrow> (\<exists>e. call k = Inl e \<and> decide k e \<noteq> None)"
        "\<forall>e. call n = Inl e \<longrightarrow> decide n e = None"
        "int (length (snd (retry_from decide call [i + 1..attempts]))) = n - (i + 1)"
        "fst (retry_from decide call [i + 1..attempts]) = (case call n of Inr v \<Rightarrow> Returned v | Inl e \<Rightarrow> Raised e)"
      by blast
    have "\<exists>e. call k = Inl e \<and> decide k e \<noteq> None" if "i \<le> k" "k < n" for k
      using that n(3) e by (cases "k = i") auto
    moreover have "retry_from decide call [i..attempts] = map_prod id (Cons d) (retry_from decide call [i + 1..attempts])"
      using e Suc.prems by (simp add: upto_rec1 [of i])
    ultimately show ?thesis
      using n by (intro exI [of _ n]) (simp add: fst_map_prod)
  next
    case False
    with Suc.prems show ?thesis
      by (intro exI [of _ i]) (auto simp: upto_rec1 split: sum.splits option.splits)
  qed
qed

lemma loop_outcome:
  assumes valid
  shows "\<exists>n. 1 \<le> n \<and> n \<le> attempts \<and>
     (\<forall>k. 1 \<le> k \<and> k < n \<longrightarrow> (\<exists>e. call k = Inl e \<and> decide k e \<noteq> None)) \<and>
     (\<forall>e. call n = Inl e \<longrightarrow> decide n e = None) \<and>
     int (length (snd (retry_from decide call [1..attempts]))) = n - 1 \<and>
     fst (retry_from decide call [1..attempts]) = (case call n of Inr v \<Rightarrow> Returned v | Inl e \<Rightarrow> Raised e)"
  using retry_from_result [OF attempts_pos [OF assms], of call] .

lemma sleeps_bounded:
  assumes valid
  shows "\<forall>d\<in>set (snd (retry_from decide call ks)). 0 \<le> d \<and> d \<le> ceiling"
  using assms by (induction ks) (auto dest: bounded split: sum.split option.split)

end

section \<open>Lemmas\<close>

subsection \<open>Backoff\<close>

lemma uniform_bounds: "0 \<le> u \<Longrightarrow> u \<le> 1 \<Longrightarrow> 0 \<le> c \<Longrightarrow> 0 \<le> uniform u 0 c \<and> uniform u 0 c \<le> c"
  by (simp add: uniform_def mult_left_le)

lemma backoff_ceiling_bounds:
  "0 \<le> base_delay \<Longrightarrow> base_delay \<le> max_delay \<Longrightarrow>
     0 \<le> backoff_ceiling attempt base_delay max_delay \<and> backoff_ceiling attempt base_delay max_delay \<le> max_delay"
  by (simp add: backoff_ceiling_def)

lemma backoff_delay_bounds:
  assumes "0 \<le> base_delay" "base_delay \<le> max_delay" "0 \<le> u" "u \<le> 1"
  shows "0 \<le> backoff_delay attempt base_delay max_delay jitter u \<and>
         backoff_delay attempt base_delay max_delay jitter u \<le> backoff_ceiling attempt base_delay max_delay"
  using backoff_ceiling_bounds [OF assms(1,2), of attempt]
    uniform_bounds [OF assms(3,4), of "backoff_ceiling attempt base_delay max_delay"]
  by (simp add: backoff_delay_def Let_def)

lemma retry_config_okD:
  assumes "retry_config_ok cfg"
  shows "1 \<le> retry_attempts cfg" "0 \<le> retry_base_delay cfg" "retry_base_delay cfg \<le> retry_max_delay cfg"
  using assms by (auto simp: retry_config_error_def split: if_splits)

lemma deadlock_policy_okD:
  assumes "deadlock_policy_ok p"
  shows "1 \<le> dl_attempts p" "0 \<le> dl_base_delay p" "dl_base_delay p \<le> dl_max_delay p"
  using assms by (auto simp: deadlock_policy_error_def split: if_splits)

subsection \<open>Both policies keep the contract\<close>

interpretation deco: retry_policy
  "retry_config_ok cfg \<and> (\<forall>k. 0 \<le> rng k \<and> rng k \<le> 1)" "retry_attempts cfg"
  "delay_after is_cancelled cfg rng" "retry_max_delay cfg"
  for cfg :: "'e retry_config" and rng is_cancelled
proof
  show "1 \<le> retry_attempts cfg" if "retry_config_ok cfg \<and> (\<forall>k. 0 \<le> rng k \<and> rng k \<le> 1)"
    using that retry_config_okD by blast
  show "delay_after is_cancelled cfg rng k e = None" if "retry_attempts cfg \<le> k" for k e
    using that by (simp add: delay_after_def)
  show "0 \<le> d \<and> d \<le> retry_max_delay cfg"
    if "retry_config_ok cfg \<and> (\<forall>k. 0 \<le> rng k \<and> rng k \<le> 1)" "delay_after is_cancelled cfg rng k e = Some d" for k e d
  proof -
    have "0 \<le> retry_base_delay cfg" "retry_base_delay cfg \<le> retry_max_delay cfg"
      using that(1) retry_config_okD by blast+
    then show ?thesis
      using that backoff_delay_bounds [of "retry_base_delay cfg" "retry_max_delay cfg" "rng k" k "retry_jitter cfg"]
        backoff_ceiling_bounds [of "retry_base_delay cfg" "retry_max_delay cfg" k]
      by (auto simp: delay_after_def retry_delay_for_def split: if_splits)
  qed
qed

interpretation dead: retry_policy
  "deadlock_policy_ok p \<and> (\<forall>k. 0 \<le> rng k \<and> rng k \<le> 1)" "dl_attempts p"
  "deadlock_decide store p rng" "dl_max_delay p"
  for p rng store
proof
  show "1 \<le> dl_attempts p" if "deadlock_policy_ok p \<and> (\<forall>k. 0 \<le> rng k \<and> rng k \<le> 1)"
    using that deadlock_policy_okD by blast
  show "deadlock_decide store p rng k e = None" if "dl_attempts p \<le> k" for k e
    using that by (simp add: deadlock_decide_def)
  show "0 \<le> d \<and> d \<le> dl_max_delay p"
    if "deadlock_policy_ok p \<and> (\<forall>k. 0 \<le> rng k \<and> rng k \<le> 1)" "deadlock_decide store p rng k e = Some d" for k e d
  proof -
    have "0 \<le> dl_base_delay p" "dl_base_delay p \<le> dl_max_delay p"
      using that(1) deadlock_policy_okD by blast+
    then show ?thesis
      using that backoff_delay_bounds [of "dl_base_delay p" "dl_max_delay p" "rng k" k "dl_jitter p"]
        backoff_ceiling_bounds [of "dl_base_delay p" "dl_max_delay p" k]
      by (auto simp: deadlock_decide_def split: if_splits)
  qed
qed

subsection \<open>The transaction loop refines the generic one\<close>

lemma deadlock_run_refines:
  assumes "\<forall>k. discard_session store (rollback k) = None"
  shows "map_prod id sleeps (deadlock_run store p rng rollback work ks) = retry_from (deadlock_decide store p rng) work ks"
  using assms
  by (induction ks)
    (auto simp: deadlock_decide_def Let_def prod.map_comp o_def map_prod_def split: sum.split prod.split)

lemma deadlock_run_rolls_back: "rolled_back_between (snd (deadlock_run store p rng rollback work ks))"
  by (induction ks) (auto simp: Let_def split: sum.split option.split)

subsection \<open>Concrete policies\<close>

definition sample_retry :: "string retry_config" where
  "sample_retry =
     \<lparr>retry_attempts = 3, retry_on = (\<lambda>e. e = ''timeout''), retry_give_up_on = (\<lambda>_. False),
      retry_should_retry = None, retry_base_delay = 1, retry_max_delay = 5, retry_jitter = False\<rparr>"

definition sample_store :: exc_store where
  "sample_store x =
     \<lparr>attr_sqlstate = (if x = 1 then Some ''40P01'' else None), attr_pgcode = None,
      attr_orig = (if x = 0 then Some 1 else None), is_cancelled_error = False, is_sqlalchemy_error = True\<rparr>"

section \<open>Properties\<close>

text \<open>
  C27: a function decorated with \<open>@retry\<close> always ends with the outcome of its last call, unchanged:
  it is called at least once and at most \<open>attempts\<close> times, every call before the last failed with an
  exception that is not a cancellation, not in \<open>give_up_on\<close> and in \<open>on\<close>, the last call succeeded or
  there was a reason to stop, there is one sleep between two calls, and no sleep exceeds
  \<open>max_delay\<close>. The \<open>AssertionError\<close> after the loop is unreachable.
\<close>

theorem retry_ends_with_last_outcome:
  assumes "retry_config_ok cfg" and "\<forall>k. 0 \<le> rng k \<and> rng k \<le> 1"
  shows "\<exists>n. 1 \<le> n \<and> n \<le> retry_attempts cfg \<and>
     fst (retry_wrapper is_cancelled cfg rng call) =
       (case call n of Inr v \<Rightarrow> Returned v | Inl e \<Rightarrow> Raised e) \<and>
     (\<forall>k. 1 \<le> k \<and> k < n \<longrightarrow>
        (\<exists>e. call k = Inl e \<and> \<not> is_cancelled e \<and> \<not> retry_give_up_on cfg e \<and> retry_on cfg e)) \<and>
     (\<forall>e. call n = Inl e \<longrightarrow>
        n = retry_attempts cfg \<or> is_cancelled e \<or> retry_give_up_on cfg e \<or> \<not> retry_on cfg e \<or>
        (\<exists>p. retry_should_retry cfg = Some p \<and> \<not> p e)) \<and>
     int (length (snd (retry_wrapper is_cancelled cfg rng call))) = n - 1 \<and>
     (\<forall>d\<in>set (snd (retry_wrapper is_cancelled cfg rng call)). 0 \<le> d \<and> d \<le> retry_max_delay cfg)"
proof -
  have retried: "\<not> is_cancelled e \<and> \<not> retry_give_up_on cfg e \<and> retry_on cfg e"
    if "delay_after is_cancelled cfg rng k e \<noteq> None" for k e
    using that by (auto simp: delay_after_def is_retryable_type_def split: if_splits)
  have stopped: "retry_attempts cfg \<le> k \<or> is_cancelled e \<or> retry_give_up_on cfg e \<or> \<not> retry_on cfg e \<or>
      (\<exists>p. retry_should_retry cfg = Some p \<and> \<not> p e)"
    if "delay_after is_cancelled cfg rng k e = None" for k e
    using that by (auto simp: delay_after_def is_retryable_type_def split: if_splits option.splits)
  from deco.loop_outcome [of cfg rng call is_cancelled] assms
  obtain n where "1 \<le> n" "n \<le> retry_attempts cfg"
      "\<forall>k. 1 \<le> k \<and> k < n \<longrightarrow> (\<exists>e. call k = Inl e \<and> delay_after is_cancelled cfg rng k e \<noteq> None)"
      "\<forall>e. call n = Inl e \<longrightarrow> delay_after is_cancelled cfg rng n e = None"
      "int (length (snd (retry_wrapper is_cancelled cfg rng call))) = n - 1"
      "fst (retry_wrapper is_cancelled cfg rng call) = (case call n of Inr v \<Rightarrow> Returned v | Inl e \<Rightarrow> Raised e)"
    unfolding retry_wrapper_def by blast
  moreover have "\<forall>d\<in>set (snd (retry_wrapper is_cancelled cfg rng call)). 0 \<le> d \<and> d \<le> retry_max_delay cfg"
    using deco.sleeps_bounded [of cfg rng is_cancelled call] assms by (simp add: retry_wrapper_def)
  ultimately show ?thesis
    using retried stopped by (intro exI [of _ n]) (meson order_antisym)
qed

theorem retry_ends_with_last_outcome_witness:
  "retry_config_ok sample_retry \<and>
   (\<exists>n::int. 1 \<le> n \<and> n \<le> 3 \<and>
      fst (retry_wrapper (\<lambda>_. False) sample_retry (\<lambda>_. 0) (\<lambda>k. if k < 3 then Inl ''timeout'' else Inr (7 :: int))) =
        (case if n < 3 then Inl ''timeout'' else Inr (7 :: int) of Inr v \<Rightarrow> Returned v | Inl e \<Rightarrow> Raised e))"
proof -
  have ok: "retry_config_ok sample_retry"
    by (simp add: retry_config_error_def sample_retry_def)
  have n: "retry_attempts sample_retry = 3"
    by (simp add: sample_retry_def)
  have "\<forall>k. 0 \<le> (\<lambda>_::int. 0::rat) k \<and> (\<lambda>_::int. 0::rat) k \<le> 1"
    by simp
  from retry_ends_with_last_outcome [OF ok this, of "\<lambda>_. False" "\<lambda>k. if k < 3 then Inl ''timeout'' else Inr (7 :: int)"] ok
  show ?thesis
    unfolding n by blast
qed



end
