(* ===== verification/Py_Text.thy ===== *)
theory Py_Text
  imports Py_Prelude
begin

text \<open>
  UTF-8 and decimal numerals.

  Text that is read from bytes is kept as its UTF-8 bytes: \<open>bytes.decode("utf-8")\<close> checks them,
  \<open>str.encode("utf-8")\<close> is the identity, and the operations that count characters
  (\<open>len(text)\<close>, \<open>text[:n]\<close>) go through the characters that \<open>utf8_split\<close> finds.
\<close>

section \<open>Definitions\<close>

definition continuation_byte :: "char \<Rightarrow> bool" where
  "continuation_byte c = (128 \<le> (of_char c :: nat) \<and> (of_char c :: nat) \<le> 191)"

text \<open>
  The first character of well-formed UTF-8, and the rest. The lead byte gives the width; the second
  byte must exclude overlong forms, surrogates and code points beyond U+10FFFF.
\<close>

definition char_width :: "char \<Rightarrow> nat" where
  "char_width c =
     (let n = (of_char c :: nat) in
      if n < 128 then 1
      else if 194 \<le> n \<and> n \<le> 223 then 2
      else if 224 \<le> n \<and> n \<le> 239 then 3
      else if 240 \<le> n \<and> n \<le> 244 then 4
      else 0)"

definition second_byte_ok :: "char \<Rightarrow> char \<Rightarrow> bool" where
  "second_byte_ok c a =
     (let n = (of_char c :: nat); m = (of_char a :: nat) in
      (n = 224 \<longrightarrow> 160 \<le> m) \<and> (n = 237 \<longrightarrow> m \<le> 159) \<and> (n = 240 \<longrightarrow> 144 \<le> m) \<and> (n = 244 \<longrightarrow> m \<le> 143))"

definition well_formed_char :: "string \<Rightarrow> bool" where
  "well_formed_char ch \<longleftrightarrow> ch \<noteq> [] \<and> length ch = char_width (hd ch) \<and> list_all continuation_byte (tl ch) \<and>
     (2 \<le> length ch \<longrightarrow> second_byte_ok (hd ch) (ch ! 1))"

definition first_char :: "string \<Rightarrow> (string \<times> string) option" where
  "first_char s =
     (case s of
        [] \<Rightarrow> None
      | c # _ \<Rightarrow>
          let ch = take (char_width c) s in
          if well_formed_char ch then Some (ch, drop (char_width c) s) else None)"

lemma first_char_spec:
  assumes "first_char s = Some (ch, r)"
  shows "s = ch @ r" "ch \<noteq> []" "first_char (ch @ x) = Some (ch, x)"
proof -
  from assms obtain c cs where s: "s = c # cs" "ch = take (char_width c) s" "well_formed_char ch" "r = drop (char_width c) s"
    by (auto simp: first_char_def Let_def split: list.splits if_splits)
  from s(3) show ne: "ch \<noteq> []" by (simp add: well_formed_char_def)
  show "s = ch @ r" using s by simp
  obtain ch' where ch: "ch = c # ch'" using s ne by (cases "char_width c") auto
  have w: "char_width c = length ch" using s(3) ch by (simp add: well_formed_char_def)
  have "first_char (ch @ x) = (let h = take (length ch) (ch @ x) in
      if well_formed_char h then Some (h, drop (length ch) (ch @ x)) else None)"
    unfolding first_char_def w [symmetric] by (simp add: ch)
  then show "first_char (ch @ x) = Some (ch, x)" using s(3) by simp
qed

lemma first_char_shorter: "first_char s = Some (ch, r) \<Longrightarrow> length r < length s"
  using first_char_spec(1,2) [of s ch r] by (cases ch) auto

function utf8_split :: "string \<Rightarrow> string list option" where
  "utf8_split s =
     (if s = [] then Some []
      else case first_char s of
        None \<Rightarrow> None
      | Some (ch, r) \<Rightarrow> map_option (\<lambda>cs. ch # cs) (utf8_split r))"
  by pat_completeness auto
termination
  by (relation "measure length") (auto dest: first_char_shorter)

declare utf8_split.simps [simp del]

definition utf8_valid :: "string \<Rightarrow> bool" where
  "utf8_valid s \<longleftrightarrow> utf8_split s \<noteq> None"

definition utf8_chars :: "string \<Rightarrow> string list" where
  "utf8_chars s = (case utf8_split s of None \<Rightarrow> [] | Some cs \<Rightarrow> cs)"

definition ascii_text :: "string \<Rightarrow> bool" where
  "ascii_text s \<longleftrightarrow> (\<forall>c\<in>set s. (of_char c :: nat) < 128)"

section \<open>Lemmas\<close>

lemma utf8_split_Nil [simp]: "utf8_split [] = Some []"
  by (simp add: utf8_split.simps)

lemma utf8_split_step: "first_char s = Some (ch, r) \<Longrightarrow> utf8_split s = map_option (\<lambda>cs. ch # cs) (utf8_split r)"
  by (subst utf8_split.simps) (auto simp: first_char_def)

lemma utf8_split_Some:
  assumes "utf8_split s = Some cs" "s \<noteq> []"
  obtains ch r cs' where "first_char s = Some (ch, r)" "utf8_split r = Some cs'" "cs = ch # cs'"
  using assms by (subst (asm) utf8_split.simps) (auto split: option.splits)

lemma utf8_split_spec:
  assumes "utf8_split s = Some cs"
  shows "concat cs = s" "utf8_split (s @ t) = map_option (\<lambda>ds. cs @ ds) (utf8_split t)"
    "utf8_split (concat (take n cs)) = Some (take n cs)"
proof -
  have "concat cs = s \<and> utf8_split (s @ t) = map_option (\<lambda>ds. cs @ ds) (utf8_split t) \<and>
      (\<forall>n. utf8_split (concat (take n cs)) = Some (take n cs))"
    using assms
  proof (induction s arbitrary: cs rule: utf8_split.induct)
    case (1 s)
    show ?case
    proof (cases "s = []")
      case True
      with 1 show ?thesis by (simp add: option.map_ident)
    next
      case False
      then obtain ch r cs' where c: "first_char s = Some (ch, r)" "utf8_split r = Some cs'" "cs = ch # cs'"
        using "1.prems" utf8_split_Some by blast
      note f = first_char_spec [OF c(1)] and ih = "1.IH" [OF False c(1) refl c(2)]
      have "utf8_split (s @ t) = map_option (\<lambda>ds. cs @ ds) (utf8_split t)"
        using utf8_split_step [OF f(3) [of "r @ t"]] ih f(1) c(3) by (simp add: option.map_comp comp_def)
      moreover have "utf8_split (concat (take n cs)) = Some (take n cs)" for n
        using utf8_split_step [OF f(3)] ih c(3) by (cases n) simp_all
      ultimately show ?thesis using f(1) ih c(3) by simp
    qed
  qed
  then show "concat cs = s" "utf8_split (s @ t) = map_option (\<lambda>ds. cs @ ds) (utf8_split t)"
    "utf8_split (concat (take n cs)) = Some (take n cs)" by blast+
qed

lemma utf8_valid_append [intro]: "utf8_valid s \<Longrightarrow> utf8_valid t \<Longrightarrow> utf8_valid (s @ t)"
  by (auto simp: utf8_valid_def utf8_split_spec(2))

lemma utf8_chars_append: "utf8_valid s \<Longrightarrow> utf8_valid t \<Longrightarrow> utf8_chars (s @ t) = utf8_chars s @ utf8_chars t"
  by (auto simp: utf8_valid_def utf8_chars_def utf8_split_spec(2))

lemma utf8_valid_take: "utf8_valid s \<Longrightarrow> utf8_valid (concat (take n (utf8_chars s)))"
  by (auto simp: utf8_valid_def utf8_chars_def utf8_split_spec(3))

lemma utf8_chars_take: "utf8_valid s \<Longrightarrow> utf8_chars (concat (take n (utf8_chars s))) = take n (utf8_chars s)"
  by (auto simp: utf8_valid_def utf8_chars_def utf8_split_spec(3))

lemma ascii_split: "ascii_text s \<Longrightarrow> utf8_split s = Some (map (\<lambda>c. [c]) s)"
proof (induction s)
  case (Cons c s)
  then have w: "char_width c = 1" by (simp add: char_width_def ascii_text_def)
  then have "first_char (c # s) = Some ([c], s)" by (simp add: first_char_def well_formed_char_def)
  from utf8_split_step [OF this] Cons show ?case by (simp add: ascii_text_def)
qed simp

lemma ascii_valid [intro]: "ascii_text s \<Longrightarrow> utf8_valid s"
  by (simp add: utf8_valid_def ascii_split)

subsection \<open>Numerals\<close>

lemma py_digit_char: "m < 10 \<Longrightarrow> py_digit (char_of (48 + m :: nat))"
  by (simp add: py_digit_def)

lemma digit_value: "m < 10 \<Longrightarrow> (of_char (char_of (48 + m :: nat)) :: int) = 48 + int m"
  using of_nat_of_char [of "char_of (48 + m :: nat)", where 'a = int] of_char_char_of_small [of "48 + m"] by simp

lemma decimal_all_digits: "c \<in> set (decimal n) \<Longrightarrow> py_digit c"
proof (induction n rule: decimal.induct)
  case (1 n)
  from "1.prems" have "c \<in> set (if n < 10 then [char_of (48 + n)] else decimal (n div 10) @ [char_of (48 + n mod 10)])"
    by (simp only: decimal.simps [of n])
  then show ?case
    using "1.IH" py_digit_char [of n] py_digit_char [of "n mod 10"] by (auto split: if_splits)
qed

lemma decimal_not_Nil [simp]: "decimal n \<noteq> []"
  by (subst decimal.simps) simp

lemma decimal_ascii [simp, intro]: "ascii_text (decimal n)"
  using decimal_all_digits by (fastforce simp: ascii_text_def py_digit_def)

lemma int_digits_snoc:
  assumes "\<forall>c\<in>set s. py_digit c" "s \<noteq> []" "py_digit d"
  shows "int_digits acc need (s @ [d]) = map_option (\<lambda>n. 10 * n + (of_char d - 48)) (int_digits acc need s)"
  using assms
proof (induction s arbitrary: acc need)
  case (Cons c s)
  then show ?case by (cases "s = []") simp_all
qed simp

lemma int_digits_decimal: "int_digits 0 True (decimal n) = Some (int n)"
proof (induction n rule: decimal.induct)
  case (1 n)
  show ?case
  proof (cases "n < 10")
    case True
    then show ?thesis by (subst decimal.simps) (simp add: py_digit_char digit_value)
  next
    case False
    then have "decimal n = decimal (n div 10) @ [char_of (48 + n mod 10)]" by (subst decimal.simps) simp
    moreover have "10 * int (n div 10) + int (n mod 10) = int n"
      by (metis mult_div_mod_eq of_nat_add of_nat_mult of_nat_numeral)
    ultimately show ?thesis
      using False 1 int_digits_snoc [of "decimal (n div 10)" "char_of (48 + n mod 10)" 0 True] decimal_all_digits [of _ "n div 10"]
        py_digit_char [of "n mod 10"] digit_value [of "n mod 10"]
      by auto
  qed
qed

lemma length_decimal: "n < 10 ^ k \<Longrightarrow> length (decimal n) \<le> max 1 k"
proof (induction n arbitrary: k rule: decimal.induct)
  case (1 n)
  show ?case
  proof (cases "n < 10")
    case True
    then show ?thesis by (subst decimal.simps) simp
  next
    case False
    with "1.prems" have k: "k \<noteq> 0" "k \<noteq> 1" by (auto intro: ccontr)
    then obtain j where j: "k = Suc j" "j \<noteq> 0" by (cases k) auto
    have "n div 10 < 10 ^ j" using "1.prems" j by (simp add: div_less_iff_less_mult mult.commute)
    with "1.IH" [OF False this] j False show ?thesis by (subst decimal.simps) auto
  qed
qed

lemma strip_digits: "\<forall>c\<in>set s. py_digit c \<Longrightarrow> py_strip s = s"
proof -
  assume d: "\<forall>c\<in>set s. py_digit c"
  have no_space: "\<not> py_space c" if "py_digit c" for c
    using that by (auto simp: py_digit_def py_space_def Let_def)
  have keep: "dropWhile py_space t = t" if "\<forall>c\<in>set t. py_digit c" for t
    using that no_space by (cases t) auto
  from keep [OF d] keep [of "rev s"] d show ?thesis by (simp add: py_strip_def)
qed

lemma py_digit_cases: "py_digit c \<Longrightarrow> c \<in> set ''0123456789''"
proof -
  assume "py_digit c"
  then have "(of_char c :: nat) \<in> {48..57}" by (simp add: py_digit_def)
  moreover have "\<forall>n\<in>{48..57 :: nat}. char_of n \<in> set ''0123456789''" by code_simp
  ultimately have "char_of (of_char c :: nat) \<in> set ''0123456789''" by blast
  then show ?thesis by simp
qed

lemma py_int_decimal:
  assumes "n < 10 ^ 4300"
  shows "py_int (decimal n) = Some (int n)"
proof -
  have len: "\<not> 4300 < length (filter py_digit (decimal n))"
    using length_decimal [OF assms] length_filter_le [of py_digit "decimal n"] by linarith
  obtain c cs where c: "decimal n = c # cs" "c \<in> set ''0123456789''"
    using decimal_all_digits [of _ n, THEN py_digit_cases] by (cases "decimal n") auto
  have strip: "py_strip (decimal n) = decimal n" using strip_digits decimal_all_digits by blast
  have "py_int (c # cs) = int_digits 0 True (c # cs)"
    unfolding py_int_def Let_def strip [unfolded c(1)] if_not_P [OF len [unfolded c(1)]]
    using c(2) by (auto simp del: int_digits.simps)
  then have "py_int (decimal n) = int_digits 0 True (decimal n)" by (simp only: c(1))
  then show ?thesis by (simp only: int_digits_decimal)
qed

end
