(* ===== verification/Resilient_Transport.thy ===== *)
theory Resilient_Transport
  imports Circuit_Breaker Bulkhead Retry_Loops Py_Text
begin

text \<open>
  Outbound HTTP: the predicates of \<open>src/resilience/base.py\<close> and the two transports of
  \<open>src/resilience/transport.py\<close>, on top of the breaker, the compartment and the backoff.

  The network, the clocks, the jitter source, the enclosing deadline and every other request of
  the process are the environment of an exchange: an \<open>attempt_env\<close> per attempt says what they do.
  Other requests share the breaker; what they do to it while this one is suspended is an arbitrary
  function of the breaker. \<open>httpx\<close>'s exceptions are a datatype with the classes the source tells
  apart and one constructor for all others; \<open>parsedate_to_datetime\<close> is a parameter.
\<close>

section \<open>Definitions\<close>

subsection \<open>Requests, responses, errors\<close>

datatype transport_error =
    ConnectError
  | ConnectTimeout
  | PoolTimeout
  | BulkheadFullError bulkhead_full_error
  | BulkheadTimeoutError string seconds
  | CircuitOpen circuit_error
  | OtherTransportError string

text \<open>\<open>req_has_header\<close> is membership in \<open>httpx.Headers\<close>; \<open>req_sync_stream\<close> is
  \<open>isinstance(request.stream, httpx.SyncByteStream)\<close>.\<close>

record http_request =
  req_method :: string
  req_scheme :: string
  req_netloc :: string
  req_has_header :: "string \<Rightarrow> bool"
  req_sync_stream :: bool

record http_response =
  status_code :: int
  retry_after_header :: "string option"

definition IDEMPOTENT_METHODS :: "string list" where
  "IDEMPOTENT_METHODS = [''GET'', ''HEAD'', ''OPTIONS'', ''PUT'', ''DELETE'', ''TRACE'']"

definition DEFAULT_IDEMPOTENCY_KEY_HEADERS :: "string list" where
  "DEFAULT_IDEMPOTENCY_KEY_HEADERS = [''idempotency-key'', ''paypal-request-id'']"

definition PERMANENT_SERVER_STATUSES :: "int list" where
  "PERMANENT_SERVER_STATUSES = [501, 505]"

definition TOO_MANY_REQUESTS :: int where
  "TOO_MANY_REQUESTS = 429"

definition origin_of :: "http_request \<Rightarrow> string" where
  "origin_of r = req_scheme r @ ''://'' @ req_netloc r"

definition is_failure_status :: "int \<Rightarrow> bool" where
  "is_failure_status code =
     (if code = TOO_MANY_REQUESTS then True
      else 500 \<le> code \<and> code \<notin> set PERMANENT_SERVER_STATUSES)"

definition is_pool_exhaustion :: "transport_error \<Rightarrow> bool" where
  "is_pool_exhaustion e \<longleftrightarrow> e = PoolTimeout"

fun is_local_shortage :: "transport_error \<Rightarrow> bool" where
  "is_local_shortage PoolTimeout = True"
| "is_local_shortage (BulkheadFullError _) = True"
| "is_local_shortage _ = False"

definition request_was_sent :: "transport_error \<Rightarrow> bool" where
  "request_was_sent e \<longleftrightarrow> \<not> (e = ConnectError \<or> e = ConnectTimeout)"

definition may_repeat :: "http_request \<Rightarrow> string list \<Rightarrow> bool" where
  "may_repeat r key_headers =
     (if map ascii_upper (req_method r) \<in> set IDEMPOTENT_METHODS then True
      else list_ex (req_has_header r) key_headers)"

definition is_replayable :: "http_request \<Rightarrow> bool" where
  "is_replayable r = req_sync_stream r"

text \<open>
  \<open>retry_after_seconds\<close>: \<open>Inl ()\<close> is the \<open>OverflowError\<close> of \<open>float(int(value))\<close>, which the
  \<open>except ValueError\<close> does not catch. \<open>http_date\<close> is \<open>parsedate_to_datetime(value).timestamp()\<close>,
  \<open>None\<close> where the parser raises.
\<close>

definition retry_after_seconds :: "(string \<Rightarrow> seconds option) \<Rightarrow> seconds \<Rightarrow> http_response \<Rightarrow> unit + seconds option" where
  "retry_after_seconds http_date now r =
     (case retry_after_header r of
        None \<Rightarrow> Inr None
      | Some raw \<Rightarrow>
          (let value = py_strip raw in
           case py_int value of
             Some n \<Rightarrow> (case py_float n of None \<Rightarrow> Inl () | Some x \<Rightarrow> Inr (Some (max 0 x)))
           | None \<Rightarrow>
               (case http_date value of
                  None \<Rightarrow> Inr None
                | Some due \<Rightarrow> Inr (Some (max 0 (due - now))))))"

subsection \<open>The retry policy\<close>

record http_retry =
  attempts :: int
  base_delay :: seconds
  max_delay :: seconds
  jitter :: bool
  idempotency_key_headers :: "string list"
  respect_retry_after :: bool
  max_retry_after :: seconds

definition default_http_retry :: http_retry where
  "default_http_retry =
     \<lparr>attempts = 3, base_delay = 1 / 10, max_delay = 5, jitter = True,
      idempotency_key_headers = DEFAULT_IDEMPOTENCY_KEY_HEADERS,
      respect_retry_after = True, max_retry_after = 30\<rparr>"

definition http_retry_error :: "http_retry \<Rightarrow> string option" where
  "http_retry_error p =
     (if attempts p < 1 then Some ''attempts must be at least 1.''
      else if base_delay p < 0 then Some ''base_delay must not be negative.''
      else if max_delay p < base_delay p then Some ''max_delay must be at least base_delay.''
      else if max_retry_after p < 0 then Some ''max_retry_after must not be negative.''
      else None)"

abbreviation http_retry_ok :: "http_retry \<Rightarrow> bool" where
  "http_retry_ok p \<equiv> http_retry_error p = None"

definition refusal_reason :: "http_retry \<Rightarrow> http_request \<Rightarrow> int \<Rightarrow> transport_error option \<Rightarrow> bool \<Rightarrow> string option" where
  "refusal_reason p r attempt err replayable =
     (if attempts p \<le> attempt then Some ''attempts_exhausted''
      else if \<not> replayable then Some ''body_not_replayable''
      else if (case err of Some e \<Rightarrow> \<not> request_was_sent e | None \<Rightarrow> False) then None
      else if \<not> may_repeat r (idempotency_key_headers p) then Some ''not_idempotent''
      else None)"

definition delay_for ::
    "(string \<Rightarrow> seconds option) \<Rightarrow> http_retry \<Rightarrow> seconds \<Rightarrow> rat \<Rightarrow> int \<Rightarrow> http_response option \<Rightarrow> unit + seconds option" where
  "delay_for http_date p wall u attempt resp =
     (let computed = Inr (Some (backoff_delay attempt (base_delay p) (max_delay p) (jitter p) u)) in
      case resp of
        None \<Rightarrow> computed
      | Some r \<Rightarrow>
          if \<not> respect_retry_after p then computed
          else
            (case retry_after_seconds http_date wall r of
               Inl e \<Rightarrow> Inl e
             | Inr None \<Rightarrow> computed
             | Inr (Some named) \<Rightarrow>
                 if max_retry_after p < named then Inr None
                 else Inr (Some (named + uniform u 0 (base_delay p)))))"

definition delay_before_next ::
    "(string \<Rightarrow> seconds option) \<Rightarrow> http_retry \<Rightarrow> seconds \<Rightarrow> rat \<Rightarrow> seconds option \<Rightarrow> http_request \<Rightarrow> int \<Rightarrow>
       http_response option \<Rightarrow> transport_error option \<Rightarrow> bool \<Rightarrow> unit + seconds option" where
  "delay_before_next http_date p wall u remaining r attempt resp err replayable =
     (case refusal_reason p r attempt err replayable of
        Some _ \<Rightarrow> Inr None
      | None \<Rightarrow>
          (case delay_for http_date p wall u attempt resp of
             Inl e \<Rightarrow> Inl e
           | Inr None \<Rightarrow> Inr None
           | Inr (Some delay) \<Rightarrow>
               if (case remaining of Some left \<Rightarrow> left \<le> delay | None \<Rightarrow> False) then Inr None
               else Inr (Some delay)))"

subsection \<open>One exchange of the resilient transport\<close>

datatype send_outcome =
    Answer http_response
  | SendError transport_error
  | SendCancelled
  | SendOther string

record attempt_env =
  env_before :: "breaker \<Rightarrow> breaker"
  env_now :: seconds
  env_now' :: seconds
  env_during :: "breaker \<Rightarrow> breaker"
  env_outcome :: send_outcome
  env_settled_at :: seconds
  env_wall :: seconds
  env_draw :: rat
  env_remaining :: "seconds option"
  env_close_error :: "string option"
  env_sleep_cancelled :: bool

datatype exchange_result =
    GotResponse http_response
  | RaisedTransport transport_error
  | RaisedCancelled
  | RaisedOther string
  | RaisedOverflow
  | EndOfLoop

text \<open>What the exchange puts on the wire and how long it waits.\<close>

datatype wire = Sent int send_outcome | Slept seconds

text \<open>
  \<open>ResilientTransport.handle_async_request\<close>, from attempt \<open>k\<close> on. \<open>finally: call.release()\<close> is the
  \<open>call_release\<close> on every way out; after \<open>succeeded\<close> or \<open>failed\<close> it does nothing.
\<close>

fun exchange ::
    "(string \<Rightarrow> seconds option) \<Rightarrow> breaker_config \<Rightarrow> http_retry \<Rightarrow> http_request \<Rightarrow> bool \<Rightarrow> (int \<Rightarrow> attempt_env) \<Rightarrow>
       int list \<Rightarrow> breaker \<Rightarrow> exchange_result \<times> wire list \<times> breaker" where
  "exchange http_date cfg p r replayable env [] b = (EndOfLoop, [], b)"
| "exchange http_date cfg p r replayable env (k # ks) b =
     (let e = env k in
      case breaker_acquire cfg (env_now e) (env_now' e) (env_before e b) of
        (Inl err, b) \<Rightarrow> (RaisedTransport (CircuitOpen err), [], b)
      | (Inr call, b) \<Rightarrow>
          (let b = env_during e b;
               sent = Sent k (env_outcome e);
               released = snd (call_release call b);
               failed = snd (case call_failed cfg (env_settled_at e) call b of (c, b) \<Rightarrow> call_release c b);
               again = (\<lambda>d b. if env_sleep_cancelled e then (RaisedCancelled, [sent, Slept d], b)
                              else (case exchange http_date cfg p r replayable env ks b of
                                      (res, tr, b) \<Rightarrow> (res, sent # Slept d # tr, b)));
               next_delay = (\<lambda>resp err. delay_before_next http_date p (env_wall e) (env_draw e) (env_remaining e)
                                          r k resp err replayable)
           in case env_outcome e of
                SendCancelled \<Rightarrow> (RaisedCancelled, [sent], released)
              | SendOther x \<Rightarrow> (RaisedOther x, [sent], released)
              | SendError err \<Rightarrow>
                  if is_local_shortage err then (RaisedTransport err, [sent], released)
                  else
                    (case next_delay None (Some err) of
                       Inl _ \<Rightarrow> (RaisedOverflow, [sent], failed)
                     | Inr None \<Rightarrow> (RaisedTransport err, [sent], failed)
                     | Inr (Some d) \<Rightarrow> again d failed)
              | Answer resp \<Rightarrow>
                  if \<not> is_failure_status (status_code resp)
                  then (GotResponse resp, [sent],
                        snd (case call_succeeded cfg (env_settled_at e) call b of (c, b) \<Rightarrow> call_release c b))
                  else
                    (case next_delay (Some resp) None of
                       Inl _ \<Rightarrow> (RaisedOverflow, [sent], failed)
                     | Inr None \<Rightarrow> (GotResponse resp, [sent], failed)
                     | Inr (Some d) \<Rightarrow>
                         (case env_close_error e of
                            Some x \<Rightarrow> (RaisedOther x, [sent], failed)
                          | None \<Rightarrow> again d failed))))"

definition handle_async_request ::
    "(string \<Rightarrow> seconds option) \<Rightarrow> http_retry \<Rightarrow> (int \<Rightarrow> attempt_env) \<Rightarrow> http_request \<Rightarrow> breaker_registry \<Rightarrow>
       exchange_result \<times> wire list \<times> breaker_registry" where
  "handle_async_request http_date p env r reg =
     (case registry_get (origin_of r) reg of
        (b, reg) \<Rightarrow>
          (case exchange http_date (registry_config reg) p r (is_replayable r) env [1..attempts p] b of
             (res, tr, b) \<Rightarrow> (res, tr, registry_put (origin_of r) b reg)))"

subsection \<open>The compartment transport\<close>

text \<open>
  How the wrapped send ends while the slot is held: a response (with \<open>is_closed\<close> and whether its
  stream is an \<open>AsyncByteStream\<close>), a \<open>TimeoutError\<close> (with \<open>timer.expired()\<close>), or another exception.
\<close>

datatype inner_outcome =
    InnerResponse http_response bool bool
  | InnerTimeout bool
  | InnerRaises send_outcome

datatype held_result =
    Plain http_response
  | SlotBound http_response nat
  | HeldError transport_error
  | HeldPropagates
  | HeldOther send_outcome

definition bulkhead_held :: "bulkhead_config \<Rightarrow> nat \<Rightarrow> inner_outcome \<Rightarrow> bulkhead_sys \<Rightarrow> held_result \<times> bulkhead_sys" where
  "bulkhead_held cfg j inner s =
     (case inner of
        InnerTimeout expired \<Rightarrow>
          (case execution_timeout cfg of
             Some t \<Rightarrow> (if expired then HeldError (BulkheadTimeoutError (bh_origin s) t) else HeldPropagates, slot_release j s)
           | None \<Rightarrow> (HeldPropagates, slot_release j s))
      | InnerRaises x \<Rightarrow> (HeldOther x, slot_release j s)
      | InnerResponse resp is_closed async_stream \<Rightarrow>
          if is_closed \<or> \<not> async_stream then (Plain resp, slot_release j s)
          else (SlotBound resp j, s))"

text \<open>\<open>_SlotBoundStream.aclose\<close>: the slot goes back whether or not closing the stream raises.\<close>

definition slot_bound_aclose :: "nat \<Rightarrow> bulkhead_sys \<Rightarrow> bulkhead_sys" where
  "slot_bound_aclose j s = slot_release j s"

subsection \<open>Traces\<close>

text \<open>A trace in which every wait after a send satisfies \<open>P\<close>, and sends and waits alternate.\<close>

fun wire_ok :: "(int \<Rightarrow> send_outcome \<Rightarrow> seconds \<Rightarrow> bool) \<Rightarrow> wire list \<Rightarrow> bool" where
  "wire_ok P [] = True"
| "wire_ok P [Sent k out] = True"
| "wire_ok P (Sent k out # Slept d # tr) = (P k out d \<and> wire_ok P tr)"
| "wire_ok P _ = False"

fun is_sent :: "wire \<Rightarrow> bool" where
  "is_sent (Sent _ _) = True"
| "is_sent (Slept _) = False"

text \<open>When a send that may have reached the far end is worth repeating.\<close>

fun repeatable :: "http_retry \<Rightarrow> http_request \<Rightarrow> send_outcome \<Rightarrow> bool" where
  "repeatable p r (Answer resp) \<longleftrightarrow>
     is_failure_status (status_code resp) \<and> may_repeat r (idempotency_key_headers p)"
| "repeatable p r (SendError err) \<longleftrightarrow>
     \<not> is_local_shortage err \<and>
     (err = ConnectError \<or> err = ConnectTimeout \<or> may_repeat r (idempotency_key_headers p))"
| "repeatable p r _ \<longleftrightarrow> False"

fun answer_of :: "send_outcome \<Rightarrow> http_response option" where
  "answer_of (Answer resp) = Some resp"
| "answer_of _ = None"

section \<open>Lemmas\<close>

lemma http_retry_okD:
  assumes "http_retry_ok p"
  shows "1 \<le> attempts p" "0 \<le> base_delay p" "base_delay p \<le> max_delay p" "0 \<le> max_retry_after p"
  using assms by (auto simp: http_retry_error_def split: if_splits)

lemma wire_ok_mono: "wire_ok P tr \<Longrightarrow> (\<And>k out d. P k out d \<Longrightarrow> Q k out d) \<Longrightarrow> wire_ok Q tr"
  by (induction P tr rule: wire_ok.induct) auto

text \<open>A scheduled wait: no refusal, and the enclosing deadline outlasts it.\<close>

lemma delay_before_next_Some:
  assumes "delay_before_next http_date p wall u remaining r k resp err replayable = Inr (Some d)"
  shows "refusal_reason p r k err replayable = None"
    and "delay_for http_date p wall u k resp = Inr (Some d)"
    and "remaining = Some left \<Longrightarrow> d < left"
  using assms by (auto simp: delay_before_next_def split: option.splits sum.splits if_splits)

lemma refusal_reason_None:
  "refusal_reason p r k err replayable = None \<longleftrightarrow>
     k < attempts p \<and> replayable \<and>
     ((\<exists>e. err = Some e \<and> (e = ConnectError \<or> e = ConnectTimeout)) \<or> may_repeat r (idempotency_key_headers p))"
  by (auto simp: refusal_reason_def request_was_sent_def split: option.splits)

text \<open>
  The induction behind every fact about an exchange: each wait in its trace was granted by
  \<open>delay_before_next\<close> for the outcome before it.
\<close>

definition granted ::
    "(string \<Rightarrow> seconds option) \<Rightarrow> http_retry \<Rightarrow> http_request \<Rightarrow> bool \<Rightarrow> (int \<Rightarrow> attempt_env) \<Rightarrow>
       int \<Rightarrow> send_outcome \<Rightarrow> seconds \<Rightarrow> bool" where
  "granted http_date p r replayable env k out d \<longleftrightarrow>
     (case out of
        Answer resp \<Rightarrow> is_failure_status (status_code resp) \<and>
          delay_before_next http_date p (env_wall (env k)) (env_draw (env k)) (env_remaining (env k))
            r k (Some resp) None replayable = Inr (Some d)
      | SendError err \<Rightarrow> \<not> is_local_shortage err \<and>
          delay_before_next http_date p (env_wall (env k)) (env_draw (env k)) (env_remaining (env k))
            r k None (Some err) replayable = Inr (Some d)
      | _ \<Rightarrow> False)"

lemma exchange_step:
  fixes k :: int and env :: "int \<Rightarrow> attempt_env"
  defines "out \<equiv> env_outcome (env k)"
  shows "(\<exists>err b'. exchange http_date cfg p r replayable env (k # ks) b = (RaisedTransport (CircuitOpen err), [], b')) \<or>
     (\<exists>res b'. exchange http_date cfg p r replayable env (k # ks) b = (res, [Sent k out], b') \<and>
        res \<noteq> EndOfLoop \<and> (\<forall>resp. res = GotResponse resp \<longrightarrow> out = Answer resp)) \<or>
     (\<exists>d b'. granted http_date p r replayable env k out d \<and>
        exchange http_date cfg p r replayable env (k # ks) b = (RaisedCancelled, [Sent k out, Slept d], b')) \<or>
     (\<exists>d b' res tr b''. granted http_date p r replayable env k out d \<and>
        exchange http_date cfg p r replayable env ks b' = (res, tr, b'') \<and>
        exchange http_date cfg p r replayable env (k # ks) b = (res, Sent k out # Slept d # tr, b''))"
proof -
  let ?e = "env k"
  obtain adm b1 where acq: "breaker_acquire cfg (env_now ?e) (env_now' ?e) (env_before ?e b) = (adm, b1)"
    by (cases "breaker_acquire cfg (env_now ?e) (env_now' ?e) (env_before ?e b)")
  show ?thesis
  proof (cases adm)
    case (Inl err)
    with acq show ?thesis by simp
  next
    case (Inr call)
    define failed where "failed = snd (case call_failed cfg (env_settled_at ?e) call (env_during ?e b1) of (c, b) \<Rightarrow> call_release c b)"
    obtain res tr b'' where rest: "exchange http_date cfg p r replayable env ks failed = (res, tr, b'')"
      by (cases "exchange http_date cfg p r replayable env ks failed")
    then have some_rest: "\<exists>b'. exchange http_date cfg p r replayable env ks b' = (res, tr, b'')"
      by blast
    note unfold = acq Inr out_def granted_def failed_def [symmetric] rest Let_def
    show ?thesis
    proof (cases "env_outcome ?e")
      case (Answer resp)
      show ?thesis
      proof (cases "\<exists>d. is_failure_status (status_code resp) \<and> env_close_error ?e = None \<and>
          delay_before_next http_date p (env_wall ?e) (env_draw ?e) (env_remaining ?e) r k (Some resp) None replayable = Inr (Some d)")
        case True
        with Answer some_rest show ?thesis
          by (cases "env_sleep_cancelled ?e") (auto simp: unfold)
      next
        case False
        with Answer show ?thesis
          by (auto simp: unfold split: sum.split option.split)
      qed
    next
      case (SendError err)
      show ?thesis
      proof (cases "\<exists>d. \<not> is_local_shortage err \<and>
          delay_before_next http_date p (env_wall ?e) (env_draw ?e) (env_remaining ?e) r k None (Some err) replayable = Inr (Some d)")
        case True
        with SendError some_rest show ?thesis
          by (cases "env_sleep_cancelled ?e") (auto simp: unfold)
      next
        case False
        with SendError show ?thesis
          by (auto simp: unfold split: sum.split option.split)
      qed
    qed (simp_all add: unfold)
  qed
qed

lemma exchange_granted:
  "wire_ok (granted http_date p r replayable env) (fst (snd (exchange http_date cfg p r replayable env ks b)))"
proof (induction ks arbitrary: b)
  case (Cons k ks)
  from exchange_step [of http_date cfg p r replayable env k ks b] Cons.IH show ?case
    by (elim disjE exE conjE) (auto simp del: exchange.simps, metis fst_conv snd_conv)
qed simp

lemma exchange_sends:
  "length (filter is_sent (fst (snd (exchange http_date cfg p r replayable env ks b)))) \<le> length ks"
proof (induction ks arbitrary: b)
  case (Cons k ks)
  from exchange_step [of http_date cfg p r replayable env k ks b] Cons.IH show ?case
    by (elim disjE exE conjE) (auto simp del: exchange.simps, metis fst_conv snd_conv)
qed simp

text \<open>The loop never runs off its end, and a response it returns is the last one received.\<close>

lemma granted_not_last: "granted http_date p r replayable env k out d \<Longrightarrow> k < attempts p"
  by (auto simp: granted_def refusal_reason_None dest: delay_before_next_Some(1) split: send_outcome.splits)

lemma exchange_result_of_last:
  assumes "i \<le> attempts p"
  shows "case exchange http_date cfg p r replayable env [i..attempts p] b of
     (res, tr, b') \<Rightarrow> res \<noteq> EndOfLoop \<and> (\<forall>resp. res = GotResponse resp \<longrightarrow> (\<exists>k. tr \<noteq> [] \<and> last tr = Sent k (Answer resp)))"
  using assms
proof (induction "nat (attempts p - i)" arbitrary: i b)
  case 0
  then have "[i..attempts p] = [i]" by (simp add: upto_rec1)
  with exchange_step [of http_date cfg p r replayable env i "[]" b] granted_not_last show ?case
    using 0 by (fastforce simp del: exchange.simps)
next
  case (Suc m)
  then have "[i..attempts p] = i # [i + 1..attempts p]" "m = nat (attempts p - (i + 1))" "i + 1 \<le> attempts p"
    by (simp_all add: upto_rec1)
  note IH = Suc.hyps(1) [OF this(2,3)] and eq = this(1)
  from exchange_step [of http_date cfg p r replayable env i "[i + 1..attempts p]" b]
  show ?case
    unfolding eq
  proof (elim disjE exE conjE)
    fix d b' res tr b''
    assume "exchange http_date cfg p r replayable env [i + 1..attempts p] b' = (res, tr, b'')"
      and step: "exchange http_date cfg p r replayable env (i # [i + 1..attempts p]) b =
        (res, Sent i (env_outcome (env i)) # Slept d # tr, b'')"
    with IH [of b'] show "case exchange http_date cfg p r replayable env (i # [i + 1..attempts p]) b of
     (res, tr, b') \<Rightarrow> res \<noteq> EndOfLoop \<and> (\<forall>resp. res = GotResponse resp \<longrightarrow> (\<exists>k. tr \<noteq> [] \<and> last tr = Sent k (Answer resp)))"
      unfolding step by auto
  qed (simp_all del: exchange.simps)
qed

lemma handle_exchange:
  "\<exists>b. fst (handle_async_request http_date p env r reg) =
        fst (exchange http_date (registry_config reg) p r (req_sync_stream r) env [1..attempts p] b) \<and>
      fst (snd (handle_async_request http_date p env r reg)) =
        fst (snd (exchange http_date (registry_config reg) p r (req_sync_stream r) env [1..attempts p] b))"
proof (cases "registry_get (origin_of r) reg")
  case (Pair b reg')
  then have "registry_config reg' = registry_config reg"
    by (auto simp: registry_get_def Let_def split: option.splits)
  with Pair show ?thesis
    by (intro exI [of _ b]) (auto simp: handle_async_request_def is_replayable_def split: prod.split)
qed

subsection \<open>Waits\<close>

lemma retry_after_nonneg: "retry_after_seconds http_date wall resp = Inr (Some named) \<Longrightarrow> 0 \<le> named"
  by (auto simp: retry_after_seconds_def Let_def split: option.splits)

lemma delay_for_bounds:
  assumes "http_retry_ok p" "0 \<le> u" "u \<le> 1" and d: "delay_for http_date p wall u k resp = Inr (Some d)"
  shows "0 \<le> d \<and> d \<le> max (max_delay p) (max_retry_after p + base_delay p)"
    and "resp = Some r \<Longrightarrow> respect_retry_after p \<Longrightarrow> retry_after_seconds http_date wall r = Inr (Some named) \<Longrightarrow>
           named \<le> d \<and> named \<le> max_retry_after p"
proof -
  note ok = http_retry_okD [OF assms(1)]
  have computed: "0 \<le> backoff_delay k (base_delay p) (max_delay p) (jitter p) u"
      "backoff_delay k (base_delay p) (max_delay p) (jitter p) u \<le> max_delay p"
    using backoff_delay_bounds [OF ok(2,3) assms(2,3), of k "jitter p"] backoff_ceiling_bounds [OF ok(2,3), of k]
    by auto
  have spread: "0 \<le> uniform u 0 (base_delay p)" "uniform u 0 (base_delay p) \<le> base_delay p"
    using uniform_bounds [OF assms(2,3) ok(2)] by auto
  consider "d = backoff_delay k (base_delay p) (max_delay p) (jitter p) u"
      "\<forall>r named. resp = Some r \<longrightarrow> respect_retry_after p \<longrightarrow> retry_after_seconds http_date wall r \<noteq> Inr (Some named)"
    | r' named' where "resp = Some r'" "retry_after_seconds http_date wall r' = Inr (Some named')"
      "named' \<le> max_retry_after p" "d = named' + uniform u 0 (base_delay p)"
    using d by (auto simp: delay_for_def Let_def split: option.splits if_splits sum.splits)
  note cases = this
  from cases show "0 \<le> d \<and> d \<le> max (max_delay p) (max_retry_after p + base_delay p)"
  proof cases
    case 2
    then show ?thesis using spread retry_after_nonneg [of http_date wall r' named'] by simp
  qed (use computed in auto)
  from cases show "named \<le> d \<and> named \<le> max_retry_after p"
    if "resp = Some r" "respect_retry_after p" "retry_after_seconds http_date wall r = Inr (Some named)"
    using that spread by cases auto
qed

lemma granted_delay:
  assumes "granted http_date p r replayable env k out d"
  shows "delay_for http_date p (env_wall (env k)) (env_draw (env k)) k (answer_of out) = Inr (Some d)"
  using assms by (auto simp: granted_def dest: delay_before_next_Some(2) split: send_outcome.splits)

lemma granted_repeatable:
  assumes "granted http_date p r replayable env k out d"
  shows "k < attempts p \<and> replayable \<and> repeatable p r out \<and>
         (case env_remaining (env k) of Some left \<Rightarrow> d < left | None \<Rightarrow> True)"
proof -
  have "k < attempts p \<and> replayable \<and> repeatable p r out"
    using assms by (auto simp: granted_def refusal_reason_None dest!: delay_before_next_Some(1) split: send_outcome.splits)
  moreover have "d < left" if "env_remaining (env k) = Some left" for left
    using assms that by (auto simp: granted_def dest: delay_before_next_Some(3) split: send_outcome.splits)
  ultimately show ?thesis by (auto split: option.split)
qed

subsection \<open>Concrete exchanges\<close>

definition calm_env :: "send_outcome \<Rightarrow> attempt_env" where
  "calm_env out =
     \<lparr>env_before = id, env_now = 0, env_now' = 0, env_during = id, env_outcome = out, env_settled_at = 0,
      env_wall = 0, env_draw = 1, env_remaining = Some 60, env_close_error = None, env_sleep_cancelled = False\<rparr>"

definition get_request :: http_request where
  "get_request =
     \<lparr>req_method = ''get'', req_scheme = ''https'', req_netloc = ''api.test'', req_has_header = (\<lambda>_. False),
      req_sync_stream = True\<rparr>"

definition empty_registry :: breaker_registry where
  "empty_registry = \<lparr>registry_config = default_breaker_config, breakers = Map.empty\<rparr>"

definition flaky :: "int \<Rightarrow> attempt_env" where
  "flaky k = calm_env (if k = 1 then Answer \<lparr>status_code = 503, retry_after_header = Some ''2''\<rparr>
                       else Answer \<lparr>status_code = 200, retry_after_header = None\<rparr>)"

lemma default_http_retry_ok: "http_retry_ok default_http_retry"
  by (simp add: http_retry_error_def default_http_retry_def)

lemma get_may_repeat: "may_repeat get_request hdrs"
proof -
  have "map ascii_upper ''get'' = ''GET''" by code_simp
  then show ?thesis by (simp add: may_repeat_def get_request_def IDEMPOTENT_METHODS_def)
qed

lemma retry_after_2: "retry_after_seconds http_date wall \<lparr>status_code = c, retry_after_header = Some ''2''\<rparr> = Inr (Some 2)"
proof -
  have "py_strip ''2'' = ''2''" "py_int ''2'' = Some 2" by code_simp+
  then show ?thesis by (simp add: retry_after_seconds_def py_float_def Let_def)
qed

lemma flaky_delay:
  "delay_before_next (\<lambda>_. None) default_http_retry 0 1 (Some 60) get_request 1
     (Some \<lparr>status_code = 503, retry_after_header = Some ''2''\<rparr>) None True = Inr (Some (21 / 10))"
  by (simp add: delay_before_next_def refusal_reason_None [THEN iffD2] get_may_repeat delay_for_def retry_after_2
      default_http_retry_def uniform_def Let_def)

lemmas exchange_eval =
  handle_async_request_def registry_get_def registry_put_def empty_registry_def
  default_breaker_config_def flaky_def calm_env_def is_replayable_def circuit_eval
  is_failure_status_def TOO_MANY_REQUESTS_def PERMANENT_SERVER_STATUSES_def upto_rec1

lemma flaky_exchange:
  "fst (handle_async_request (\<lambda>_. None) default_http_retry flaky get_request empty_registry) =
     GotResponse \<lparr>status_code = 200, retry_after_header = None\<rparr>"
  "fst (snd (handle_async_request (\<lambda>_. None) default_http_retry flaky get_request empty_registry)) =
     [Sent 1 (Answer \<lparr>status_code = 503, retry_after_header = Some ''2''\<rparr>), Slept (21 / 10),
      Sent 2 (Answer \<lparr>status_code = 200, retry_after_header = None\<rparr>)]"
proof -
  have three: "[1..attempts default_http_retry] = [1, 2, 3]" "req_sync_stream get_request"
    by (simp_all add: default_http_retry_def get_request_def upto_rec1)
  show "fst (handle_async_request (\<lambda>_. None) default_http_retry flaky get_request empty_registry) =
     GotResponse \<lparr>status_code = 200, retry_after_header = None\<rparr>"
   "fst (snd (handle_async_request (\<lambda>_. None) default_http_retry flaky get_request empty_registry)) =
     [Sent 1 (Answer \<lparr>status_code = 503, retry_after_header = Some ''2''\<rparr>), Slept (21 / 10),
      Sent 2 (Answer \<lparr>status_code = 200, retry_after_header = None\<rparr>)]"
    using flaky_delay by (simp_all add: three exchange_eval)
qed

subsection \<open>A header that overflows\<close>

lemma int_digits_zeros: "int_digits acc False (replicate n (CHR ''0'')) = Some (acc * 10 ^ n)"
proof -
  have "py_digit (CHR ''0'')" "(of_char (CHR ''0'') :: int) = 48" by code_simp+
  then show ?thesis
    by (induction n arbitrary: acc) (auto simp: algebra_simps)
qed

definition huge_header :: string where
  "huge_header = CHR ''1'' # replicate 400 (CHR ''0'')"

lemma huge_header_int: "py_strip huge_header = huge_header" "py_int huge_header = Some (10 ^ 400)"
proof -
  have d: "py_digit (CHR ''1'')" "py_digit (CHR ''0'')" "(of_char (CHR ''1'') :: int) = 49" by code_simp+
  then show strip: "py_strip huge_header = huge_header"
    by (intro strip_digits) (auto simp: huge_header_def)
  have "length (filter py_digit huge_header) \<le> length huge_header"
    by (rule length_filter_le)
  then have "length (filter py_digit huge_header) \<le> 401"
    by (simp add: huge_header_def)
  moreover have "int_digits 0 True huge_header = Some (10 ^ 400)"
    using d int_digits_zeros [of 1 400] by (simp add: huge_header_def)
  ultimately show "py_int huge_header = Some (10 ^ 400)"
    unfolding py_int_def strip Let_def by (simp add: huge_header_def)
qed

lemma ten_400_overflows: "py_float (10 ^ 400) = None"
proof -
  have "(2 :: int) ^ 1024 \<le> 2 ^ 1200" by (rule power_increasing) simp_all
  also have "\<dots> = 8 ^ 400" by (simp add: power_mult [symmetric, of 2 3 400, simplified])
  also have "\<dots> \<le> (10 :: int) ^ 400" by (rule power_mono) simp_all
  finally show ?thesis by (simp add: py_float_def)
qed

section \<open>Properties\<close>

text \<open>
  C28: no request is repeated unless repeating it is safe. Whenever an exchange waits to send again,
  attempts are left, the body can be replayed, and the last outcome was a failure of the
  dependency (never a local shortage, a cancellation or a success) that either happened before a
  connection existed or belongs to a request whose method is idempotent or which carries an
  idempotency key; and the wait ends before an enclosing deadline does. This holds for every
  environment and every interference of other requests with the breaker.
\<close>

theorem no_unsafe_resend:
  "wire_ok (\<lambda>k out d. k < attempts p \<and> req_sync_stream r \<and> repeatable p r out \<and>
              (case env_remaining (env k) of Some left \<Rightarrow> d < left | None \<Rightarrow> True))
     (fst (snd (handle_async_request http_date p env r reg)))"
proof -
  obtain b where "fst (snd (handle_async_request http_date p env r reg)) =
      fst (snd (exchange http_date (registry_config reg) p r (req_sync_stream r) env [1..attempts p] b))"
    using handle_exchange by blast
  then show ?thesis
    using wire_ok_mono [OF exchange_granted] granted_repeatable by (metis (no_types, lifting))
qed

text \<open>
  an exchange always ends, after at most \<open>attempts\<close> sends, and never by running off the end of
  its loop; a response it returns is the one the last send received.
\<close>

theorem exchange_ends_within_attempts:
  assumes "http_retry_ok p"
  shows "fst (handle_async_request http_date p env r reg) \<noteq> EndOfLoop \<and>
         int (length (filter is_sent (fst (snd (handle_async_request http_date p env r reg))))) \<le> attempts p \<and>
         (\<forall>resp. fst (handle_async_request http_date p env r reg) = GotResponse resp \<longrightarrow>
            (\<exists>k. last (fst (snd (handle_async_request http_date p env r reg))) = Sent k (Answer resp)))"
proof -
  obtain b where b: "fst (handle_async_request http_date p env r reg) =
      fst (exchange http_date (registry_config reg) p r (req_sync_stream r) env [1..attempts p] b)"
      "fst (snd (handle_async_request http_date p env r reg)) =
      fst (snd (exchange http_date (registry_config reg) p r (req_sync_stream r) env [1..attempts p] b))"
    using handle_exchange by blast
  have "length (filter is_sent (fst (snd (handle_async_request http_date p env r reg)))) \<le> length [1..attempts p]"
    unfolding b by (rule exchange_sends)
  then show ?thesis
    using exchange_result_of_last [OF http_retry_okD(1) [OF assms], of http_date "registry_config reg" r "req_sync_stream r" env b]
    using http_retry_okD(1) [OF assms] unfolding b by (auto split: prod.splits)
qed

theorem exchange_ends_within_attempts_witness:
  "http_retry_ok default_http_retry \<and>
   fst (handle_async_request (\<lambda>_. None) default_http_retry flaky get_request empty_registry) =
     GotResponse \<lparr>status_code = 200, retry_after_header = None\<rparr> \<and>
   int (length (filter is_sent (fst (snd (handle_async_request (\<lambda>_. None) default_http_retry flaky get_request empty_registry))))) \<le> 3"
  using exchange_ends_within_attempts [OF default_http_retry_ok, of "\<lambda>_. None" flaky get_request empty_registry]
    default_http_retry_ok flaky_exchange(1)
  by (simp add: default_http_retry_def)

text \<open>
  C29: every wait is bounded, and a \<open>Retry-After\<close> the policy honours is obeyed: the wait is at
  least what the far end named, it is never more than \<open>max_retry_after\<close> plus one base delay, and a
  larger value is not waited for at all.
\<close>

theorem waits_obey_retry_after:
  assumes "http_retry_ok p" and "\<forall>k. 0 \<le> env_draw (env k) \<and> env_draw (env k) \<le> 1"
  shows "wire_ok (\<lambda>k out d. 0 \<le> d \<and> d \<le> max (max_delay p) (max_retry_after p + base_delay p) \<and>
            (\<forall>resp named. out = Answer resp \<and> respect_retry_after p \<and>
               retry_after_seconds http_date (env_wall (env k)) resp = Inr (Some named) \<longrightarrow>
               named \<le> d \<and> named \<le> max_retry_after p))
     (fst (snd (handle_async_request http_date p env r reg)))"
proof -
  obtain b where b: "fst (snd (handle_async_request http_date p env r reg)) =
      fst (snd (exchange http_date (registry_config reg) p r (req_sync_stream r) env [1..attempts p] b))"
    using handle_exchange by blast
  show ?thesis
    unfolding b
  proof (rule wire_ok_mono [OF exchange_granted])
    fix k out d
    assume "granted http_date p r (req_sync_stream r) env k out d"
    note delay = granted_delay [OF this]
    show "0 \<le> d \<and> d \<le> max (max_delay p) (max_retry_after p + base_delay p) \<and>
            (\<forall>resp named. out = Answer resp \<and> respect_retry_after p \<and>
               retry_after_seconds http_date (env_wall (env k)) resp = Inr (Some named) \<longrightarrow>
               named \<le> d \<and> named \<le> max_retry_after p)"
      using delay_for_bounds [OF assms(1) _ _ delay] assms(2) by auto
  qed
qed

theorem waits_obey_retry_after_witness:
  "fst (snd (handle_async_request (\<lambda>_. None) default_http_retry flaky get_request empty_registry)) =
     [Sent 1 (Answer \<lparr>status_code = 503, retry_after_header = Some ''2''\<rparr>), Slept (21 / 10),
      Sent 2 (Answer \<lparr>status_code = 200, retry_after_header = None\<rparr>)] \<and>
   (0 :: seconds) \<le> 21 / 10 \<and> 21 / 10 \<le> max (max_delay default_http_retry) (max_retry_after default_http_retry + base_delay default_http_retry)"
proof -
  have draws: "\<forall>k. 0 \<le> env_draw (flaky k) \<and> env_draw (flaky k) \<le> 1"
    by (simp add: flaky_def calm_env_def)
  show ?thesis
    using waits_obey_retry_after [OF default_http_retry_ok draws, of "\<lambda>_. None" get_request empty_registry]
    unfolding flaky_exchange(2) by simp
qed

text \<open>
  this process running out of its own capacity says nothing about the dependency. An attempt
  that ends in a pool timeout, a full compartment or a cancellation raises at once, without a
  retry, and leaves the breaker exactly as if the attempt had not been made.
\<close>

theorem local_shortage_leaves_no_trace:
  assumes "breaker_ok cfg (env_before (env k) b)" and "env_during (env k) = id"
    and "breaker_acquire cfg (env_now (env k)) (env_now' (env k)) (env_before (env k) b) = (Inr call, b1)"
    and "env_outcome (env k) = SendCancelled \<or> (\<exists>e. env_outcome (env k) = SendError e \<and> is_local_shortage e)"
  shows "exchange http_date cfg p r replayable env (k # ks) b =
     (case env_outcome (env k) of SendError e \<Rightarrow> RaisedTransport e | _ \<Rightarrow> RaisedCancelled,
      [Sent k (env_outcome (env k))], expire_open_period (env_now (env k)) (env_before (env k) b))"
proof -
  define b0 where "b0 = expire_open_period (env_now (env k)) (env_before (env k) b)"
  have nonneg: "0 \<le> probes_in_flight b0"
    using assms(1) by (auto simp: b0_def breaker_ok_def expire_open_period_def)
  have "snd (call_release call b1) = b0"
    using assms(3) nonneg
    by (auto simp: breaker_acquire_def b0_def [symmetric] call_release_def release_probe_def Let_def split: if_splits)
  with assms show ?thesis
    by (auto simp: Let_def b0_def split: send_outcome.split)
qed

theorem local_shortage_leaves_no_trace_witness:
  "exchange (\<lambda>_. None) default_breaker_config default_http_retry get_request True
     (\<lambda>_. calm_env (SendError PoolTimeout)) [1, 2, 3] (new_breaker ''o'') =
   (RaisedTransport PoolTimeout, [Sent 1 (SendError PoolTimeout)], new_breaker ''o'')"
proof -
  have acq: "breaker_acquire default_breaker_config 0 0 (new_breaker ''o'') =
      (Inr \<lparr>call_generation = 0, probe = False, settled = False\<rparr>, new_breaker ''o'')"
    by (simp add: circuit_eval default_breaker_config_def)
  show ?thesis
    using local_shortage_leaves_no_trace
      [of default_breaker_config "\<lambda>_. calm_env (SendError PoolTimeout)" 1 "new_breaker ''o''"
          "\<lparr>call_generation = 0, probe = False, settled = False\<rparr>" "new_breaker ''o''"
          "\<lambda>_. None" default_http_retry get_request True "[2, 3]"]
      breaker_ok_new [OF default_breaker_config_ok] acq
    by (simp add: calm_env_def expire_open_period_def new_breaker_def del: exchange.simps)
qed

text \<open>
  a \<open>Retry-After\<close> of more digits than a float can hold ends the exchange with an
  \<open>OverflowError\<close>. \<open>retry_after_seconds\<close> promises \<open>None\<close> for nonsense, but catches only
  \<open>ValueError\<close>: a 503 answer with such a header to a first attempt raises out of the transport
  instead of being retried or returned.
\<close>

theorem huge_retry_after_escapes:
  "fst (handle_async_request http_date default_http_retry
          (\<lambda>_. calm_env (Answer \<lparr>status_code = 503, retry_after_header = Some huge_header\<rparr>)) get_request empty_registry)
     = RaisedOverflow"
proof -
  have "retry_after_seconds http_date 0 \<lparr>status_code = 503, retry_after_header = Some huge_header\<rparr> = Inl ()"
    unfolding retry_after_seconds_def huge_header_int Let_def
    by (simp only: http_response.simps option.case huge_header_int ten_400_overflows)
  then have delay: "delay_before_next http_date default_http_retry 0 1 (Some 60) get_request 1
      (Some \<lparr>status_code = 503, retry_after_header = Some huge_header\<rparr>) None True = Inl ()"
    by (simp add: delay_before_next_def refusal_reason_None [THEN iffD2] get_may_repeat delay_for_def
        default_http_retry_def Let_def)
  have three: "[1..attempts default_http_retry] = [1, 2, 3]" "req_sync_stream get_request"
    by (simp_all add: default_http_retry_def get_request_def upto_rec1)
  show ?thesis
    using delay by (simp add: three exchange_eval)
qed

text \<open>
  the compartment transport gives its slot back on every way out. Once the send has ended, by
  an exception, a timeout or a response whose body is already in memory, the slot is released;
  otherwise the response carries it and closing the response releases it.
\<close>

theorem slot_released_on_every_exit:
  assumes "j < length (slots_released s)"
  shows "case bulkhead_held cfg j inner s of
           (SlotBound resp i, s') \<Rightarrow> i = j \<and> slots_released (slot_bound_aclose i s') ! j
         | (_, s') \<Rightarrow> slots_released s' ! j"
proof -
  have "slots_released (slot_release j s) ! j"
    using assms by (auto simp: slot_release_def bulkhead_release_def split: prod.split option.split)
  then show ?thesis
    by (auto simp: bulkhead_held_def slot_bound_aclose_def split: inner_outcome.split option.split)
qed

theorem slot_released_on_every_exit_witness:
  "length (slots_released (enters 1)) = 1 \<and>
   slots_released (snd (bulkhead_held narrow_config 0 (InnerRaises SendCancelled) (enters 1))) ! 0"
proof -
  have len: "length (slots_released (enters 1)) = 1"
    by (simp add: bulkhead_eval)
  then show ?thesis
    using slot_released_on_every_exit [of 0 "enters 1" narrow_config "InnerRaises SendCancelled"]
    by (simp add: bulkhead_held_def)
qed

end
