(* ===== verification/Lock_Lease.thy ===== *)
theory Lock_Lease
  imports Py_Prelude
begin

text \<open>
  Leases, fencing tokens and the stores that grant them (\<open>src/src/distributed_lock/base.py\<close> and
  \<open>memory.py\<close>).

  The \<open>LockBackend\<close> protocol is the record \<open>lock_backend\<close> of its operations on a store of type
  \<open>'s\<close>; \<open>memory_backend\<close> is \<open>InMemoryLockBackend\<close>. What a client may rely on is the locale
  \<open>lock_provider\<close>: tokens count up per name, a live claim is not granted twice, only the token that
  holds a name can release or extend it. The in-memory store is an interpretation of it. Clients
  that acquire, renew and release in any order at increasing clock readings are the step relation
  \<open>lock_step\<close>, with what each client believes about its own lease.

  Each backend method holds an \<open>asyncio.Lock\<close> for its whole body, so that it is one step; it reads
  the clock up to twice, and the readings are its argument.
\<close>

section \<open>Definitions\<close>

subsection \<open>Names, leases and fencing\<close>

definition MAX_NAME_LENGTH :: nat where
  "MAX_NAME_LENGTH = 255"

definition FIRST_TOKEN :: int where
  "FIRST_TOKEN = 1"

definition name_char :: "char \<Rightarrow> bool" where
  "name_char c = (0x21 \<le> (of_char c :: nat) \<and> (of_char c :: nat) \<le> 0x7e)"

text \<open>
  \<open>re.match\<close> of \<open>^[\x21-\x7e]+$\<close>: in Python \<open>$\<close> matches at the end and also just before a newline
  that ends the string.
\<close>

definition name_re :: "string \<Rightarrow> bool" where
  "name_re s =
     (let body = (if s \<noteq> [] \<and> last s = CHR 10 then butlast s else s) in
      body \<noteq> [] \<and> list_all name_char body)"

datatype release_outcome = RELEASED | EXPIRED | NOT_OWNER

record lease =
  lease_name :: string
  token :: int
  lease_owner :: string
  lease_ttl :: seconds
  expires_at :: seconds

record lock_state =
  state_name :: string
  state_token :: int
  state_owner :: string
  state_ttl :: "seconds option"

datatype lock_error =
    NameEmpty
  | NameTooLong nat
  | NameNotPrintable
  | BackendUnavailable
  | LockUnavailable string nat seconds "lock_state option"
  | LockLost string int "release_outcome option"
  | StaleFencingToken string int int
  | AlreadyHeld string
  | NotHeld string

definition validate_lock_name :: "string \<Rightarrow> lock_error + string" where
  "validate_lock_name name =
     (if name = [] then Inl NameEmpty
      else if length name > MAX_NAME_LENGTH then Inl (NameTooLong (length name))
      else if \<not> name_re name then Inl NameNotPrintable
      else Inr name)"

definition lease_remaining :: "lease \<Rightarrow> seconds \<Rightarrow> seconds" where
  "lease_remaining l now = max 0 (expires_at l - now)"

definition lease_is_expired :: "lease \<Rightarrow> seconds \<Rightarrow> bool" where
  "lease_is_expired l now \<longleftrightarrow> now \<ge> expires_at l"

definition renewed_for :: "lease \<Rightarrow> seconds \<Rightarrow> seconds \<Rightarrow> lease" where
  "renewed_for l ttl expires = l\<lparr>lease_ttl := ttl, expires_at := expires\<rparr>"

definition fence_is_current :: "int \<Rightarrow> int option \<Rightarrow> bool" where
  "fence_is_current tok last_accepted = (case last_accepted of None \<Rightarrow> True | Some k \<Rightarrow> tok > k)"

definition require_fence :: "int \<Rightarrow> int option \<Rightarrow> string \<Rightarrow> lock_error + unit" where
  "require_fence tok last_accepted resource =
     (if \<not> fence_is_current tok last_accepted then Inl (StaleFencingToken resource tok (the last_accepted))
      else Inr ())"

subsection \<open>The backend protocol\<close>

type_synonym readings = "seconds \<times> seconds"

record 's lock_backend =
  be_acquire :: "readings \<Rightarrow> string \<Rightarrow> string \<Rightarrow> seconds \<Rightarrow> 's \<Rightarrow> (lock_error + lease option) \<times> 's"
  be_extend :: "readings \<Rightarrow> lease \<Rightarrow> seconds \<Rightarrow> 's \<Rightarrow> (lock_error + lease option) \<times> 's"
  be_release :: "readings \<Rightarrow> lease \<Rightarrow> 's \<Rightarrow> (lock_error + release_outcome) \<times> 's"
  be_inspect :: "readings \<Rightarrow> string \<Rightarrow> 's \<Rightarrow> (lock_error + lock_state option) \<times> 's"

subsection \<open>The in-memory store\<close>

record held_claim =
  held_token :: int
  held_owner :: string
  held_until :: seconds

record lock_store =
  held :: "string \<rightharpoonup> held_claim"
  counters :: "string \<rightharpoonup> int"

definition new_lock_store :: lock_store where
  "new_lock_store = \<lparr>held = Map.empty, counters = Map.empty\<rparr>"

definition mem_live :: "string \<Rightarrow> seconds \<Rightarrow> lock_store \<Rightarrow> held_claim option \<times> lock_store" where
  "mem_live name now s =
     (case held s name of
        None \<Rightarrow> (None, s)
      | Some h \<Rightarrow>
          if held_until h \<le> now then (None, s\<lparr>held := (held s)(name := None)\<rparr>)
          else (Some h, s))"

definition mem_acquire :: "readings \<Rightarrow> string \<Rightarrow> string \<Rightarrow> seconds \<Rightarrow> lock_store \<Rightarrow> (lock_error + lease option) \<times> lock_store" where
  "mem_acquire clock name owner ttl s =
     (case validate_lock_name name of
        Inl e \<Rightarrow> (Inl e, s)
      | Inr _ \<Rightarrow>
          (case mem_live name (fst clock) s of
             (Some _, s1) \<Rightarrow> (Inr None, s1)
           | (None, s1) \<Rightarrow>
               let started = snd clock;
                   tok = (case counters s1 name of None \<Rightarrow> 0 | Some c \<Rightarrow> c) + 1
               in (Inr (Some \<lparr>lease_name = name, token = tok, lease_owner = owner, lease_ttl = ttl,
                              expires_at = started + ttl\<rparr>),
                   s1\<lparr>counters := (counters s1)(name \<mapsto> tok),
                      held := (held s1)(name \<mapsto> \<lparr>held_token = tok, held_owner = owner,
                                                held_until = started + ttl\<rparr>)\<rparr>)))"

definition mem_extend :: "readings \<Rightarrow> lease \<Rightarrow> seconds \<Rightarrow> lock_store \<Rightarrow> (lock_error + lease option) \<times> lock_store" where
  "mem_extend clock l ttl s =
     (case mem_live (lease_name l) (fst clock) s of
        (None, s1) \<Rightarrow> (Inr None, s1)
      | (Some h, s1) \<Rightarrow>
          if held_token h \<noteq> token l then (Inr None, s1)
          else let started = snd clock in
               (Inr (Some (renewed_for l ttl (started + ttl))),
                s1\<lparr>held := (held s1)(lease_name l \<mapsto> h\<lparr>held_until := started + ttl\<rparr>)\<rparr>))"

definition mem_release :: "readings \<Rightarrow> lease \<Rightarrow> lock_store \<Rightarrow> (lock_error + release_outcome) \<times> lock_store" where
  "mem_release clock l s =
     (case mem_live (lease_name l) (fst clock) s of
        (None, s1) \<Rightarrow> (Inr EXPIRED, s1)
      | (Some h, s1) \<Rightarrow>
          if held_token h \<noteq> token l then (Inr NOT_OWNER, s1)
          else (Inr RELEASED, s1\<lparr>held := (held s1)(lease_name l := None)\<rparr>))"

definition mem_inspect :: "readings \<Rightarrow> string \<Rightarrow> lock_store \<Rightarrow> (lock_error + lock_state option) \<times> lock_store" where
  "mem_inspect clock name s =
     (case mem_live name (fst clock) s of
        (None, s1) \<Rightarrow> (Inr None, s1)
      | (Some h, s1) \<Rightarrow>
          (Inr (Some \<lparr>state_name = name, state_token = held_token h, state_owner = held_owner h,
                      state_ttl = Some (max 0 (held_until h - snd clock))\<rparr>), s1))"

definition mem_clear :: "lock_store \<Rightarrow> lock_store" where
  "mem_clear s = s\<lparr>held := Map.empty\<rparr>"

definition memory_backend :: "lock_store lock_backend" where
  "memory_backend = \<lparr>be_acquire = mem_acquire, be_extend = mem_extend, be_release = mem_release,
                     be_inspect = mem_inspect\<rparr>"

subsection \<open>Calls in sequence\<close>

text \<open>One call of a backend method, and its effect on the store.\<close>

datatype backend_call =
    CallAcquire readings string string seconds
  | CallExtend readings lease seconds
  | CallRelease readings lease
  | CallInspect readings string

datatype backend_reply =
    LeaseReply "lock_error + lease option"
  | ReleaseReply "lock_error + release_outcome"
  | StateReply "lock_error + lock_state option"

fun backend_exec :: "'s lock_backend \<Rightarrow> backend_call \<Rightarrow> 's \<Rightarrow> backend_reply \<times> 's" where
  "backend_exec B (CallAcquire clock n own ttl) s = map_prod LeaseReply id (be_acquire B clock n own ttl s)"
| "backend_exec B (CallExtend clock l ttl) s = map_prod LeaseReply id (be_extend B clock l ttl s)"
| "backend_exec B (CallRelease clock l) s = map_prod ReleaseReply id (be_release B clock l s)"
| "backend_exec B (CallInspect clock n) s = map_prod StateReply id (be_inspect B clock n s)"

fun grants :: "string \<Rightarrow> backend_call \<Rightarrow> backend_reply \<Rightarrow> bool" where
  "grants n (CallAcquire _ m _ _) (LeaseReply (Inr (Some l))) \<longleftrightarrow> m = n"
| "grants n _ _ \<longleftrightarrow> False"

subsection \<open>Clients of a store\<close>

text \<open>
  What the clients of a store know: the clock, the leases in the order they were acquired, every
  lease object handed out, and for each hold (a name and a token) the lease its holder has now. A
  hold ends for its holder when it releases, or when an extension is refused.
\<close>

record 's lock_world =
  store :: 's
  clock_now :: seconds
  acquired :: "lease list"
  handed :: "lease set"
  current :: "string \<times> int \<Rightarrow> lease option"

abbreviation hold_of :: "lease \<Rightarrow> string \<times> int" where
  "hold_of l \<equiv> (lease_name l, token l)"

definition note_acquire :: "lock_error + lease option \<Rightarrow> 's lock_world \<Rightarrow> 's lock_world" where
  "note_acquire r w =
     (case r of
        Inr (Some l) \<Rightarrow> w\<lparr>acquired := acquired w @ [l], handed := insert l (handed w),
                          current := (current w)(hold_of l \<mapsto> l)\<rparr>
      | _ \<Rightarrow> w)"

definition note_extend :: "lease \<Rightarrow> lock_error + lease option \<Rightarrow> 's lock_world \<Rightarrow> 's lock_world" where
  "note_extend l r w =
     (case r of
        Inr (Some l') \<Rightarrow> w\<lparr>handed := insert l' (handed w), current := (current w)(hold_of l' \<mapsto> l')\<rparr>
      | Inr None \<Rightarrow> w\<lparr>current := (current w)(hold_of l := None)\<rparr>
      | Inl _ \<Rightarrow> w)"

inductive lock_step :: "'s lock_backend \<Rightarrow> 's lock_world \<Rightarrow> 's lock_world \<Rightarrow> bool" for B where
  acquire: "clock_now w \<le> t1 \<Longrightarrow> t1 \<le> t2 \<Longrightarrow> be_acquire B (t1, t2) n own ttl (store w) = (r, s) \<Longrightarrow>
     lock_step B w (note_acquire r (w\<lparr>store := s, clock_now := t2\<rparr>))"
| extend: "clock_now w \<le> t1 \<Longrightarrow> t1 \<le> t2 \<Longrightarrow> l \<in> handed w \<Longrightarrow> be_extend B (t1, t2) l ttl (store w) = (r, s) \<Longrightarrow>
     lock_step B w (note_extend l r (w\<lparr>store := s, clock_now := t2\<rparr>))"
| release: "clock_now w \<le> t1 \<Longrightarrow> t1 \<le> t2 \<Longrightarrow> l \<in> handed w \<Longrightarrow> be_release B (t1, t2) l (store w) = (r', s) \<Longrightarrow>
     lock_step B w (w\<lparr>store := s, clock_now := t2, current := (current w)(hold_of l := None)\<rparr>)"
| inspect: "clock_now w \<le> t1 \<Longrightarrow> t1 \<le> t2 \<Longrightarrow> be_inspect B (t1, t2) n (store w) = (r'', s) \<Longrightarrow>
     lock_step B w (w\<lparr>store := s, clock_now := t2\<rparr>)"

definition new_world :: "'s \<Rightarrow> seconds \<Rightarrow> 's lock_world" where
  "new_world s t = \<lparr>store = s, clock_now = t, acquired = [], handed = {}, current = Map.empty\<rparr>"

abbreviation lock_reachable :: "'s lock_backend \<Rightarrow> 's \<Rightarrow> 's lock_world \<Rightarrow> bool" where
  "lock_reachable B s0 \<equiv> reach (\<lambda>w. w \<in> range (new_world s0)) (lock_step B)"

text \<open>A resource that checks every write with \<open>require_fence\<close> and keeps the token it applied last.\<close>

fun accepted_writes :: "string \<Rightarrow> int option \<Rightarrow> int list \<Rightarrow> int list" where
  "accepted_writes resource last_accepted [] = []"
| "accepted_writes resource last_accepted (tok # toks) =
     (case require_fence tok last_accepted resource of
        Inl _ \<Rightarrow> accepted_writes resource last_accepted toks
      | Inr _ \<Rightarrow> tok # accepted_writes resource (Some tok) toks)"

text \<open>Leases of one name in the order of their tokens.\<close>

definition in_token_order :: "lease list \<Rightarrow> bool" where
  "in_token_order = sorted_wrt (\<lambda>l m. lease_name l = lease_name m \<longrightarrow> token l < token m)"

section \<open>The provider contract\<close>

text \<open>
  \<open>issued s n\<close> is the highest token granted for \<open>n\<close>, \<open>holder s t n\<close> the token that holds \<open>n\<close> in
  \<open>s\<close> if nothing happens until \<open>t\<close>.
\<close>

locale lock_provider =
  fixes B :: "'s lock_backend"
    and inv :: "'s \<Rightarrow> bool"
    and issued :: "'s \<Rightarrow> string \<Rightarrow> int"
    and holder :: "'s \<Rightarrow> seconds \<Rightarrow> string \<Rightarrow> int option"
  assumes holder_issued: "inv s \<Longrightarrow> holder s t n = Some k \<Longrightarrow> k = issued s n"
    and acquire_granted: "inv s \<Longrightarrow> be_acquire B (t1, t2) n own ttl s = (Inr (Some l), s') \<Longrightarrow>
      inv s' \<and> holder s t1 n = None \<and> lease_name l = n \<and> token l = issued s n + 1 \<and>
      issued s' = (issued s)(n := token l) \<and>
      (\<forall>t\<ge>t1. holder s' t = (holder s t)(n := if t < expires_at l then Some (token l) else None))"
    and acquire_refused: "inv s \<Longrightarrow> be_acquire B (t1, t2) n own ttl s = (r, s') \<Longrightarrow> \<forall>l. r \<noteq> Inr (Some l) \<Longrightarrow>
      inv s' \<and> issued s' = issued s \<and> (\<forall>t\<ge>t1. holder s' t = holder s t)"
    and acquire_busy: "inv s \<Longrightarrow> be_acquire B (t1, t2) n own ttl s = (Inr None, s') \<Longrightarrow> holder s t1 n \<noteq> None"
    and extend_granted: "inv s \<Longrightarrow> be_extend B (t1, t2) l ttl s = (Inr (Some l'), s') \<Longrightarrow>
      inv s' \<and> issued s' = issued s \<and> hold_of l' = hold_of l \<and> holder s t1 (lease_name l) = Some (token l) \<and>
      (\<forall>t\<ge>t1. holder s' t = (holder s t)(lease_name l := if t < expires_at l' then Some (token l) else None))"
    and extend_refused: "inv s \<Longrightarrow> be_extend B (t1, t2) l ttl s = (r, s') \<Longrightarrow> \<forall>l. r \<noteq> Inr (Some l) \<Longrightarrow>
      inv s' \<and> issued s' = issued s \<and> (\<forall>t\<ge>t1. holder s' t = holder s t)"
    and release_released: "inv s \<Longrightarrow> be_release B (t1, t2) l s = (Inr RELEASED, s') \<Longrightarrow>
      inv s' \<and> issued s' = issued s \<and> holder s t1 (lease_name l) = Some (token l) \<and>
      (\<forall>t\<ge>t1. holder s' t = (holder s t)(lease_name l := None))"
    and release_refused: "inv s \<Longrightarrow> be_release B (t1, t2) l s = (r', s') \<Longrightarrow> r' \<noteq> Inr RELEASED \<Longrightarrow>
      inv s' \<and> issued s' = issued s \<and> (\<forall>t\<ge>t1. holder s' t = holder s t)"
    and inspect_keeps: "inv s \<Longrightarrow> be_inspect B (t1, t2) n s = (r'', s') \<Longrightarrow>
      inv s' \<and> issued s' = issued s \<and> (\<forall>t\<ge>t1. holder s' t = holder s t)"
begin

definition hold_ok :: "'s \<Rightarrow> seconds \<Rightarrow> string \<times> int \<Rightarrow> lease \<Rightarrow> bool" where
  "hold_ok s now k l \<longleftrightarrow> hold_of l = k \<and>
     (\<forall>t\<ge>now. t < expires_at l \<longrightarrow> holder s t (lease_name l) = Some (token l))"

definition world_inv :: "'s lock_world \<Rightarrow> bool" where
  "world_inv w \<longleftrightarrow>
     inv (store w) \<and> set (acquired w) \<subseteq> handed w \<and>
     (\<forall>l\<in>handed w. token l \<le> issued (store w) (lease_name l)) \<and>
     (\<forall>k l. current w k = Some l \<longrightarrow> hold_ok (store w) (clock_now w) k l) \<and>
     in_token_order (acquired w)"

lemma world_invI:
  assumes "inv (store w)" "set (acquired w) \<subseteq> handed w"
    and "\<And>l. l \<in> handed w \<Longrightarrow> token l \<le> issued (store w) (lease_name l)"
    and "\<And>k l. current w k = Some l \<Longrightarrow> hold_ok (store w) (clock_now w) k l"
    and "in_token_order (acquired w)"
  shows "world_inv w"
  using assms unfolding world_inv_def by blast

lemma world_invD:
  assumes "world_inv w"
  shows "inv (store w)" "set (acquired w) \<subseteq> handed w"
    and "l \<in> handed w \<Longrightarrow> token l \<le> issued (store w) (lease_name l)"
    and "current w k = Some l \<Longrightarrow> hold_ok (store w) (clock_now w) k l"
    and "in_token_order (acquired w)"
  using assms unfolding world_inv_def by blast+

lemma hold_okD:
  "hold_ok s now k l \<Longrightarrow> hold_of l = k"
  "hold_ok s now k l \<Longrightarrow> now \<le> t \<Longrightarrow> t < expires_at l \<Longrightarrow> holder s t (lease_name l) = Some (token l)"
  unfolding hold_ok_def by blast+

text \<open>
  A hold keeps its standing when the store still says the same of it, and a hold that the store does
  not confirm at some instant is over for its holder too.
\<close>

lemma hold_ok_frame:
  assumes "hold_ok s now k l" "now \<le> t1" "t1 \<le> t2" "\<And>t. t1 \<le> t \<Longrightarrow> holder s' t (lease_name l) = holder s t (lease_name l)"
  shows "hold_ok s' t2 k l"
  using assms unfolding hold_ok_def by (metis order_trans)

lemma hold_ok_over:
  assumes "hold_ok s now k l" "now \<le> t1" "t1 \<le> t2" "holder s t1 (lease_name l) \<noteq> Some (token l)"
  shows "hold_ok s' t2 k l"
proof -
  have "expires_at l \<le> t1"
    using hold_okD(2) [OF assms(1,2)] assms(4) by (meson not_le)
  with assms(1,3) show ?thesis by (auto simp: hold_ok_def)
qed

lemma world_inv_quiet:
  assumes w: "world_inv w" and t: "clock_now w \<le> t1" "t1 \<le> t2"
    and s: "inv s \<and> issued s = issued (store w) \<and> (\<forall>t\<ge>t1. holder s t = holder (store w) t)"
  shows "world_inv (w\<lparr>store := s, clock_now := t2\<rparr>)"
proof (rule world_invI)
  fix k l assume "current (w\<lparr>store := s, clock_now := t2\<rparr>) k = Some l"
  then show "hold_ok (store (w\<lparr>store := s, clock_now := t2\<rparr>)) (clock_now (w\<lparr>store := s, clock_now := t2\<rparr>)) k l"
    using hold_ok_frame [OF world_invD(4) [OF w] t] s by simp
qed (use s world_invD [OF w] in auto)

lemma world_inv_forget: "world_inv w \<Longrightarrow> world_inv (w\<lparr>current := (current w)(k := None)\<rparr>)"
  by (rule world_invI) (auto dest: world_invD split: if_splits)

lemma world_inv_acquire:
  assumes w: "world_inv w" and t: "clock_now w \<le> t1" "t1 \<le> t2"
    and r: "be_acquire B (t1, t2) n own ttl (store w) = (Inr (Some l), s)"
  shows "world_inv (w\<lparr>store := s, clock_now := t2, acquired := acquired w @ [l], handed := insert l (handed w),
                      current := (current w)(hold_of l \<mapsto> l)\<rparr>)" (is "world_inv ?w")
proof (rule world_invI)
  note g = acquire_granted [OF world_invD(1) [OF w] r]
  have old: "token m < token l" if "m \<in> handed w" "lease_name m = n" for m
    using world_invD(3) [OF w that(1)] that(2) g by simp
  show "token m \<le> issued (store ?w) (lease_name m)" if "m \<in> handed ?w" for m
    using that g old world_invD(3) [OF w] by (cases "m = l") (auto simp: less_imp_le)
  show "in_token_order (acquired ?w)"
    using world_invD(2,5) [OF w] old g by (auto simp: in_token_order_def sorted_wrt_append)
  show "hold_ok (store ?w) (clock_now ?w) k m" if "current ?w k = Some m" for k m
  proof (cases "k = hold_of l")
    case True
    with that g t show ?thesis by (auto simp: hold_ok_def)
  next
    case False
    with that have ok: "hold_ok (store w) (clock_now w) k m" using world_invD(4) [OF w] by simp
    show ?thesis
      using hold_ok_over [OF ok t] hold_ok_frame [OF ok t] g by (cases "lease_name m = n") auto
  qed
qed (use acquire_granted [OF world_invD(1) [OF w] r] world_invD [OF w] in auto)

lemma world_inv_extend:
  assumes w: "world_inv w" and t: "clock_now w \<le> t1" "t1 \<le> t2" and l: "l \<in> handed w"
    and r: "be_extend B (t1, t2) l ttl (store w) = (Inr (Some l'), s)"
  shows "world_inv (w\<lparr>store := s, clock_now := t2, handed := insert l' (handed w),
                      current := (current w)(hold_of l' \<mapsto> l')\<rparr>)" (is "world_inv ?w")
proof (rule world_invI)
  note g = extend_granted [OF world_invD(1) [OF w] r]
  show "token m \<le> issued (store ?w) (lease_name m)" if "m \<in> handed ?w" for m
    using that g l world_invD(3) [OF w] by (cases "m = l'") auto
  show "hold_ok (store ?w) (clock_now ?w) k m" if "current ?w k = Some m" for k m
  proof (cases "k = hold_of l'")
    case True
    with that g t show ?thesis by (auto simp: hold_ok_def)
  next
    case False
    with that have ok: "hold_ok (store w) (clock_now w) k m" using world_invD(4) [OF w] by simp
    with False hold_okD(1) [OF ok] g have "lease_name m = lease_name l \<Longrightarrow> token m \<noteq> token l" by auto
    then show ?thesis
      using hold_ok_over [OF ok t] hold_ok_frame [OF ok t] g by (cases "lease_name m = lease_name l") auto
  qed
qed (use extend_granted [OF world_invD(1) [OF w] r] world_invD [OF w] in auto)

lemma world_inv_release:
  assumes w: "world_inv w" and t: "clock_now w \<le> t1" "t1 \<le> t2"
    and r: "be_release B (t1, t2) l (store w) = (Inr RELEASED, s)"
  shows "world_inv (w\<lparr>store := s, clock_now := t2, current := (current w)(hold_of l := None)\<rparr>)" (is "world_inv ?w")
proof (rule world_invI)
  note g = release_released [OF world_invD(1) [OF w] r]
  show "hold_ok (store ?w) (clock_now ?w) k m" if "current ?w k = Some m" for k m
  proof -
    from that have ok: "hold_ok (store w) (clock_now w) k m" and "k \<noteq> hold_of l"
      using world_invD(4) [OF w] by (auto split: if_splits)
    with hold_okD(1) [OF ok] have "lease_name m = lease_name l \<Longrightarrow> token m \<noteq> token l" by auto
    then show ?thesis
      using hold_ok_over [OF ok t] hold_ok_frame [OF ok t] g by (cases "lease_name m = lease_name l") auto
  qed
qed (use release_released [OF world_invD(1) [OF w] r] world_invD [OF w] in auto)

lemma world_inv_step:
  assumes w: "world_inv w" and "lock_step B w w'"
  shows "world_inv w'"
  using assms(2)
proof cases
  case (acquire t1 t2 n own ttl r s)
  show ?thesis
  proof (cases "\<exists>l. r = Inr (Some l)")
    case True
    then obtain l where "r = Inr (Some l)" by blast
    with acquire world_inv_acquire [OF w acquire(2,3)] show ?thesis by (simp add: note_acquire_def)
  next
    case False
    then have "note_acquire r v = v" for v :: "'s lock_world"
      by (auto simp: note_acquire_def split: sum.split option.split)
    with acquire False world_inv_quiet [OF w acquire(2,3) acquire_refused [OF world_invD(1) [OF w]]] show ?thesis by auto
  qed
next
  case (extend t1 t2 l ttl r s)
  show ?thesis
  proof (cases "\<exists>l'. r = Inr (Some l')")
    case True
    then obtain l' where "r = Inr (Some l')" by blast
    with extend world_inv_extend [OF w extend(2-4)] show ?thesis by (simp add: note_extend_def)
  next
    case False
    then have "note_extend l r v \<in> {v, v\<lparr>current := (current v)(hold_of l := None)\<rparr>}" for v :: "'s lock_world"
      by (auto simp: note_extend_def split: sum.split option.split)
    moreover have quiet: "world_inv (w\<lparr>store := s, clock_now := t2\<rparr>)"
      using extend False world_inv_quiet [OF w extend(2,3) extend_refused [OF world_invD(1) [OF w]]] by auto
    ultimately show ?thesis
      using extend(1) world_inv_forget [OF quiet] by (metis insertE singletonD)
  qed
next
  case (release t1 t2 l r' s)
  show ?thesis
  proof (cases "r' = Inr RELEASED")
    case True
    with release world_inv_release [OF w release(2,3)] show ?thesis by simp
  next
    case False
    have "world_inv (w\<lparr>store := s, clock_now := t2\<rparr>)"
      using world_inv_quiet [OF w release(2,3) release_refused [OF world_invD(1) [OF w] release(5) False]] .
    from world_inv_forget [OF this, of "hold_of l"] release show ?thesis by simp
  qed
next
  case (inspect t1 t2 n r'' s)
  then show ?thesis
    using world_inv_quiet [OF w inspect(2,3) inspect_keeps [OF world_invD(1) [OF w] inspect(4)]] by simp
qed

lemma world_inv_new: "inv s0 \<Longrightarrow> world_inv (new_world s0 t)"
  by (simp add: world_inv_def new_world_def in_token_order_def)

lemma world_inv_reach: "reach (\<lambda>w. w \<in> range (new_world s0)) (lock_step B) w \<Longrightarrow> inv s0 \<Longrightarrow> world_inv w"
  by (induction rule: reach.induct) (auto intro: world_inv_new world_inv_step)

lemma one_live_hold:
  assumes "world_inv w" "current w k1 = Some l1" "current w k2 = Some l2" "lease_name l1 = lease_name l2"
    and "clock_now w \<le> t" "\<not> lease_is_expired l1 t" "\<not> lease_is_expired l2 t"
  shows "l1 = l2"
proof -
  note ok = world_invD(4) [OF assms(1,2)] world_invD(4) [OF assms(1,3)]
  have "holder (store w) t (lease_name l1) = Some (token l1)" "holder (store w) t (lease_name l2) = Some (token l2)"
    using assms(5-7) by (auto intro!: hold_okD(2) [OF ok(1)] hold_okD(2) [OF ok(2)] simp: lease_is_expired_def)
  with assms(4) have "k1 = k2"
    using hold_okD(1) [OF ok(1)] hold_okD(1) [OF ok(2)] by simp
  with assms(2,3) show ?thesis by simp
qed

text \<open>A call never lowers the highest token of a name, and raises it exactly when it grants the name.\<close>

lemma exec_issued:
  assumes "inv s" "backend_exec B c s = (r, s')"
  shows "inv s' \<and> issued s' n = issued s n + (if grants n c r then 1 else 0)"
proof (cases c)
  case (CallAcquire clock m own ttl)
  with assms(2) obtain a where a: "be_acquire B clock m own ttl s = (a, s')" "r = LeaseReply a"
    by (cases "be_acquire B clock m own ttl s") auto
  show ?thesis
  proof (cases "\<exists>l. a = Inr (Some l)")
    case True
    with a acquire_granted [OF assms(1)] CallAcquire show ?thesis
      by (cases clock) fastforce
  next
    case False
    with a acquire_refused [OF assms(1)] CallAcquire show ?thesis
      by (cases clock; cases a; cases "projr a") auto
  qed
next
  case (CallExtend clock l ttl)
  with assms(2) obtain a where a: "be_extend B clock l ttl s = (a, s')" "r = LeaseReply a"
    by (cases "be_extend B clock l ttl s") auto
  then show ?thesis
    using extend_granted [OF assms(1)] extend_refused [OF assms(1)] CallExtend
    by (cases clock; cases "\<exists>l. a = Inr (Some l)") fastforce+
next
  case (CallRelease clock l)
  with assms(2) obtain a where a: "be_release B clock l s = (a, s')" "r = ReleaseReply a"
    by (cases "be_release B clock l s") auto
  then show ?thesis
    using release_released [OF assms(1)] release_refused [OF assms(1)] CallRelease
    by (cases clock; cases "a = Inr RELEASED") fastforce+
next
  case (CallInspect clock m)
  with assms(2) obtain a where a: "be_inspect B clock m s = (a, s')" "r = StateReply a"
    by (cases "be_inspect B clock m s") auto
  then show ?thesis
    using inspect_keeps [OF assms(1)] CallInspect by (cases clock) fastforce
qed

end

section \<open>The in-memory store keeps the contract\<close>

definition mem_inv :: "lock_store \<Rightarrow> bool" where
  "mem_inv s \<longleftrightarrow> (\<forall>n h. held s n = Some h \<longrightarrow> counters s n = Some (held_token h))"

definition mem_issued :: "lock_store \<Rightarrow> string \<Rightarrow> int" where
  "mem_issued s n = (case counters s n of None \<Rightarrow> 0 | Some c \<Rightarrow> c)"

definition mem_holder :: "lock_store \<Rightarrow> seconds \<Rightarrow> string \<Rightarrow> int option" where
  "mem_holder s t n =
     (case held s n of None \<Rightarrow> None | Some h \<Rightarrow> if held_until h \<le> t then None else Some (held_token h))"

lemmas mem_defs = mem_acquire_def mem_extend_def mem_release_def mem_inspect_def mem_live_def
  mem_inv_def mem_issued_def mem_holder_def renewed_for_def memory_backend_def Let_def

lemma mem_live_spec:
  assumes "mem_live n t1 s = (h, s1)"
  shows "counters s1 = counters s" "held s1 n = h" "m \<noteq> n \<Longrightarrow> held s1 m = held s m"
    and "h = Some c \<Longrightarrow> t1 < held_until c" "mem_inv s \<Longrightarrow> mem_inv s1"
    and "t1 \<le> t \<Longrightarrow> mem_holder s1 t = mem_holder s t"
    and "mem_holder s t1 n = map_option held_token h"
proof -
  show "mem_holder s t1 n = map_option held_token h"
    using assms by (cases "held s n") (auto simp: mem_live_def mem_holder_def dest: sym split: if_splits)
qed (use assms in \<open>auto simp: mem_live_def mem_inv_def mem_holder_def fun_eq_iff split: option.splits if_splits\<close>)

lemma mem_holder_frame:
  "held s' = (held s)(n := c) \<Longrightarrow>
   mem_holder s' t = (mem_holder s t)(n := (case c of None \<Rightarrow> None | Some h \<Rightarrow> if held_until h \<le> t then None else Some (held_token h)))"
  by (simp add: mem_holder_def fun_eq_iff)

lemma mem_acquire_spec:
  assumes inv: "mem_inv s" and a: "mem_acquire (t1, t2) n own ttl s = (r, s')"
  shows "mem_inv s' \<and> (case r of
      Inr (Some l) \<Rightarrow> mem_holder s t1 n = None \<and> lease_name l = n \<and> token l = mem_issued s n + 1 \<and>
        mem_issued s' = (mem_issued s)(n := token l) \<and>
        (\<forall>t\<ge>t1. mem_holder s' t = (mem_holder s t)(n := if t < expires_at l then Some (token l) else None))
    | Inr None \<Rightarrow> mem_holder s t1 n \<noteq> None \<and> mem_issued s' = mem_issued s \<and> (\<forall>t\<ge>t1. mem_holder s' t = mem_holder s t)
    | Inl e \<Rightarrow> mem_issued s' = mem_issued s \<and> (\<forall>t\<ge>t1. mem_holder s' t = mem_holder s t))"
proof (cases "validate_lock_name n")
  case (Inl e)
  with inv a show ?thesis by (auto simp: mem_acquire_def)
next
  case (Inr n')
  obtain h s1 where live: "mem_live n t1 s = (h, s1)" by fastforce
  note spec = mem_live_spec [OF live]
  show ?thesis
  proof (cases h)
    case None
    with a Inr live have r: "r = Inr (Some \<lparr>lease_name = n, token = mem_issued s n + 1, lease_owner = own, lease_ttl = ttl, expires_at = t2 + ttl\<rparr>)"
      and s': "counters s' = (counters s1)(n \<mapsto> mem_issued s n + 1)"
        "held s' = (held s1)(n := Some \<lparr>held_token = mem_issued s n + 1, held_owner = own, held_until = t2 + ttl\<rparr>)"
      by (auto simp: mem_acquire_def mem_issued_def spec(1) Let_def)
    have "mem_inv s'"
      using spec(5) [OF inv] s' by (auto simp: mem_inv_def)
    moreover have "mem_issued s' = (mem_issued s)(n := mem_issued s n + 1)"
      using s'(1) spec(1) by (simp add: mem_issued_def fun_eq_iff)
    ultimately show ?thesis
      using mem_holder_frame [OF s'(2)] spec(6,7) None by (simp add: r not_le [symmetric])
  next
    case (Some c)
    with a Inr live have "r = Inr None" "s' = s1" by (auto simp: mem_acquire_def)
    then show ?thesis
      using spec(1,5,6,7) inv Some by (simp add: mem_issued_def fun_eq_iff)
  qed
qed

lemma mem_extend_spec:
  assumes inv: "mem_inv s" and a: "mem_extend (t1, t2) l ttl s = (r, s')"
  shows "mem_inv s' \<and> mem_issued s' = mem_issued s \<and> (case r of
      Inr (Some l') \<Rightarrow> hold_of l' = hold_of l \<and> mem_holder s t1 (lease_name l) = Some (token l) \<and>
        (\<forall>t\<ge>t1. mem_holder s' t = (mem_holder s t)(lease_name l := if t < expires_at l' then Some (token l) else None))
    | _ \<Rightarrow> (\<forall>t\<ge>t1. mem_holder s' t = mem_holder s t))"
proof -
  obtain h s1 where live: "mem_live (lease_name l) t1 s = (h, s1)" by fastforce
  note spec = mem_live_spec [OF live]
  show ?thesis
  proof (cases "\<exists>c. h = Some c \<and> held_token c = token l")
    case True
    then obtain c where c: "h = Some c" "held_token c = token l" by blast
    with a live have r: "r = Inr (Some (renewed_for l ttl (t2 + ttl)))" and s': "counters s' = counters s1"
        "held s' = (held s1)(lease_name l := Some (c\<lparr>held_until := t2 + ttl\<rparr>))"
      by (auto simp: mem_extend_def Let_def)
    have "mem_inv s'"
      using spec(2) spec(5) [OF inv] s' c by (auto simp: mem_inv_def)
    then show ?thesis
      using mem_holder_frame [OF s'(2)] spec(1,6,7) s'(1) c
      by (simp add: r renewed_for_def mem_issued_def fun_eq_iff not_le [symmetric])
  next
    case False
    with a live have "r = Inr None" "s' = s1" by (auto simp: mem_extend_def split: option.splits)
    then show ?thesis
      using spec(1,5,6) inv by (simp add: mem_issued_def fun_eq_iff)
  qed
qed

lemma mem_release_spec:
  assumes inv: "mem_inv s" and a: "mem_release (t1, t2) l s = (r, s')"
  shows "mem_inv s' \<and> mem_issued s' = mem_issued s \<and>
     (if r = Inr RELEASED
      then mem_holder s t1 (lease_name l) = Some (token l) \<and> (\<forall>t\<ge>t1. mem_holder s' t = (mem_holder s t)(lease_name l := None))
      else (\<forall>t\<ge>t1. mem_holder s' t = mem_holder s t))"
proof -
  obtain h s1 where live: "mem_live (lease_name l) t1 s = (h, s1)" by fastforce
  note spec = mem_live_spec [OF live]
  show ?thesis
  proof (cases "\<exists>c. h = Some c \<and> held_token c = token l")
    case True
    then obtain c where c: "h = Some c" "held_token c = token l" by blast
    with a live have r: "r = Inr RELEASED" and s': "counters s' = counters s1" "held s' = (held s1)(lease_name l := None)"
      by (auto simp: mem_release_def)
    have "mem_inv s'"
      using spec(5) [OF inv] s' by (auto simp: mem_inv_def)
    then show ?thesis
      using mem_holder_frame [OF s'(2)] spec(1,6,7) s'(1) c by (simp add: r mem_issued_def fun_eq_iff)
  next
    case False
    with a live have "r \<noteq> Inr RELEASED" "s' = s1" by (auto simp: mem_release_def split: option.splits)
    then show ?thesis
      using spec(1,5,6) inv by (simp add: mem_issued_def fun_eq_iff)
  qed
qed

lemma mem_inspect_spec:
  assumes inv: "mem_inv s" and a: "mem_inspect (t1, t2) n s = (r, s')"
  shows "mem_inv s' \<and> mem_issued s' = mem_issued s \<and> (\<forall>t\<ge>t1. mem_holder s' t = mem_holder s t)"
proof -
  obtain h s1 where live: "mem_live n t1 s = (h, s1)" by fastforce
  with a have "s' = s1" by (cases h) (auto simp: mem_inspect_def)
  with mem_live_spec(1,5,6) [OF live] inv show ?thesis by (simp add: mem_issued_def fun_eq_iff)
qed

lemma memory_backend_ops [simp]:
  "be_acquire memory_backend = mem_acquire" "be_extend memory_backend = mem_extend"
  "be_release memory_backend = mem_release" "be_inspect memory_backend = mem_inspect"
  by (simp_all add: memory_backend_def)

interpretation memory: lock_provider memory_backend mem_inv mem_issued mem_holder
proof (unfold_locales, unfold memory_backend_ops)
  fix s s' :: lock_store and t1 t2 ttl :: seconds and n own :: string
  assume inv: "mem_inv s"
  show "mem_holder s t n = Some k \<Longrightarrow> k = mem_issued s n" for t k
    using inv by (auto simp: mem_inv_def mem_holder_def mem_issued_def split: option.splits if_splits)
  note acquire = mem_acquire_spec [OF inv, of t1 t2 n own ttl _ s']
  show "mem_acquire (t1, t2) n own ttl s = (Inr (Some l), s') \<Longrightarrow>
      mem_inv s' \<and> mem_holder s t1 n = None \<and> lease_name l = n \<and> token l = mem_issued s n + 1 \<and>
      mem_issued s' = (mem_issued s)(n := token l) \<and>
      (\<forall>t\<ge>t1. mem_holder s' t = (mem_holder s t)(n := if t < expires_at l then Some (token l) else None))" for l
    using acquire [of "Inr (Some l)"] by simp
  show "mem_acquire (t1, t2) n own ttl s = (r, s') \<Longrightarrow> \<forall>l. r \<noteq> Inr (Some l) \<Longrightarrow>
      mem_inv s' \<and> mem_issued s' = mem_issued s \<and> (\<forall>t\<ge>t1. mem_holder s' t = mem_holder s t)" for r
    using acquire [of r] by (simp split: sum.splits option.splits)
  show "mem_acquire (t1, t2) n own ttl s = (Inr None, s') \<Longrightarrow> mem_holder s t1 n \<noteq> None"
    using acquire [of "Inr None"] by simp
  note extend = mem_extend_spec [OF inv, of t1 t2 _ ttl _ s']
  show "mem_extend (t1, t2) l ttl s = (Inr (Some l'), s') \<Longrightarrow>
      mem_inv s' \<and> mem_issued s' = mem_issued s \<and> hold_of l' = hold_of l \<and> mem_holder s t1 (lease_name l) = Some (token l) \<and>
      (\<forall>t\<ge>t1. mem_holder s' t = (mem_holder s t)(lease_name l := if t < expires_at l' then Some (token l) else None))" for l l'
    using extend [of l "Inr (Some l')"] by simp
  show "mem_extend (t1, t2) l ttl s = (r, s') \<Longrightarrow> \<forall>l. r \<noteq> Inr (Some l) \<Longrightarrow>
      mem_inv s' \<and> mem_issued s' = mem_issued s \<and> (\<forall>t\<ge>t1. mem_holder s' t = mem_holder s t)" for l r
    using extend [of l r] by (simp split: sum.splits option.splits)
  show "mem_release (t1, t2) l s = (Inr RELEASED, s') \<Longrightarrow>
      mem_inv s' \<and> mem_issued s' = mem_issued s \<and> mem_holder s t1 (lease_name l) = Some (token l) \<and>
      (\<forall>t\<ge>t1. mem_holder s' t = (mem_holder s t)(lease_name l := None))" for l
    using mem_release_spec [OF inv, of t1 t2 l "Inr RELEASED" s'] by simp
  show "mem_release (t1, t2) l s = (r, s') \<Longrightarrow> r \<noteq> Inr RELEASED \<Longrightarrow>
      mem_inv s' \<and> mem_issued s' = mem_issued s \<and> (\<forall>t\<ge>t1. mem_holder s' t = mem_holder s t)" for l r
    using mem_release_spec [OF inv, of t1 t2 l r s'] by simp
  show "mem_inspect (t1, t2) n s = (r, s') \<Longrightarrow>
      mem_inv s' \<and> mem_issued s' = mem_issued s \<and> (\<forall>t\<ge>t1. mem_holder s' t = mem_holder s t)" for r
    by (rule mem_inspect_spec [OF inv])
qed

lemma mem_inv_new: "mem_inv new_lock_store"
  by (simp add: mem_inv_def new_lock_store_def)

lemma reachable_world_inv: "lock_reachable memory_backend new_lock_store w \<Longrightarrow> memory.world_inv w"
  by (rule memory.world_inv_reach [OF _ mem_inv_new])

lemma mem_clear_keeps: "mem_inv (mem_clear s)" "mem_issued (mem_clear s) = mem_issued s"
  by (auto simp: mem_clear_def mem_inv_def mem_issued_def)

lemma accepted_above:
  "sorted_wrt (<) (accepted_writes resource last_accepted toks) \<and>
   (\<forall>tok\<in>set (accepted_writes resource last_accepted toks). fence_is_current tok last_accepted)"
proof (induction toks arbitrary: last_accepted)
  case (Cons tok toks)
  have step: "fence_is_current a (Some b) \<Longrightarrow> fence_is_current b c \<Longrightarrow> fence_is_current a c" for a b c
    by (auto simp: fence_is_current_def split: option.splits)
  show ?case
    using Cons.IH [of last_accepted] Cons.IH [of "Some tok"]
    by (auto simp: require_fence_def step) (auto simp: fence_is_current_def)
qed simp

subsection \<open>Two clients in turn\<close>

text \<open>One client takes a name for ten seconds and never comes back; another takes it at twenty.\<close>

definition first_lease :: lease where
  "first_lease = \<lparr>lease_name = ''job'', token = 1, lease_owner = ''a'', lease_ttl = 10, expires_at = 10\<rparr>"

definition second_lease :: lease where
  "second_lease = \<lparr>lease_name = ''job'', token = 2, lease_owner = ''b'', lease_ttl = 10, expires_at = 30\<rparr>"

lemma job_is_valid: "validate_lock_name ''job'' = Inr ''job''"
  by code_simp

definition two_turns :: "lock_store lock_world" where
  "two_turns = \<lparr>store = snd (mem_acquire (20, 20) ''job'' ''b'' 10 (snd (mem_acquire (0, 0) ''job'' ''a'' 10 new_lock_store))),
     clock_now = 20, acquired = [first_lease, second_lease], handed = {second_lease, first_lease},
     current = [hold_of first_lease \<mapsto> first_lease, hold_of second_lease \<mapsto> second_lease]\<rparr>"

lemma two_turns_reachable: "lock_reachable memory_backend new_lock_store two_turns"
proof -
  define s1 where "s1 = snd (mem_acquire (0, 0) ''job'' ''a'' 10 new_lock_store)"
  have a1: "be_acquire memory_backend (0, 0) ''job'' ''a'' 10 new_lock_store = (Inr (Some first_lease), s1)"
    by (simp add: s1_def mem_defs job_is_valid new_lock_store_def first_lease_def)
  have a2: "be_acquire memory_backend (20, 20) ''job'' ''b'' 10 s1 = (Inr (Some second_lease), store two_turns)"
    by (simp add: s1_def two_turns_def mem_defs job_is_valid new_lock_store_def second_lease_def)
  define w0 w1 where "w0 = new_world new_lock_store 0"
    and "w1 = note_acquire (Inr (Some first_lease)) (w0\<lparr>store := s1, clock_now := 0\<rparr>)"
  have r0: "lock_reachable memory_backend new_lock_store w0"
    by (rule reach_init) (simp add: w0_def)
  have r1: "lock_reachable memory_backend new_lock_store w1"
    unfolding w1_def
    by (rule reach_step [OF r0], rule lock_step.acquire [of _ 0 0 _ "''job''" "''a''" 10])
      (use a1 in \<open>simp_all add: w0_def new_world_def\<close>)
  have "lock_reachable memory_backend new_lock_store
      (note_acquire (Inr (Some second_lease)) (w1\<lparr>store := store two_turns, clock_now := 20\<rparr>))"
    by (rule reach_step [OF r1], rule lock_step.acquire [of _ 20 20 _ "''job''" "''b''" 10])
      (use a2 in \<open>simp_all add: w1_def w0_def new_world_def note_acquire_def\<close>)
  then show ?thesis
    by (simp add: two_turns_def w1_def w0_def new_world_def note_acquire_def)
qed

section \<open>Properties\<close>

text \<open>
  C3: mutual exclusion. Whatever the clients of the in-memory store do and however the clock runs,
  two different leases on the same name that their holders have not given up are never both
  unexpired, by the holders' own account.
\<close>

theorem one_holder_at_a_time:
  assumes "lock_reachable memory_backend new_lock_store w"
    and "current w k1 = Some l1" "current w k2 = Some l2" "lease_name l1 = lease_name l2" "l1 \<noteq> l2"
    and "clock_now w \<le> t"
  shows "lease_is_expired l1 t \<or> lease_is_expired l2 t"
  using memory.one_live_hold [OF reachable_world_inv] assms by blast

theorem one_holder_at_a_time_witness:
  "current two_turns (''job'', 1) = Some first_lease \<and> current two_turns (''job'', 2) = Some second_lease \<and>
   (lease_is_expired first_lease 25 \<or> lease_is_expired second_lease 25)"
proof -
  have cur: "current two_turns (''job'', 1) = Some first_lease" "current two_turns (''job'', 2) = Some second_lease"
    by (simp_all add: two_turns_def first_lease_def second_lease_def)
  then show ?thesis
    using one_holder_at_a_time [OF two_turns_reachable cur, of 25]
    by (simp add: first_lease_def second_lease_def two_turns_def)
qed

text \<open>
  C30: fencing tokens order the holds. Of two leases on one name the one acquired later has the
  larger token; once a resource has applied a write of the later hold, \<open>require_fence\<close> refuses
  every write of the earlier one; and in any sequence of writes the resource applies tokens in
  strictly increasing order.
\<close>

theorem fencing_orders_holds:
  assumes "lock_reachable memory_backend new_lock_store w"
    and "i < j" "j < length (acquired w)" "lease_name (acquired w ! i) = lease_name (acquired w ! j)"
  shows "token (acquired w ! i) < token (acquired w ! j) \<and>
         require_fence (token (acquired w ! i)) (Some (token (acquired w ! j))) resource =
           Inl (StaleFencingToken resource (token (acquired w ! i)) (token (acquired w ! j))) \<and>
         sorted_wrt (<) (accepted_writes resource last_accepted toks)"
proof -
  have "token (acquired w ! i) < token (acquired w ! j)"
    using memory.world_invD(5) [OF reachable_world_inv [OF assms(1)]] assms(2-4)
    by (auto simp: in_token_order_def sorted_wrt_iff_nth_less)
  then show ?thesis
    using accepted_above by (auto simp: require_fence_def fence_is_current_def)
qed

theorem fencing_orders_holds_witness:
  "acquired two_turns = [first_lease, second_lease] \<and>
   require_fence (token first_lease) (Some (token second_lease)) ''ledger'' = Inl (StaleFencingToken ''ledger'' 1 2) \<and>
   sorted_wrt (<) (accepted_writes ''ledger'' None [1, 2, 1, 3])"
  using fencing_orders_holds [OF two_turns_reachable, of 0 1 "''ledger''" None "[1, 2, 1, 3]"]
  by (simp add: two_turns_def first_lease_def second_lease_def)

text \<open>
  \<open>validate_lock_name\<close> lets a newline through at the end of a name. A valid name is accepted with
  a newline appended as long as it fits the length limit, because \<open>$\<close> also matches before a final
  newline; the comment on \<open>_NAME_RE\<close> says the pattern keeps newlines out of log lines.
\<close>

theorem lock_name_may_end_in_newline:
  assumes "validate_lock_name name = Inr name" and "length name < MAX_NAME_LENGTH" and "last name \<noteq> CHR 10"
  shows "validate_lock_name (name @ [CHR 10]) = Inr (name @ [CHR 10])"
  using assms by (auto simp: validate_lock_name_def name_re_def split: if_splits)

theorem lock_name_may_end_in_newline_witness:
  "validate_lock_name (''job'' @ [CHR 10]) = Inr (''job'' @ [CHR 10])"
proof (rule lock_name_may_end_in_newline [OF job_is_valid])
  show "length ''job'' < MAX_NAME_LENGTH" by code_simp
  show "last ''job'' \<noteq> CHR 10" by code_simp
qed

text \<open>
  The docstring of \<open>renewed_for\<close> says that a resource which accepted a write under a token keeps
  accepting writes of the same hold; \<open>require_fence\<close> compares strictly, so that after the first write
  the renewed lease is stale.
\<close>

lemma renewed_lease_fences_itself_out:
  "require_fence (token (renewed_for l ttl expires)) (Some (token l)) resource =
     Inl (StaleFencingToken resource (token l) (token l))"
  by (simp add: renewed_for_def require_fence_def fence_is_current_def)

end
