(* ===== verification/Distributed_Lock.thy ===== *)
theory Distributed_Lock
  imports Lock_Lease Retry_Loops
begin

text \<open>
  The lock a caller uses (\<open>src/src/distributed_lock/lock.py\<close>): \<open>DistributedLock\<close> with its waiting loop,
  its renewal task and its two ends \<open>__aenter__\<close> and \<open>__aexit__\<close>, over any \<open>lock_backend\<close>.

  At every \<open>await\<close> other clients of the store may run; what they do is a list of backend calls. The
  waiting loop is written with fuel, the number of attempts it may make, and gives \<open>None\<close> when it is
  still waiting after them; \<open>lock_wait_ends_at_the_deadline\<close> shows how much is enough.
\<close>

section \<open>Definitions\<close>

record lock_config =
  lock_name :: string
  lock_ttl :: seconds
  wait_timeout :: seconds
  renew_interval :: "seconds option"
  lock_owner :: string
  retry_base_delay :: seconds
  retry_max_delay :: seconds
  lock_jitter :: bool

definition default_lock_config :: "string \<Rightarrow> string \<Rightarrow> lock_config" where
  "default_lock_config name owner =
     \<lparr>lock_name = name, lock_ttl = 30, wait_timeout = 0, renew_interval = None, lock_owner = owner,
      retry_base_delay = 1 / 20, retry_max_delay = 1, lock_jitter = True\<rparr>"

definition lock_config_error :: "lock_config \<Rightarrow> (lock_error + string) option" where
  "lock_config_error c =
     (case validate_lock_name (lock_name c) of
        Inl e \<Rightarrow> Some (Inl e)
      | Inr _ \<Rightarrow>
          if lock_ttl c \<le> 0 then Some (Inr ''ttl_seconds must be positive.'')
          else if wait_timeout c < 0 then Some (Inr ''wait_timeout must not be negative.'')
          else if retry_base_delay c \<le> 0 then Some (Inr ''retry_base_delay must be positive.'')
          else if retry_max_delay c < retry_base_delay c
          then Some (Inr ''retry_max_delay must be at least retry_base_delay.'')
          else (case renew_interval c of
                  None \<Rightarrow> None
                | Some r \<Rightarrow>
                    if \<not> (0 < r \<and> r < lock_ttl c)
                    then Some (Inr ''renew_interval must be positive and shorter than ttl_seconds.'')
                    else None))"

abbreviation lock_config_ok :: "lock_config \<Rightarrow> bool" where
  "lock_config_ok c \<equiv> lock_config_error c = None"

text \<open>
  The renewal task: absent, running, returned, or ended by an exception that the next \<open>await\<close> on it
  raises.
\<close>

datatype renewer = NoRenewer | Renewing | RenewerDone | RenewerFailed lock_error

record lock_object =
  cur_lease :: "lease option"
  renewal :: renewer
  lost :: bool

definition new_lock :: lock_object where
  "new_lock = \<lparr>cur_lease = None, renewal = NoRenewer, lost = False\<rparr>"

definition lock_lease :: "lock_config \<Rightarrow> lock_object \<Rightarrow> lock_error + lease" where
  "lock_lease c L = (case cur_lease L of None \<Rightarrow> Inl (NotHeld (lock_name c)) | Some l \<Rightarrow> Inr l)"

subsection \<open>Waiting for the name\<close>

fun backend_run :: "'s lock_backend \<Rightarrow> backend_call list \<Rightarrow> 's \<Rightarrow> 's" where
  "backend_run B [] s = s"
| "backend_run B (c # cs) s = backend_run B cs (snd (backend_exec B c s))"

text \<open>
  What attempt \<open>k\<close> (from 0) meets: the calls of other clients before it, the readings of the backend's
  clock, the reading after a refusal, the random draw of the backoff, and the calls and readings
  before the \<open>inspect\<close> of a final refusal.
\<close>

record acquire_env =
  acq_before :: "backend_call list"
  acq_clock :: readings
  acq_now :: seconds
  acq_draw :: rat
  acq_between :: "backend_call list"
  acq_inspect :: readings

definition lock_unavailable ::
    "'s lock_backend \<Rightarrow> lock_config \<Rightarrow> acquire_env \<Rightarrow> nat \<Rightarrow> seconds \<Rightarrow> 's \<Rightarrow> lock_error \<times> 's" where
  "lock_unavailable B c e attempts waited s =
     (case be_inspect B (acq_inspect e) (lock_name c) (backend_run B (acq_between e) s) of
        (Inl err, s1) \<Rightarrow> (err, s1)
      | (Inr st, s1) \<Rightarrow> (LockUnavailable (lock_name c) attempts waited st, s1))"

definition lock_backoff :: "lock_config \<Rightarrow> nat \<Rightarrow> rat \<Rightarrow> seconds" where
  "lock_backoff c attempt u = backoff_delay (int attempt) (retry_base_delay c) (retry_max_delay c) (lock_jitter c) u"

fun acquire_from ::
    "'s lock_backend \<Rightarrow> lock_config \<Rightarrow> (nat \<Rightarrow> acquire_env) \<Rightarrow> seconds \<Rightarrow> nat \<Rightarrow> nat \<Rightarrow> 's \<Rightarrow>
     (lock_error + lease) option \<times> seconds list \<times> 's" where
  "acquire_from B c env deadline 0 attempt s = (None, [], s)"
| "acquire_from B c env deadline (Suc fuel) attempt s =
     (let e = env attempt in
      case be_acquire B (acq_clock e) (lock_name c) (lock_owner c) (lock_ttl c) (backend_run B (acq_before e) s) of
        (Inl err, s1) \<Rightarrow> (Some (Inl err), [], s1)
      | (Inr (Some l), s1) \<Rightarrow> (Some (Inr l), [], s1)
      | (Inr None, s1) \<Rightarrow>
          if acq_now e \<ge> deadline
          then (case lock_unavailable B c e (attempt + 1) (wait_timeout c) s1 of (err, s2) \<Rightarrow> (Some (Inl err), [], s2))
          else (let delay = min (lock_backoff c (attempt + 1) (acq_draw e)) (deadline - acq_now e) in
                case acquire_from B c env deadline fuel (attempt + 1) s1 of
                  (r, ds, s2) \<Rightarrow> (r, delay # ds, s2)))"

definition lock_acquire ::
    "'s lock_backend \<Rightarrow> lock_config \<Rightarrow> (nat \<Rightarrow> acquire_env) \<Rightarrow> seconds \<Rightarrow> nat \<Rightarrow> 's \<Rightarrow>
     (lock_error + lease) option \<times> seconds list \<times> 's" where
  "lock_acquire B c env t0 fuel s = acquire_from B c env (t0 + wait_timeout c) fuel 0 s"

subsection \<open>Entering, renewing, leaving\<close>

definition lock_aenter ::
    "'s lock_backend \<Rightarrow> lock_config \<Rightarrow> (nat \<Rightarrow> acquire_env) \<Rightarrow> seconds \<Rightarrow> nat \<Rightarrow> lock_object \<Rightarrow> 's \<Rightarrow>
     (lock_error + lease) option \<times> seconds list \<times> lock_object \<times> 's" where
  "lock_aenter B c env t0 fuel L s =
     (case cur_lease L of
        Some _ \<Rightarrow> (Some (Inl (AlreadyHeld (lock_name c))), [], L, s)
      | None \<Rightarrow>
          (case lock_acquire B c env t0 fuel s of
             (Some (Inr l), ds, s1) \<Rightarrow>
               (Some (Inr l), ds,
                L\<lparr>cur_lease := Some l, lost := False,
                  renewal := (if renew_interval c \<noteq> None then Renewing else renewal L)\<rparr>, s1)
           | (r, ds, s1) \<Rightarrow> (r, ds, L, s1)))"

text \<open>One round of \<open>_renew_forever\<close>, after its sleep.\<close>

definition renew_tick ::
    "'s lock_backend \<Rightarrow> lock_config \<Rightarrow> readings \<Rightarrow> lock_object \<Rightarrow> 's \<Rightarrow> lock_object \<times> 's" where
  "renew_tick B c clock L s =
     (if renewal L \<noteq> Renewing then (L, s)
      else case cur_lease L of
        None \<Rightarrow> (L\<lparr>renewal := RenewerDone\<rparr>, s)
      | Some l \<Rightarrow>
          (case be_extend B clock l (lock_ttl c) s of
             (Inl BackendUnavailable, s1) \<Rightarrow> (L, s1)
           | (Inl err, s1) \<Rightarrow> (L\<lparr>renewal := RenewerFailed err\<rparr>, s1)
           | (Inr None, s1) \<Rightarrow> (L\<lparr>lost := True, renewal := RenewerDone\<rparr>, s1)
           | (Inr (Some l'), s1) \<Rightarrow> (L\<lparr>cur_lease := Some l'\<rparr>, s1)))"

definition stop_renewer :: "lock_object \<Rightarrow> lock_error option \<times> lock_object" where
  "stop_renewer L =
     (case renewal L of
        RenewerFailed err \<Rightarrow> (Some err, L\<lparr>renewal := NoRenewer\<rparr>)
      | _ \<Rightarrow> (None, L\<lparr>renewal := NoRenewer\<rparr>))"

definition lock_release ::
    "'s lock_backend \<Rightarrow> readings \<Rightarrow> lease \<Rightarrow> 's \<Rightarrow> (lock_error + release_outcome option) \<times> 's" where
  "lock_release B clock l s =
     (case be_release B clock l s of
        (Inl BackendUnavailable, s1) \<Rightarrow> (Inr None, s1)
      | (Inl err, s1) \<Rightarrow> (Inl err, s1)
      | (Inr out, s1) \<Rightarrow> (Inr (Some out), s1))"

text \<open>
  \<open>__aexit__\<close> returns, so that the block ends as its body did, or raises; \<open>body_failed\<close> is
  \<open>exc is not None\<close>.
\<close>

datatype exit_result = ExitReturns | ExitRaises lock_error

definition lock_aexit ::
    "'s lock_backend \<Rightarrow> lock_config \<Rightarrow> readings \<Rightarrow> bool \<Rightarrow> lock_object \<Rightarrow> 's \<Rightarrow> exit_result \<times> lock_object \<times> 's" where
  "lock_aexit B c clock body_failed L s =
     (if cur_lease L = None then (ExitReturns, L, s)
      else case stop_renewer L of
        (Some err, L1) \<Rightarrow> (ExitRaises err, L1, s)
      | (None, L1) \<Rightarrow>
          (let l = the (cur_lease L1); L2 = L1\<lparr>cur_lease := None\<rparr> in
           case lock_release B clock l s of
             (Inl err, s1) \<Rightarrow> (ExitRaises err, L2, s1)
           | (Inr outcome, s1) \<Rightarrow>
               (let gone = (lost L2 \<or> outcome \<noteq> None \<and> outcome \<noteq> Some RELEASED) in
                if \<not> gone then (ExitReturns, L2, s1)
                else if body_failed then (ExitReturns, L2, s1)
                else (ExitRaises (LockLost (lock_name c) (token l) outcome), L2, s1))))"

subsection \<open>A critical section\<close>

text \<open>
  What happens between the two ends of a block: calls of other clients, and rounds of the lock's own
  renewal task. The run keeps the other clients' calls with their replies.
\<close>

datatype section_act = Other backend_call | Renew readings

fun section_run ::
    "'s lock_backend \<Rightarrow> lock_config \<Rightarrow> section_act list \<Rightarrow> lock_object \<Rightarrow> 's \<Rightarrow>
     (backend_call \<times> backend_reply) list \<times> lock_object \<times> 's" where
  "section_run B c [] L s = ([], L, s)"
| "section_run B c (Other call # acts) L s =
     (case backend_exec B call s of
        (reply, s1) \<Rightarrow> map_prod (Cons (call, reply)) id (section_run B c acts L s1))"
| "section_run B c (Renew clock # acts) L s =
     (case renew_tick B c clock L s of (L1, s1) \<Rightarrow> section_run B c acts L1 s1)"

definition name_taken :: "string \<Rightarrow> (backend_call \<times> backend_reply) list \<Rightarrow> bool" where
  "name_taken n trace = list_ex (\<lambda>(call, reply). grants n call reply) trace"

section \<open>Lemmas\<close>

subsection \<open>Sections over any provider\<close>

context lock_provider
begin

lemma run_inv: "inv s \<Longrightarrow> inv (backend_run B cs s)"
proof (induction cs arbitrary: s)
  case (Cons c cs)
  then show ?case using exec_issued [of s c] by (cases "backend_exec B c s") auto
qed simp

lemma acquire_from_granted:
  assumes "inv s" "acquire_from B c env deadline fuel attempt s = (Some (Inr l), ds, s')"
  shows "inv s' \<and> lease_name l = lock_name c \<and> token l = issued s' (lock_name c)"
  using assms
proof (induction fuel arbitrary: attempt s ds)
  case (Suc fuel)
  define s0 where "s0 = backend_run B (acq_before (env attempt)) s"
  obtain r s1 where r: "be_acquire B (acq_clock (env attempt)) (lock_name c) (lock_owner c) (lock_ttl c) s0 = (r, s1)"
    by fastforce
  have s0: "inv s0" using run_inv Suc.prems(1) by (simp add: s0_def)
  show ?case
  proof (cases r)
    case (Inl e)
    with Suc.prems(2) r show ?thesis by (simp add: s0_def)
  next
    case (Inr granted)
    show ?thesis
    proof (cases granted)
      case None
      then have "inv s1"
        using acquire_refused [OF s0, of "fst (acq_clock (env attempt))" "snd (acq_clock (env attempt))"] r Inr by simp
      with Suc.IH [of s1] Suc.prems(2) r Inr None show ?thesis
        by (auto simp: s0_def [symmetric] Let_def split: if_splits prod.splits)
    next
      case (Some m)
      then show ?thesis
        using acquire_granted [OF s0, of "fst (acq_clock (env attempt))" "snd (acq_clock (env attempt))"] r Inr Suc.prems(2)
        by (simp add: s0_def [symmetric] Let_def)
    qed
  qed
qed simp

lemma renew_keeps:
  assumes "inv s" "cur_lease L = Some l" "renew_tick B c clock L s = (L', s')"
  shows "inv s' \<and> issued s' = issued s \<and> (\<exists>l'. cur_lease L' = Some l' \<and> hold_of l' = hold_of l)"
proof (cases "renewal L = Renewing")
  case True
  obtain r s1 where r: "be_extend B (fst clock, snd clock) l (lock_ttl c) s = (r, s1)" by fastforce
  have s1: "inv s1 \<and> issued s1 = issued s"
    using exec_issued [OF assms(1), of "CallExtend clock l (lock_ttl c)" "LeaseReply r" s1] r by (simp add: fun_eq_iff)
  have same: "r = Inr (Some l') \<Longrightarrow> hold_of l' = hold_of l" for l'
    using extend_granted [OF assms(1), of "fst clock" "snd clock" l "lock_ttl c" l' s1] r by simp
  from True assms(2,3) r s1 same show ?thesis
    by (auto simp: renew_tick_def split: sum.splits option.splits lock_error.splits)
qed (use assms in \<open>simp add: renew_tick_def\<close>)

lemma section_issued:
  assumes "inv s" "cur_lease L = Some l" "section_run B c acts L s = (trace, L', s')"
  shows "inv s' \<and> issued s n \<le> issued s' n \<and> (name_taken n trace \<longrightarrow> issued s n < issued s' n) \<and>
         (\<exists>l'. cur_lease L' = Some l' \<and> hold_of l' = hold_of l)"
  using assms
proof (induction acts arbitrary: L l s trace)
  case (Cons act acts)
  show ?case
  proof (cases act)
    case (Other call)
    obtain reply s1 where e: "backend_exec B call s = (reply, s1)" by fastforce
    obtain tr where tr: "section_run B c acts L s1 = (tr, L', s')" "trace = (call, reply) # tr"
      using Cons.prems(3) Other e by (auto simp: map_prod_def split: prod.splits)
    note s1 = exec_issued [OF Cons.prems(1) e, of n]
    show ?thesis
      using Cons.IH [OF conjunct1 [OF s1] Cons.prems(2) tr(1)] s1 tr(2)
      by (auto simp: name_taken_def split: if_splits)
  next
    case (Renew clock)
    obtain L1 s1 where e: "renew_tick B c clock L s = (L1, s1)" by fastforce
    note k = renew_keeps [OF Cons.prems(1,2) e]
    then obtain l1 where l1: "cur_lease L1 = Some l1" "hold_of l1 = hold_of l" by blast
    show ?thesis
      using Cons.IH [OF conjunct1 [OF k] l1(1)] Cons.prems(3) Renew e k l1(2) by simp
  qed
qed (auto simp: name_taken_def)

text \<open>If the store says it released the lease, nobody else was granted the name in between.\<close>

lemma released_was_protected:
  assumes "inv s" "cur_lease L = Some l" "token l = issued s (lease_name l)"
    and "section_run B c acts L s = (trace, L', s')" "cur_lease L' = Some l'"
    and "be_release B clock l' s' = (Inr RELEASED, s'')"
  shows "\<not> name_taken (lease_name l) trace"
proof -
  note sec = section_issued [OF assms(1,2,4), of "lease_name l"]
  then have "hold_of l' = hold_of l" "inv s'" using assms(5) by auto
  moreover have "holder s' (fst clock) (lease_name l') = Some (token l')"
    using release_released [OF \<open>inv s'\<close>, of "fst clock" "snd clock" l' s''] assms(6) by simp
  ultimately have "token l = issued s' (lease_name l)"
    using holder_issued [of s'] by simp
  with sec assms(3) show ?thesis by auto
qed

end

subsection \<open>Sections over the in-memory store\<close>

lemma mem_no_errors:
  "be_extend memory_backend clock l ttl s \<noteq> (Inl e, s')"
  "be_release memory_backend clock l s \<noteq> (Inl e, s')"
  by (auto simp: mem_defs split: option.splits if_splits)

lemma section_renewer_lives:
  "section_run memory_backend c acts L s = (trace, L', s') \<Longrightarrow> \<forall>e. renewal L \<noteq> RenewerFailed e \<Longrightarrow>
   renewal L' \<noteq> RenewerFailed e"
proof (induction acts arbitrary: L s trace)
  case (Cons act acts)
  show ?case
  proof (cases act)
    case (Other call)
    then show ?thesis
      using Cons by (auto simp: map_prod_def split: prod.splits)
  next
    case (Renew clock)
    obtain L1 s1 where t: "renew_tick memory_backend c clock L s = (L1, s1)" by fastforce
    then have "\<forall>e. renewal L1 \<noteq> RenewerFailed e"
      using Cons.prems(2) mem_no_errors(1)
      by (auto simp: renew_tick_def split: if_splits option.splits prod.splits sum.splits lock_error.splits)
    then show ?thesis using Cons Renew t by simp
  qed
qed simp

lemma stop_renewer_live:
  "\<forall>e. renewal L \<noteq> RenewerFailed e \<Longrightarrow> stop_renewer L = (None, L\<lparr>renewal := NoRenewer\<rparr>)"
  by (cases "renewal L") (auto simp: stop_renewer_def)

lemma mem_run_inv: "mem_inv (backend_run memory_backend calls new_lock_store)"
  by (rule memory.run_inv [OF mem_inv_new])

subsection \<open>The waiting loop\<close>

lemma lock_config_okD:
  assumes "lock_config_ok c"
  shows "0 < retry_base_delay c" "retry_base_delay c \<le> retry_max_delay c" "0 \<le> wait_timeout c"
  using assms by (auto simp: lock_config_error_def split: sum.splits if_splits)

lemma lock_backoff_bounds:
  assumes "lock_config_ok c" "0 \<le> u" "u \<le> 1"
  shows "0 \<le> lock_backoff c k u" "lock_backoff c k u \<le> retry_max_delay c"
  using backoff_delay_bounds [of "retry_base_delay c" "retry_max_delay c" u "int k" "lock_jitter c"]
    backoff_ceiling_bounds [of "retry_base_delay c" "retry_max_delay c" "int k"] lock_config_okD [OF assms(1)] assms(2,3)
  by (auto simp: lock_backoff_def)

lemma acquire_from_stops:
  assumes a: "be_acquire B (acq_clock (env attempt)) (lock_name c) (lock_owner c) (lock_ttl c)
      (backend_run B (acq_before (env attempt)) s) = (a, s1)" and "a \<noteq> Inr None \<or> deadline \<le> acq_now (env attempt)"
  shows "\<exists>r s'. \<forall>fuel>n. acquire_from B c env deadline fuel attempt s = (Some r, [], s')"
proof -
  have "\<exists>r s'. \<forall>f. acquire_from B c env deadline (Suc f) attempt s = (Some r, [], s')"
  proof (cases a)
    case (Inl e)
    with a show ?thesis by simp
  next
    case (Inr granted)
    with assms show ?thesis
      by (cases granted; cases "lock_unavailable B c (env attempt) (attempt + 1) (wait_timeout c) s1") auto
  qed
  then show ?thesis by (metis Suc_pred less_nat_zero_code neq0_conv)
qed

lemma acquire_from_ends:
  assumes c: "lock_config_ok c" and u: "\<forall>k. 0 \<le> acq_draw (env k) \<and> acq_draw (env k) \<le> 1"
    and "deadline \<le> acq_now (env (attempt + n))"
  shows "\<exists>r ds s'. (\<forall>fuel>n. acquire_from B c env deadline fuel attempt s = (Some r, ds, s')) \<and> length ds \<le> n \<and>
     (\<forall>i<length ds. 0 \<le> ds ! i \<and> ds ! i \<le> retry_max_delay c \<and> acq_now (env (attempt + i)) + ds ! i \<le> deadline)"
  using assms(3)
proof (induction n arbitrary: attempt s)
  case 0
  obtain a s1 where a: "be_acquire B (acq_clock (env attempt)) (lock_name c) (lock_owner c) (lock_ttl c)
      (backend_run B (acq_before (env attempt)) s) = (a, s1)" by fastforce
  obtain r s' where "\<forall>fuel>0. acquire_from B c env deadline fuel attempt s = (Some r, [], s')"
    using acquire_from_stops [of B env attempt c s a s1 deadline 0] a 0 by auto
  then show ?case by (intro exI [of _ r] exI [of _ "[]"] exI [of _ s']) simp
next
  case (Suc n)
  obtain a s1 where a: "be_acquire B (acq_clock (env attempt)) (lock_name c) (lock_owner c) (lock_ttl c)
      (backend_run B (acq_before (env attempt)) s) = (a, s1)" by fastforce
  show ?case
  proof (cases "a = Inr None \<and> acq_now (env attempt) < deadline")
    case True
    obtain r ds s' where ih: "\<forall>fuel>n. acquire_from B c env deadline fuel (attempt + 1) s1 = (Some r, ds, s')"
        "length ds \<le> n" "\<forall>i<length ds. 0 \<le> ds ! i \<and> ds ! i \<le> retry_max_delay c \<and> acq_now (env (attempt + 1 + i)) + ds ! i \<le> deadline"
      using Suc.IH [of "attempt + 1" s1] Suc.prems by auto
    define d where "d = min (lock_backoff c (attempt + 1) (acq_draw (env attempt))) (deadline - acq_now (env attempt))"
    have d: "0 \<le> d" "d \<le> retry_max_delay c" "acq_now (env attempt) + d \<le> deadline"
      using lock_backoff_bounds [OF c, of "acq_draw (env attempt)" "attempt + 1"] u True by (auto simp: d_def min_def)
    have "\<forall>fuel>Suc n. acquire_from B c env deadline fuel attempt s = (Some r, d # ds, s')"
    proof (intro allI impI)
      fix fuel assume "Suc n < fuel"
      then obtain f where f: "fuel = Suc f" "n < f" by (cases fuel) auto
      show "acquire_from B c env deadline fuel attempt s = (Some r, d # ds, s')"
        using ih(1) [rule_format, OF f(2)] a True by (simp add: f(1) d_def Let_def)
    qed
    moreover have "\<forall>i<length (d # ds). 0 \<le> (d # ds) ! i \<and> (d # ds) ! i \<le> retry_max_delay c \<and>
        acq_now (env (attempt + i)) + (d # ds) ! i \<le> deadline"
      using d ih(3) by (auto simp: less_Suc_eq_0_disj)
    ultimately show ?thesis using ih(2) by (intro exI [of _ r] exI [of _ "d # ds"] exI [of _ s']) auto
  next
    case False
    then have "a \<noteq> Inr None \<or> deadline \<le> acq_now (env attempt)" by auto
    from acquire_from_stops [of B env attempt c s a s1 deadline "Suc n", OF a this]
    obtain r s' where "\<forall>fuel>Suc n. acquire_from B c env deadline fuel attempt s = (Some r, [], s')" by metis
    then show ?thesis by (intro exI [of _ r] exI [of _ "[]"] exI [of _ s']) simp
  qed
qed

section \<open>Properties\<close>

text \<open>
  C31: a section that lost its lock says so. If another client was granted the name while the block
  ran, leaving the block never reports success: a body that returned ends in \<open>LockLostError\<close>, naming
  the hold, and a body that raised keeps its own exception. In both cases the lock object is free
  again, whatever the other clients and the renewal task did in between.
\<close>

theorem lost_lease_is_reported:
  assumes enter: "lock_aenter memory_backend c env t0 fuel new_lock (backend_run memory_backend calls new_lock_store) =
                    (Some (Inr l), ds, L1, s1)"
    and run: "section_run memory_backend c acts L1 s1 = (trace, L2, s2)"
    and taken: "name_taken (lock_name c) trace"
  shows "\<exists>outcome L3 s3. outcome \<noteq> Some RELEASED \<and> cur_lease L3 = None \<and>
     lock_aexit memory_backend c clock body_failed L2 s2 =
       (if body_failed then ExitReturns else ExitRaises (LockLost (lock_name c) (token l) outcome), L3, s3)"
proof -
  have L1: "cur_lease L1 = Some l" "\<forall>e. renewal L1 \<noteq> RenewerFailed e"
    using enter by (auto simp: lock_aenter_def new_lock_def split: prod.splits option.splits sum.splits if_splits)
  have "lock_acquire memory_backend c env t0 fuel (backend_run memory_backend calls new_lock_store) = (Some (Inr l), ds, s1)"
    using enter by (auto simp: lock_aenter_def new_lock_def split: prod.splits option.splits sum.splits)
  then have l: "mem_inv s1" "lease_name l = lock_name c" "token l = mem_issued s1 (lease_name l)"
    using memory.acquire_from_granted [OF mem_run_inv] by (auto simp: lock_acquire_def)
  obtain l2 where l2: "cur_lease L2 = Some l2" "hold_of l2 = hold_of l"
    using memory.section_issued [OF l(1) L1(1) run] by blast
  obtain out s3 where out: "be_release memory_backend clock l2 s2 = (Inr out, s3)"
    using mem_no_errors(2) by (metis obj_sumE surj_pair)
  have "out \<noteq> RELEASED"
    using memory.released_was_protected [OF l(1) L1(1) l(3) run l2(1), of clock s3] taken out l(2) by metis
  then show ?thesis
    using section_renewer_lives [OF run L1(2)] l2 out
    by (auto simp: lock_aexit_def stop_renewer_live lock_release_def Let_def split: lock_error.split)
qed

definition job_lock :: lock_config where
  "job_lock = default_lock_config ''job'' ''a''"

definition quiet_acquire :: "seconds \<Rightarrow> acquire_env" where
  "quiet_acquire t = \<lparr>acq_before = [], acq_clock = (t, t), acq_now = t, acq_draw = 1 / 2, acq_between = [], acq_inspect = (t, t)\<rparr>"

lemmas job_eval = job_lock_def default_lock_config_def quiet_acquire_def lock_aenter_def new_lock_def lock_acquire_def
  numeral_2_eq_2 new_lock_store_def mem_defs

theorem lost_lease_is_reported_witness:
  "\<exists>outcome L3 s3. outcome \<noteq> Some RELEASED \<and> cur_lease L3 = None \<and>
     lock_aexit memory_backend job_lock (70, 70) False
       (fst (snd (section_run memory_backend job_lock [Other (CallAcquire (60, 60) ''job'' ''b'' 30)]
          (fst (snd (snd (lock_aenter memory_backend job_lock (\<lambda>_. quiet_acquire 0) 0 1 new_lock new_lock_store))))
          (snd (snd (snd (lock_aenter memory_backend job_lock (\<lambda>_. quiet_acquire 0) 0 1 new_lock new_lock_store)))))))
       (snd (snd (section_run memory_backend job_lock [Other (CallAcquire (60, 60) ''job'' ''b'' 30)]
          (fst (snd (snd (lock_aenter memory_backend job_lock (\<lambda>_. quiet_acquire 0) 0 1 new_lock new_lock_store))))
          (snd (snd (snd (lock_aenter memory_backend job_lock (\<lambda>_. quiet_acquire 0) 0 1 new_lock new_lock_store)))))))
     = (ExitRaises (LockLost ''job'' 1 outcome), L3, s3)"
proof -
  define E where "E = lock_aenter memory_backend job_lock (\<lambda>_. quiet_acquire 0) 0 1 new_lock new_lock_store"
  define R where "R = section_run memory_backend job_lock [Other (CallAcquire (60, 60) ''job'' ''b'' 30)]
      (fst (snd (snd E))) (snd (snd (snd E)))"
  obtain l ds L1 s1 where E: "E = (Some (Inr l), ds, L1, s1)" "token l = 1"
    by (simp add: E_def job_eval job_is_valid)
  obtain trace L2 s2 where R: "R = (trace, L2, s2)" by (cases R) auto
  have taken: "name_taken (lock_name job_lock) trace"
    using R by (auto simp: R_def E_def job_eval job_is_valid name_taken_def)
  have enter: "lock_aenter memory_backend job_lock (\<lambda>_. quiet_acquire 0) 0 1 new_lock
      (backend_run memory_backend [] new_lock_store) = (Some (Inr l), ds, L1, s1)"
    using E(1) by (simp add: E_def)
  have run: "section_run memory_backend job_lock [Other (CallAcquire (60, 60) ''job'' ''b'' 30)] L1 s1 = (trace, L2, s2)"
    using R by (simp only: R_def E(1) fst_conv snd_conv)
  have "lock_name job_lock = ''job''" by (simp add: job_lock_def default_lock_config_def)
  then show ?thesis
    using lost_lease_is_reported [OF enter run taken, of "(70, 70)" False] E(2)
    unfolding E_def [symmetric] R_def [symmetric] R by simp
qed

text \<open>
  C32: waiting for a lock ends. Over any store, once the clock has reached the deadline at attempt
  \<open>k\<close> the loop has returned a lease or raised, after at most \<open>k\<close> waits, and giving it more attempts
  changes nothing; every wait is between 0 and \<open>retry_max_delay\<close>, and none reaches past the deadline.
\<close>

theorem lock_wait_ends_at_the_deadline:
  assumes "lock_config_ok c" and "\<forall>k. 0 \<le> acq_draw (env k) \<and> acq_draw (env k) \<le> 1"
    and "t0 + wait_timeout c \<le> acq_now (env k)"
  shows "\<exists>r ds s'. (\<forall>fuel>k. lock_acquire B c env t0 fuel s = (Some r, ds, s')) \<and> length ds \<le> k \<and>
     (\<forall>i<length ds. 0 \<le> ds ! i \<and> ds ! i \<le> retry_max_delay c \<and> acq_now (env i) + ds ! i \<le> t0 + wait_timeout c)"
  using acquire_from_ends [OF assms(1,2), of "t0 + wait_timeout c" 0 k B s] assms(3) by (simp add: lock_acquire_def)

theorem lock_wait_ends_at_the_deadline_witness:
  "\<exists>r ds s'. (\<forall>fuel>0. lock_acquire memory_backend job_lock (\<lambda>_. quiet_acquire 5) 5 fuel new_lock_store = (Some r, ds, s')) \<and>
     length ds \<le> 0"
proof -
  have ok: "lock_config_ok job_lock"
    by (simp add: job_lock_def default_lock_config_def lock_config_error_def job_is_valid)
  have draws: "\<forall>k. 0 \<le> acq_draw (quiet_acquire 5) \<and> acq_draw (quiet_acquire 5) \<le> 1"
    by (simp add: quiet_acquire_def)
  have late: "5 + wait_timeout job_lock \<le> acq_now (quiet_acquire 5)"
    by (simp add: quiet_acquire_def job_lock_def default_lock_config_def)
  show ?thesis
    using lock_wait_ends_at_the_deadline [where env = "\<lambda>_. quiet_acquire 5" and k = 0 and B = memory_backend
        and s = new_lock_store, OF ok draws late] by metis
qed

end
