(* ===== verification/Idempotency.thy ===== *)
theory Idempotency
  imports Lock_Lease
begin

text \<open>
  The \<open>Idempotency-Key\<close> middleware (\<open>src/src/idempotency/base.py\<close>, \<open>memory.py\<close> and
  \<open>src/src/middleware/idempotency.py\<close>).

  A request is handled in two parts with an \<open>await\<close> on the application between them: \<open>idem_begin\<close> reads
  and fingerprints the request and reserves its key, \<open>idem_finish\<close> stores or releases it once the
  application has answered. The \<open>IdempotencyStore\<close> protocol is the record \<open>idem_store\<close>; the locale
  \<open>idem_provider\<close> is what the middleware relies on, and the in-memory store is an interpretation.
  Requests that arrive, finish and die in any order are the step relation \<open>idem_step\<close>.

  Bytes are strings of characters below 256. The digest of \<open>hashlib.sha256\<close> is a parameter.
\<close>

section \<open>Definitions\<close>

subsection \<open>Keys, fingerprints and records\<close>

definition MAX_KEY_LENGTH :: nat where
  "MAX_KEY_LENGTH = 255"

record stored_response =
  stored_status :: int
  stored_headers :: "(string \<times> string) list"
  stored_body :: string

record idem_record =
  fingerprint :: string
  response :: "stored_response option"

definition in_progress :: "idem_record \<Rightarrow> bool" where
  "in_progress r \<longleftrightarrow> response r = None"

datatype idem_error = KeyInvalid string | KeyInProgress string | KeyReused string | StoreUnavailable

definition idem_status :: "idem_error \<Rightarrow> int" where
  "idem_status e = (case e of KeyInvalid _ \<Rightarrow> 400 | KeyInProgress _ \<Rightarrow> 409 | KeyReused _ \<Rightarrow> 422 | StoreUnavailable \<Rightarrow> 503)"

text \<open>\<open>_KEY_RE\<close> is the pattern of lock names.\<close>

definition validate_idempotency_key :: "string \<Rightarrow> idem_error + string" where
  "validate_idempotency_key key =
     (if key = [] then Inl (KeyInvalid ''Idempotency-Key must not be empty.'')
      else if length key > MAX_KEY_LENGTH then Inl (KeyInvalid ''Idempotency-Key must be at most 255 characters.'')
      else if \<not> name_re key then Inl (KeyInvalid ''Idempotency-Key must contain only printable, non-space ASCII.'')
      else Inr key)"

definition fingerprint_part :: "string \<Rightarrow> string" where
  "fingerprint_part part = decimal (length part) @ [CHR 0x00] @ part"

text \<open>The bytes that reach the digest, in order; \<open>update\<close> concatenates.\<close>

definition fingerprint_input :: "string \<Rightarrow> string \<Rightarrow> string \<Rightarrow> string \<Rightarrow> string \<Rightarrow> string" where
  "fingerprint_input meth path query body content_type =
     concat (map fingerprint_part [utf8 (map ascii_upper meth), utf8 path, query, utf8 content_type, body])"

definition request_fingerprint :: "(string \<Rightarrow> string) \<Rightarrow> string \<Rightarrow> string \<Rightarrow> string \<Rightarrow> string \<Rightarrow> string \<Rightarrow> string" where
  "request_fingerprint sha256 meth path query body content_type =
     sha256 (fingerprint_input meth path query body content_type)"

definition scope_fingerprint :: "(string \<Rightarrow> string) \<Rightarrow> string option \<Rightarrow> string" where
  "scope_fingerprint sha256 authorization =
     (case authorization of
        None \<Rightarrow> ''anon''
      | Some a \<Rightarrow> if a = [] then ''anon'' else take 32 (sha256 (utf8 a)))"

definition storage_key :: "string \<Rightarrow> string \<Rightarrow> string" where
  "storage_key scope key = scope @ '':'' @ key"

subsection \<open>Stores\<close>

record 's idem_store =
  st_reserve :: "readings \<Rightarrow> string \<Rightarrow> string \<Rightarrow> 's \<Rightarrow> (idem_error + idem_record option) \<times> 's"
  st_complete :: "seconds \<Rightarrow> string \<Rightarrow> idem_record \<Rightarrow> 's \<Rightarrow> idem_error option \<times> 's"
  st_release :: "string \<Rightarrow> 's \<Rightarrow> idem_error option \<times> 's"
  st_get :: "seconds \<Rightarrow> string \<Rightarrow> 's \<Rightarrow> (idem_error + idem_record option) \<times> 's"

type_synonym idem_memory = "string \<Rightarrow> (idem_record \<times> seconds) option"

definition idem_live :: "seconds \<Rightarrow> string \<Rightarrow> idem_memory \<Rightarrow> idem_record option \<times> idem_memory" where
  "idem_live now key m =
     (case m key of
        None \<Rightarrow> (None, m)
      | Some (r, expires) \<Rightarrow> if expires \<le> now then (None, m(key := None)) else (Some r, m))"

definition idem_reserve ::
    "seconds \<Rightarrow> readings \<Rightarrow> string \<Rightarrow> string \<Rightarrow> idem_memory \<Rightarrow> (idem_error + idem_record option) \<times> idem_memory" where
  "idem_reserve reservation_ttl clock key fp m =
     (case idem_live (fst clock) key m of
        (Some r, m1) \<Rightarrow> (Inr (Some r), m1)
      | (None, m1) \<Rightarrow> (Inr None, m1(key \<mapsto> (\<lparr>fingerprint = fp, response = None\<rparr>, snd clock + reservation_ttl))))"

definition idem_complete :: "seconds \<Rightarrow> seconds \<Rightarrow> string \<Rightarrow> idem_record \<Rightarrow> idem_memory \<Rightarrow> idem_error option \<times> idem_memory" where
  "idem_complete record_ttl now key r m = (None, m(key \<mapsto> (r, now + record_ttl)))"

definition idem_release :: "string \<Rightarrow> idem_memory \<Rightarrow> idem_error option \<times> idem_memory" where
  "idem_release key m = (None, m(key := None))"

definition idem_get :: "seconds \<Rightarrow> string \<Rightarrow> idem_memory \<Rightarrow> (idem_error + idem_record option) \<times> idem_memory" where
  "idem_get now key m = (case idem_live now key m of (r, m1) \<Rightarrow> (Inr r, m1))"

definition idem_clear :: "idem_memory \<Rightarrow> idem_memory" where
  "idem_clear m = Map.empty"

definition memory_idem_store :: "seconds \<Rightarrow> seconds \<Rightarrow> idem_memory idem_store" where
  "memory_idem_store record_ttl reservation_ttl =
     \<lparr>st_reserve = idem_reserve reservation_ttl, st_complete = idem_complete record_ttl,
      st_release = idem_release, st_get = idem_get\<rparr>"

subsection \<open>The middleware: reading the request\<close>

definition DEFAULT_METHODS :: "string list" where
  "DEFAULT_METHODS = [''POST'', ''PATCH'', ''PUT'', ''DELETE'']"

definition DEFAULT_PATH_PREFIXES :: "string list" where
  "DEFAULT_PATH_PREFIXES = [''/api/'']"

definition RETRYABLE_STATUSES :: "int list" where
  "RETRYABLE_STATUSES = [408, 425, 429]"

definition STRIPPED_RESPONSE_HEADERS :: "string list" where
  "STRIPPED_RESPONSE_HEADERS = [''set-cookie'']"

record idem_config =
  idem_methods :: "string list"
  path_prefixes :: "string list"
  max_request_body_bytes :: int
  max_response_body_bytes :: int
  fail_open :: bool
  idem_enabled :: bool

definition default_idem_config :: idem_config where
  "default_idem_config =
     \<lparr>idem_methods = DEFAULT_METHODS, path_prefixes = DEFAULT_PATH_PREFIXES, max_request_body_bytes = 1024 * 1024,
      max_response_body_bytes = 1024 * 1024, fail_open = False, idem_enabled = True\<rparr>"

text \<open>The parts of an ASGI scope that the middleware reads.\<close>

record http_scope =
  scope_type :: string
  scope_method :: string
  url_path :: string
  url_query :: string
  key_header :: "string option"
  content_type_header :: "string option"
  authorization_header :: "string option"

datatype asgi_in = HttpRequest string bool | OtherIn string

datatype asgi_out = ResponseStart int "(string \<times> string) list" | ResponseBody string bool | OtherOut string

definition applies_to :: "idem_config \<Rightarrow> http_scope \<Rightarrow> bool" where
  "applies_to cfg r \<longleftrightarrow>
     scope_method r \<in> set (idem_methods cfg) \<and> list_ex (\<lambda>p. take (length p) (url_path r) = p) (path_prefixes cfg)"

text \<open>
  \<open>_buffer_request\<close> on the messages that will arrive: those consumed, the body, whether it ran past
  the limit, and those left on the socket. \<open>None\<close>: the loop is waiting for a message that never comes.
\<close>

fun buffer_request :: "int \<Rightarrow> string \<Rightarrow> asgi_in list \<Rightarrow> (asgi_in list \<times> string \<times> bool \<times> asgi_in list) option" where
  "buffer_request limit body [] = None"
| "buffer_request limit body (OtherIn ty # rest) = Some ([OtherIn ty], body, False, rest)"
| "buffer_request limit body (HttpRequest chunk more_body # rest) =
     (let body' = body @ chunk in
      if int (length body') > limit then Some ([HttpRequest chunk more_body], [], True, rest)
      else if \<not> more_body then Some ([HttpRequest chunk more_body], body', False, rest)
      else (case buffer_request limit body' rest of
              None \<Rightarrow> None
            | Some (ms, b, truncated, rest') \<Rightarrow> Some (HttpRequest chunk more_body # ms, b, truncated, rest')))"

text \<open>\<open>_ReplayReceive\<close>: the buffered messages first, then the socket.\<close>

definition replay_receive :: "asgi_in list \<Rightarrow> asgi_in list \<Rightarrow> (asgi_in \<times> asgi_in list \<times> asgi_in list) option" where
  "replay_receive pending socket =
     (case pending of
        m # ms \<Rightarrow> Some (m, ms, socket)
      | [] \<Rightarrow> (case socket of [] \<Rightarrow> None | m # ms \<Rightarrow> Some (m, [], ms)))"

record keyed =
  full_key :: string
  client_key :: string
  keyed_fp :: string

datatype prepared = Unkeyed | BadKey idem_error | TooLarge | Keyed keyed

text \<open>
  The first half of \<open>__call__\<close>, up to the store: what the request is, with the messages already
  buffered for the application and those still on the socket.
\<close>

definition idem_prepare ::
    "(string \<Rightarrow> string) \<Rightarrow> idem_config \<Rightarrow> http_scope \<Rightarrow> asgi_in list \<Rightarrow> (prepared \<times> asgi_in list \<times> asgi_in list) option" where
  "idem_prepare sha256 cfg r socket =
     (if scope_type r \<noteq> ''http'' \<or> \<not> idem_enabled cfg then Some (Unkeyed, [], socket)
      else if \<not> applies_to cfg r then Some (Unkeyed, [], socket)
      else case key_header r of
        None \<Rightarrow> Some (Unkeyed, [], socket)
      | Some raw_key \<Rightarrow>
          (case validate_idempotency_key raw_key of
             Inl e \<Rightarrow> Some (BadKey e, [], socket)
           | Inr key \<Rightarrow>
               (case buffer_request (max_request_body_bytes cfg) [] socket of
                  None \<Rightarrow> None
                | Some (buffered, body, truncated, rest) \<Rightarrow>
                    if truncated then Some (TooLarge, buffered, rest)
                    else Some (Keyed
                      \<lparr>full_key = storage_key (scope_fingerprint sha256 (authorization_header r)) key,
                       client_key = key,
                       keyed_fp = request_fingerprint sha256 (scope_method r) (url_path r) (utf8 (url_query r)) body
                         (case content_type_header r of None \<Rightarrow> [] | Some ct \<Rightarrow> ct)\<rparr>, buffered, rest))))"

datatype decision = PassThrough | SendError idem_error | SendStored stored_response string | Execute keyed

definition handle_existing :: "keyed \<Rightarrow> idem_record \<Rightarrow> decision" where
  "handle_existing k r =
     (if fingerprint r \<noteq> keyed_fp k then SendError (KeyReused (client_key k))
      else case response r of
        None \<Rightarrow> SendError (KeyInProgress (client_key k))
      | Some stored \<Rightarrow> SendStored stored (client_key k))"

definition idem_begin ::
    "'s idem_store \<Rightarrow> (string \<Rightarrow> string) \<Rightarrow> idem_config \<Rightarrow> readings \<Rightarrow> http_scope \<Rightarrow> asgi_in list \<Rightarrow> 's \<Rightarrow>
     (decision \<times> asgi_in list \<times> asgi_in list) option \<times> 's" where
  "idem_begin S sha256 cfg clock r socket s =
     (case idem_prepare sha256 cfg r socket of
        None \<Rightarrow> (None, s)
      | Some (Unkeyed, down) \<Rightarrow> (Some (PassThrough, down), s)
      | Some (BadKey e, down) \<Rightarrow> (Some (SendError e, down), s)
      | Some (TooLarge, down) \<Rightarrow> (Some (PassThrough, down), s)
      | Some (Keyed k, down) \<Rightarrow>
          (case st_reserve S clock (full_key k) (keyed_fp k) s of
             (Inl e, s1) \<Rightarrow> (Some (if \<not> fail_open cfg then SendError e else PassThrough, down), s1)
           | (Inr (Some existing), s1) \<Rightarrow> (Some (handle_existing k existing, down), s1)
           | (Inr None, s1) \<Rightarrow> (Some (Execute k, down), s1)))"

subsection \<open>The middleware: answering\<close>

record capture =
  cap_status :: int
  cap_headers :: "(string \<times> string) list"
  cap_body :: string
  oversized :: bool
  finished :: bool

definition new_capture :: capture where
  "new_capture = \<lparr>cap_status = 500, cap_headers = [], cap_body = [], oversized = False, finished = False\<rparr>"

definition capturing_send :: "idem_config \<Rightarrow> string \<Rightarrow> asgi_out \<Rightarrow> capture \<Rightarrow> capture \<times> asgi_out" where
  "capturing_send cfg key msg cap =
     (case msg of
        ResponseStart status headers \<Rightarrow>
          (cap\<lparr>cap_status := status, cap_headers := headers\<rparr>,
           ResponseStart status (headers @ [(''idempotency-key'', utf8 key)]))
      | ResponseBody chunk more_body \<Rightarrow>
          (let cap1 = (if \<not> oversized cap
                       then (let body = cap_body cap @ chunk in
                             if int (length body) > max_response_body_bytes cfg
                             then cap\<lparr>oversized := True, cap_body := []\<rparr>
                             else cap\<lparr>cap_body := body\<rparr>)
                       else cap)
           in (if \<not> more_body then cap1\<lparr>finished := True\<rparr> else cap1, msg))
      | OtherOut _ \<Rightarrow> (cap, msg))"

fun capture_all :: "idem_config \<Rightarrow> string \<Rightarrow> asgi_out list \<Rightarrow> capture \<Rightarrow> capture \<times> asgi_out list" where
  "capture_all cfg key [] cap = (cap, [])"
| "capture_all cfg key (m # ms) cap =
     (case capturing_send cfg key m cap of
        (cap1, m1) \<Rightarrow> map_prod id (Cons m1) (capture_all cfg key ms cap1))"

definition stored_of :: "capture \<Rightarrow> stored_response" where
  "stored_of cap =
     \<lparr>stored_status = cap_status cap,
      stored_headers = filter (\<lambda>(name, _). map ascii_lower name \<notin> set STRIPPED_RESPONSE_HEADERS) (cap_headers cap),
      stored_body = cap_body cap\<rparr>"

text \<open>The record that \<open>_execute\<close> stores, or \<open>None\<close> when it releases the key.\<close>

definition outcome_record :: "idem_config \<Rightarrow> keyed \<Rightarrow> bool \<Rightarrow> asgi_out list \<Rightarrow> idem_record option" where
  "outcome_record cfg k raised outs =
     (let cap = fst (capture_all cfg (client_key k) outs new_capture) in
      if raised then None
      else if \<not> finished cap \<or> oversized cap \<or> cap_status cap \<ge> 500 then None
      else if cap_status cap \<in> set RETRYABLE_STATUSES then None
      else Some \<lparr>fingerprint = keyed_fp k, response = Some (stored_of cap)\<rparr>)"

definition idem_finish :: "'s idem_store \<Rightarrow> idem_config \<Rightarrow> keyed \<Rightarrow> seconds \<Rightarrow> bool \<Rightarrow> asgi_out list \<Rightarrow> 's \<Rightarrow> idem_error option \<times> 's" where
  "idem_finish S cfg k now raised outs s =
     (case outcome_record cfg k raised outs of
        None \<Rightarrow> st_release S (full_key k) s
      | Some r \<Rightarrow> st_complete S now (full_key k) r s)"

text \<open>What the client sees of an execution, and of a replay.\<close>

definition forwarded :: "idem_config \<Rightarrow> keyed \<Rightarrow> asgi_out list \<Rightarrow> asgi_out list" where
  "forwarded cfg k outs = snd (capture_all cfg (client_key k) outs new_capture)"

definition send_stored :: "stored_response \<Rightarrow> string \<Rightarrow> asgi_out list" where
  "send_stored stored key =
     [ResponseStart (stored_status stored)
        (stored_headers stored @ [(''idempotency-key'', utf8 key)] @ [(''idempotency-replayed'', ''true'')]),
      ResponseBody (stored_body stored) False]"

subsection \<open>Requests in flight\<close>

text \<open>
  Requests being executed, each with the instant its reservation ends, and the answers stored, each
  with the instant it is forgotten. A request finishes within its reservation or not at all: the
  reservation lifetime is configured above the longest request (\<open>redis_store.py\<close>). A worker may die
  with its reservation held.
\<close>

record 's idem_world =
  idem_state :: 's
  idem_now :: seconds
  running :: "nat \<Rightarrow> (keyed \<times> seconds) option"
  remembered :: "string \<Rightarrow> (idem_record \<times> seconds) option"

definition new_idem_world :: "'s \<Rightarrow> seconds \<Rightarrow> 's idem_world" where
  "new_idem_world s t = \<lparr>idem_state = s, idem_now = t, running = Map.empty, remembered = Map.empty\<rparr>"

inductive idem_step ::
    "'s idem_store \<Rightarrow> seconds \<Rightarrow> seconds \<Rightarrow> (string \<Rightarrow> string) \<Rightarrow> idem_config \<Rightarrow> 's idem_world \<Rightarrow> 's idem_world \<Rightarrow> bool"
  for S record_ttl reservation_ttl sha256 cfg where
  execute: "idem_now w \<le> t1 \<Longrightarrow> t1 \<le> t2 \<Longrightarrow> running w i = None \<Longrightarrow>
     idem_begin S sha256 cfg (t1, t2) r socket (idem_state w) = (Some (Execute k, down), s) \<Longrightarrow>
     idem_step S record_ttl reservation_ttl sha256 cfg w
       (w\<lparr>idem_state := s, idem_now := t2, running := (running w)(i \<mapsto> (k, t2 + reservation_ttl))\<rparr>)"
| other: "idem_now w \<le> t1 \<Longrightarrow> t1 \<le> t2 \<Longrightarrow>
     idem_begin S sha256 cfg (t1, t2) r socket (idem_state w) = (d, s) \<Longrightarrow> \<forall>k down. d \<noteq> Some (Execute k, down) \<Longrightarrow>
     idem_step S record_ttl reservation_ttl sha256 cfg w (w\<lparr>idem_state := s, idem_now := t2\<rparr>)"
| finish: "idem_now w \<le> t \<Longrightarrow> running w i = Some (k, until) \<Longrightarrow> t < until \<Longrightarrow>
     idem_finish S cfg k t raised outs (idem_state w) = (err, s) \<Longrightarrow>
     idem_step S record_ttl reservation_ttl sha256 cfg w
       (w\<lparr>idem_state := s, idem_now := t, running := (running w)(i := None),
          remembered := (case (outcome_record cfg k raised outs, err) of
                           (Some r, None) \<Rightarrow> (remembered w)(full_key k \<mapsto> (r, t + record_ttl))
                         | _ \<Rightarrow> remembered w)\<rparr>)"
| die: "idem_step S record_ttl reservation_ttl sha256 cfg w (w\<lparr>running := (running w)(i := None)\<rparr>)"

section \<open>The store contract\<close>

text \<open>\<open>live s t key\<close> is the record the store has for \<open>key\<close> at \<open>t\<close> if nothing happens until then.\<close>

locale idem_provider =
  fixes S :: "'s idem_store" and record_ttl reservation_ttl :: seconds
    and live :: "'s \<Rightarrow> seconds \<Rightarrow> string \<Rightarrow> idem_record option"
  assumes reserve_new: "st_reserve S (t1, t2) key fp s = (Inr None, s') \<Longrightarrow>
      live s t1 key = None \<and>
      (\<forall>t\<ge>t1. live s' t = (live s t)(key := if t < t2 + reservation_ttl then Some \<lparr>fingerprint = fp, response = None\<rparr> else None))"
    and reserve_taken: "st_reserve S (t1, t2) key fp s = (Inr (Some r), s') \<Longrightarrow>
      live s t1 key = Some r \<and> (\<forall>t\<ge>t1. live s' t = live s t)"
    and reserve_down: "st_reserve S (t1, t2) key fp s = (Inl e, s') \<Longrightarrow> (\<forall>t\<ge>t1. live s' t = live s t)"
    and complete_ok: "st_complete S t1 key r s = (None, s') \<Longrightarrow>
      (\<forall>t\<ge>t1. live s' t = (live s t)(key := if t < t1 + record_ttl then Some r else None))"
    and complete_down: "st_complete S t1 key r s = (Some e, s') \<Longrightarrow> (\<forall>t\<ge>t1. live s' t = live s t)"
    and release_ok: "st_release S key s = (None, s') \<Longrightarrow> live s' t = (live s t)(key := None)"
    and release_down: "st_release S key s = (Some e, s') \<Longrightarrow> live s' t = live s t"
begin

text \<open>
  A reservation is what the store has until it ends; of two executions of one key only one is within
  its reservation; a stored answer is what the store has until it is forgotten.
\<close>

definition covers :: "'s \<Rightarrow> seconds \<Rightarrow> string \<Rightarrow> idem_record \<Rightarrow> seconds \<Rightarrow> bool" where
  "covers s now key r until \<longleftrightarrow> (\<forall>t\<ge>now. t < until \<longrightarrow> live s t key = Some r)"

abbreviation reserved :: "keyed \<Rightarrow> idem_record" where
  "reserved k \<equiv> \<lparr>fingerprint = keyed_fp k, response = None\<rparr>"

definition idem_ok ::
    "'s \<Rightarrow> seconds \<Rightarrow> (nat \<Rightarrow> (keyed \<times> seconds) option) \<Rightarrow> (string \<Rightarrow> (idem_record \<times> seconds) option) \<Rightarrow> bool" where
  "idem_ok s now rn rm \<longleftrightarrow>
     (\<forall>i k u. rn i = Some (k, u) \<longrightarrow> covers s now (full_key k) (reserved k) u) \<and>
     (\<forall>i j k l u v. rn i = Some (k, u) \<and> rn j = Some (l, v) \<and> full_key k = full_key l \<and> i \<noteq> j \<longrightarrow>
        u \<le> now \<or> v \<le> now) \<and>
     (\<forall>key r u. rm key = Some (r, u) \<longrightarrow> response r \<noteq> None \<and> covers s now key r u)"

abbreviation idem_inv :: "'s idem_world \<Rightarrow> bool" where
  "idem_inv w \<equiv> idem_ok (idem_state w) (idem_now w) (running w) (remembered w)"

lemma idem_okD:
  assumes "idem_ok s now rn rm"
  shows "rn i = Some (k, u) \<Longrightarrow> covers s now (full_key k) (reserved k) u"
    and "rn i = Some (k, u) \<Longrightarrow> rn j = Some (l, v) \<Longrightarrow> full_key k = full_key l \<Longrightarrow> i \<noteq> j \<Longrightarrow> u \<le> now \<or> v \<le> now"
    and "rm key = Some (r, u) \<Longrightarrow> response r \<noteq> None"
    and "rm key = Some (r, u) \<Longrightarrow> covers s now key r u"
  using assms unfolding idem_ok_def by blast+

lemma idem_okI:
  assumes "\<And>i k u. rn i = Some (k, u) \<Longrightarrow> covers s now (full_key k) (reserved k) u"
    and "\<And>i j k l u v. rn i = Some (k, u) \<Longrightarrow> rn j = Some (l, v) \<Longrightarrow> full_key k = full_key l \<Longrightarrow> i \<noteq> j \<Longrightarrow> u \<le> now \<or> v \<le> now"
    and "\<And>key r u. rm key = Some (r, u) \<Longrightarrow> response r \<noteq> None \<and> covers s now key r u"
  shows "idem_ok s now rn rm"
  using assms unfolding idem_ok_def by blast

lemma covers_frame:
  assumes "covers s now key r u" "now \<le> t1" "t1 \<le> t2" "\<And>t. t1 \<le> t \<Longrightarrow> live s' t key = live s t key"
  shows "covers s' t2 key r u"
  using assms unfolding covers_def by (metis order_trans)

lemma covers_ended:
  assumes "covers s now key r u" "now \<le> t1" "t1 \<le> t2" "live s t1 key \<noteq> Some r"
  shows "u \<le> t1" "covers s' t2 key r u"
proof -
  show "u \<le> t1" using assms unfolding covers_def by (meson not_le)
  with assms(3) show "covers s' t2 key r u" by (auto simp: covers_def)
qed

lemma covers_past: "u \<le> now \<Longrightarrow> covers s now key r u"
  by (auto simp: covers_def)

lemma idem_ok_quiet:
  assumes w: "idem_ok s now rn rm" and t: "now \<le> t1" "t1 \<le> t2" and s: "\<forall>t\<ge>t1. live s' t = live s t"
  shows "idem_ok s' t2 rn rm"
proof (rule idem_okI)
  show "covers s' t2 (full_key k) (reserved k) u" if "rn i = Some (k, u)" for i k u
    using covers_frame [OF idem_okD(1) [OF w that] t] s by simp
  show "u \<le> t2 \<or> v \<le> t2"
    if "rn i = Some (k, u)" "rn j = Some (l, v)" "full_key k = full_key l" "i \<noteq> j" for i j k l u v
    using idem_okD(2) [OF w that] t by linarith
  show "response r \<noteq> None \<and> covers s' t2 key r u" if "rm key = Some (r, u)" for key r u
    using idem_okD(3) [OF w that] covers_frame [OF idem_okD(4) [OF w that] t] s by simp
qed

lemma idem_ok_die: "idem_ok s now rn rm \<Longrightarrow> idem_ok s now (rn(i := None)) rm"
  unfolding idem_ok_def by (auto split: if_splits)

lemma begin_execute:
  assumes "idem_begin S sha256 cfg (t1, t2) r socket s = (Some (Execute k, down), s')"
  shows "st_reserve S (t1, t2) (full_key k) (keyed_fp k) s = (Inr None, s')"
  using assms
  by (auto simp: idem_begin_def handle_existing_def split: option.splits prepared.splits sum.splits prod.splits if_splits)

lemma begin_other:
  assumes "idem_begin S sha256 cfg (t1, t2) r socket s = (d, s')" "\<forall>k down. d \<noteq> Some (Execute k, down)"
  shows "\<forall>t\<ge>t1. live s' t = live s t"
proof (cases "idem_prepare sha256 cfg r socket")
  case None
  with assms show ?thesis by (simp add: idem_begin_def)
next
  case (Some p)
  obtain what down where p: "p = (what, down)" by (cases p)
  show ?thesis
  proof (cases what)
    case (Keyed k)
    obtain a s1 where a: "st_reserve S (t1, t2) (full_key k) (keyed_fp k) s = (a, s1)" by fastforce
    then show ?thesis
      using assms Some p Keyed reserve_taken [of t1 t2 "full_key k" "keyed_fp k" s _ s1]
        reserve_down [of t1 t2 "full_key k" "keyed_fp k" s _ s1]
      by (cases down) (auto simp: idem_begin_def split: sum.splits option.splits)
  qed (use assms Some p in \<open>auto simp: idem_begin_def\<close>)
qed

lemma idem_ok_execute:
  assumes w: "idem_ok s0 now rn rm" and t: "now \<le> t1" "t1 \<le> t2"
    and r: "st_reserve S (t1, t2) (full_key k) (keyed_fp k) s0 = (Inr None, s)"
  shows "idem_ok s t2 (rn(i \<mapsto> (k, t2 + reservation_ttl))) rm"
proof (rule idem_okI)
  note g = reserve_new [OF r]
  have frame: "covers s t2 key x u \<and> (key = full_key k \<longrightarrow> u \<le> t1)"
    if "covers s0 now key x u" for key x u
    using covers_ended [OF that t] covers_frame [OF that t] g by (cases "key = full_key k") auto
  have old: "covers s t2 (full_key l) (reserved l) u \<and> (full_key l = full_key k \<longrightarrow> u \<le> t1)"
    if "rn j = Some (l, u)" for j l u
    using frame [OF idem_okD(1) [OF w that]] .
  show "covers s t2 (full_key l) (reserved l) u"
    if "(rn(i \<mapsto> (k, t2 + reservation_ttl))) j = Some (l, u)" for j l u
    using that g t old [of j l u] by (cases "j = i") (auto simp: covers_def)
  show "u \<le> t2 \<or> v \<le> t2"
    if "(rn(i \<mapsto> (k, t2 + reservation_ttl))) a = Some (l, u)"
      "(rn(i \<mapsto> (k, t2 + reservation_ttl))) b = Some (m, v)" "full_key l = full_key m" "a \<noteq> b" for a b l m u v
  proof (cases "a = i \<or> b = i")
    case True
    with that old [of a l u] old [of b m v] t show ?thesis by (auto split: if_splits)
  next
    case False
    with that idem_okD(2) [OF w, of a l u b m v] t show ?thesis by auto
  qed
  show "response x \<noteq> None \<and> covers s t2 key x u" if "rm key = Some (x, u)" for key x u
    using idem_okD(3) [OF w that] frame [OF idem_okD(4) [OF w that]] by blast
qed

lemma idem_ok_finish:
  assumes w: "idem_ok s0 now rn rm" and t: "now \<le> t" "t < until" and k: "rn i = Some (k, until)"
    and s: "\<forall>t'\<ge>t. live s t' = (live s0 t')(full_key k := x t')"
    and x: "\<And>t' r u. t \<le> t' \<Longrightarrow> new = Some (r, u) \<Longrightarrow> t' < u \<Longrightarrow> x t' = Some r"
      "\<And>r u. new = Some (r, u) \<Longrightarrow> response r \<noteq> None"
  shows "idem_ok s t (rn(i := None)) (case new of None \<Rightarrow> rm | Some e \<Rightarrow> rm(full_key k \<mapsto> e))"
proof (rule idem_okI)
  have other: "covers s t (full_key l) (reserved l) v" if l: "rn j = Some (l, v)" "j \<noteq> i" for j l v
  proof (cases "full_key l = full_key k")
    case True
    with idem_okD(2) [OF w k l(1)] l(2) t have "v \<le> t" by force
    then show ?thesis by (rule covers_past)
  next
    case False
    with covers_frame [OF idem_okD(1) [OF w l(1)] t(1) order_refl] s show ?thesis by simp
  qed
  then show "covers s t (full_key l) (reserved l) v" if "(rn(i := None)) j = Some (l, v)" for j l v
    using that by (auto split: if_splits)
  show "a \<le> t \<or> b \<le> t"
    if "(rn(i := None)) j = Some (l, a)" "(rn(i := None)) j' = Some (m, b)"
      "full_key l = full_key m" "j \<noteq> j'" for j j' l m a b
    using that idem_okD(2) [OF w, of j l a j' m b] t by (auto split: if_splits)
  have here: "live s0 t (full_key k) = Some (reserved k)"
    using idem_okD(1) [OF w k] t by (simp add: covers_def)
  have kept: "response y \<noteq> None \<and> covers s t key y v" if y: "rm key = Some (y, v)" for key y v
  proof (cases "key = full_key k")
    case True
    with here idem_okD(3) [OF w y] have "live s0 t key \<noteq> Some y" by auto
    from covers_ended(2) [OF idem_okD(4) [OF w y] t(1) order_refl this] idem_okD(3) [OF w y] show ?thesis by simp
  next
    case False
    with covers_frame [OF idem_okD(4) [OF w y] t(1) order_refl] s idem_okD(3) [OF w y] show ?thesis by simp
  qed
  show "response y \<noteq> None \<and> covers s t key y v"
    if "(case new of None \<Rightarrow> rm | Some e \<Rightarrow> (rm)(full_key k \<mapsto> e)) key = Some (y, v)" for key y v
  proof (cases new)
    case None
    with that kept show ?thesis by simp
  next
    case (Some e)
    show ?thesis
    proof (cases "key = full_key k")
      case True
      with that Some have "new = Some (y, v)" by simp
      with True x s show ?thesis by (auto simp: covers_def)
    next
      case False
      with that Some kept show ?thesis by simp
    qed
  qed
qed

lemma outcome_has_response: "outcome_record cfg k raised outs = Some r \<Longrightarrow> response r \<noteq> None"
  by (auto simp: outcome_record_def Let_def split: if_splits)

lemma idem_inv_step:
  assumes w: "idem_inv w" and "idem_step S record_ttl reservation_ttl sha256 cfg w w'"
  shows "idem_inv w'"
  using assms(2)
proof cases
  case (execute t1 t2 i r socket k down s)
  with idem_ok_execute [OF w execute(2,3) begin_execute] show ?thesis by auto
next
  case (other t1 t2 r socket d s)
  with idem_ok_quiet [OF w other(2,3) begin_other [OF other(4,5)]] show ?thesis by simp
next
  case (finish t i k until raised outs err s)
  note fin = idem_ok_finish [OF w finish(2,4,3)]
  show ?thesis
  proof (cases "outcome_record cfg k raised outs")
    case None
    then have rel: "st_release S (full_key k) (idem_state w) = (err, s)"
      using finish(5) by (simp add: idem_finish_def)
    have "\<exists>x. \<forall>t'\<ge>t. live s t' = (live (idem_state w) t')(full_key k := x t')"
      using release_ok [of "full_key k" "idem_state w" s] release_down [of "full_key k" "idem_state w" _ s] rel
      by (cases err) (auto intro: exI [of _ "\<lambda>t'. live (idem_state w) t' (full_key k)"])
    then obtain x where "\<forall>t'\<ge>t. live s t' = (live (idem_state w) t')(full_key k := x t')" ..
    from fin [OF this, of None] None finish(1) show ?thesis by simp
  next
    case (Some r)
    then have com: "st_complete S t (full_key k) r (idem_state w) = (err, s)"
      using finish(5) by (simp add: idem_finish_def)
    show ?thesis
    proof (cases err)
      case None
      have "\<forall>t'\<ge>t. live s t' = (live (idem_state w) t')(full_key k := if t' < t + record_ttl then Some r else None)"
        using complete_ok [of t "full_key k" r "idem_state w" s] com None by simp
      from fin [OF this, of "Some (r, t + record_ttl)"] Some None finish(1) outcome_has_response [OF Some]
      show ?thesis by simp
    next
      case (Some e)
      have "\<forall>t'\<ge>t. live s t' = (live (idem_state w) t')(full_key k := live (idem_state w) t' (full_key k))"
        using complete_down [of t "full_key k" r "idem_state w" e s] com Some by simp
      from fin [OF this, of None] Some finish(1) show ?thesis by (simp split: option.split)
    qed
  qed
next
  case (die i)
  with idem_ok_die [OF w] show ?thesis by simp
qed

lemma idem_inv_new: "idem_inv (new_idem_world s t)"
  by (simp add: idem_ok_def new_idem_world_def)

lemma idem_inv_reach:
  "reach (\<lambda>w. w \<in> range (new_idem_world s0)) (idem_step S record_ttl reservation_ttl sha256 cfg) w \<Longrightarrow> idem_inv w"
proof (induction rule: reach.induct)
  case (reach_init w)
  then show ?case using idem_inv_new by blast
next
  case (reach_step w w')
  then show ?case using idem_inv_step by blast
qed

text \<open>While an answer is remembered, a request for its key is answered from it or refused.\<close>

lemma remembered_answers:
  assumes w: "idem_inv w" and rm: "remembered w (full_key k) = Some (r, u)" and t: "idem_now w \<le> t1" "t1 < u"
    and p: "idem_prepare sha256 cfg scope socket = Some (Keyed k, down)"
    and up: "\<And>e s'. st_reserve S (t1, t2) (full_key k) (keyed_fp k) (idem_state w) \<noteq> (Inl e, s')"
  shows "fst (idem_begin S sha256 cfg (t1, t2) scope socket (idem_state w)) = Some (handle_existing k r, down)"
proof -
  have here: "live (idem_state w) t1 (full_key k) = Some r"
    using idem_okD(4) [OF w rm] t by (simp add: covers_def)
  obtain a s' where a: "st_reserve S (t1, t2) (full_key k) (keyed_fp k) (idem_state w) = (a, s')" by fastforce
  have "a = Inr (Some r)"
  proof (cases a)
    case (Inl e)
    with a up show ?thesis by simp
  next
    case (Inr x)
    show ?thesis
    proof (cases x)
      case None
      with reserve_new [of t1 t2 "full_key k" "keyed_fp k" "idem_state w" s'] a Inr here show ?thesis by simp
    next
      case (Some r')
      with reserve_taken [of t1 t2 "full_key k" "keyed_fp k" "idem_state w" r' s'] a Inr here show ?thesis by simp
    qed
  qed
  with p a show ?thesis by (cases down) (simp add: idem_begin_def)
qed

end

section \<open>The in-memory store keeps the contract\<close>

definition idem_lookup :: "idem_memory \<Rightarrow> seconds \<Rightarrow> string \<Rightarrow> idem_record option" where
  "idem_lookup m t key = (case m key of None \<Rightarrow> None | Some (r, expires) \<Rightarrow> if expires \<le> t then None else Some r)"

lemmas idem_mem_defs = memory_idem_store_def idem_reserve_def idem_complete_def idem_release_def idem_get_def
  idem_live_def idem_lookup_def

lemma idem_lookup_update [simp]:
  "idem_lookup (m(key := e)) t =
     (idem_lookup m t)(key := (case e of None \<Rightarrow> None | Some (r, u) \<Rightarrow> if u \<le> t then None else Some r))"
  by (simp add: idem_lookup_def fun_eq_iff)

lemma idem_live_spec:
  assumes "idem_live now key m = (r, m1)"
  shows "r = idem_lookup m now key" "now \<le> t \<Longrightarrow> idem_lookup m1 t = idem_lookup m t"
proof -
  show "r = idem_lookup m now key"
    using assms by (auto simp: idem_live_def idem_lookup_def split: option.splits if_splits)
  show "idem_lookup m1 t = idem_lookup m t" if "now \<le> t"
  proof (cases "m1 = m")
    case False
    with assms obtain r' u where "m key = Some (r', u)" "u \<le> now" "m1 = m(key := None)"
      by (auto simp: idem_live_def split: option.splits if_splits)
    with that show ?thesis by (simp add: idem_lookup_def fun_eq_iff)
  qed simp
qed

lemma idem_reserve_spec:
  assumes "idem_reserve ttl (t1, t2) key fp m = (a, m')"
  shows "a = Inr (idem_lookup m t1 key)"
    and "idem_lookup m t1 key = None \<Longrightarrow> t1 \<le> t \<Longrightarrow>
      idem_lookup m' t = (idem_lookup m t)(key := if t < t2 + ttl then Some \<lparr>fingerprint = fp, response = None\<rparr> else None)"
    and "idem_lookup m t1 key \<noteq> None \<Longrightarrow> t1 \<le> t \<Longrightarrow> idem_lookup m' t = idem_lookup m t"
proof -
  obtain r m1 where live: "idem_live t1 key m = (r, m1)" by fastforce
  note spec = idem_live_spec [OF live]
  show "a = Inr (idem_lookup m t1 key)"
    using assms live spec(1) by (auto simp: idem_reserve_def split: option.splits)
  show "idem_lookup m' t = (idem_lookup m t)(key := if t < t2 + ttl then Some \<lparr>fingerprint = fp, response = None\<rparr> else None)"
    if "idem_lookup m t1 key = None" "t1 \<le> t"
  proof -
    have "m' = m1(key \<mapsto> (\<lparr>fingerprint = fp, response = None\<rparr>, t2 + ttl))"
      using assms live spec(1) that(1) by (auto simp: idem_reserve_def split: option.splits)
    with spec(2) [OF that(2)] show ?thesis by (simp add: not_le [symmetric])
  qed
  show "idem_lookup m' t = idem_lookup m t" if "idem_lookup m t1 key \<noteq> None" "t1 \<le> t"
  proof -
    have "m' = m1"
      using assms live spec(1) that(1) by (auto simp: idem_reserve_def split: option.splits)
    with spec(2) [OF that(2)] show ?thesis by simp
  qed
qed

lemma memory_idem_store_ops [simp]:
  "st_reserve (memory_idem_store record_ttl reservation_ttl) = idem_reserve reservation_ttl"
  "st_complete (memory_idem_store record_ttl reservation_ttl) = idem_complete record_ttl"
  "st_release (memory_idem_store record_ttl reservation_ttl) = idem_release"
  "st_get (memory_idem_store record_ttl reservation_ttl) = idem_get"
  by (simp_all add: memory_idem_store_def)

interpretation idem_memory: idem_provider "memory_idem_store record_ttl reservation_ttl" record_ttl reservation_ttl idem_lookup
  for record_ttl reservation_ttl
proof (unfold_locales, unfold memory_idem_store_ops)
  fix t1 t2 :: seconds and key fp :: string and s s' :: idem_memory and r :: idem_record and e :: idem_error
  note spec = idem_reserve_spec [of reservation_ttl t1 t2 key fp s _ s']
  show "idem_reserve reservation_ttl (t1, t2) key fp s = (Inr None, s') \<Longrightarrow>
      idem_lookup s t1 key = None \<and>
      (\<forall>t\<ge>t1. idem_lookup s' t = (idem_lookup s t)
         (key := if t < t2 + reservation_ttl then Some \<lparr>fingerprint = fp, response = None\<rparr> else None))"
    using spec [of "Inr None"] by simp
  show "idem_reserve reservation_ttl (t1, t2) key fp s = (Inr (Some r), s') \<Longrightarrow>
      idem_lookup s t1 key = Some r \<and> (\<forall>t\<ge>t1. idem_lookup s' t = idem_lookup s t)"
    using spec(1,3) [of "Inr (Some r)"] by (metis option.distinct(1) sum.inject(2))
  show "idem_reserve reservation_ttl (t1, t2) key fp s = (Inl e, s') \<Longrightarrow> \<forall>t\<ge>t1. idem_lookup s' t = idem_lookup s t"
    using spec(1) [of "Inl e"] by simp
qed (auto simp: idem_complete_def idem_release_def not_le [symmetric])

abbreviation idem_reachable ::
    "seconds \<Rightarrow> seconds \<Rightarrow> (string \<Rightarrow> string) \<Rightarrow> idem_config \<Rightarrow> idem_memory idem_world \<Rightarrow> bool" where
  "idem_reachable record_ttl reservation_ttl sha256 cfg \<equiv>
     reach (\<lambda>w. w \<in> range (new_idem_world Map.empty))
       (idem_step (memory_idem_store record_ttl reservation_ttl) record_ttl reservation_ttl sha256 cfg)"

lemma memory_reserve_up: "st_reserve (memory_idem_store record_ttl reservation_ttl) clock key fp m \<noteq> (Inl e, m')"
  by (auto simp: idem_mem_defs split: option.splits if_splits)

section \<open>Fingerprints\<close>

lemma fingerprint_part_inject:
  assumes "fingerprint_part a @ xs = fingerprint_part b @ ys"
  shows "a = b \<and> xs = ys"
proof -
  have "decimal (length a) @ CHR 0x00 # a @ xs = decimal (length b) @ CHR 0x00 # b @ ys"
    using assms by (simp add: fingerprint_part_def)
  from separator_split [OF _ _ this] decimal_digits
  have "decimal (length a) = decimal (length b)" "a @ xs = b @ ys" by auto
  then show ?thesis using decimal_inject by (auto dest: decimal_inject)
qed

lemma fingerprint_input_inject:
  assumes "fingerprint_input m p q b ct = fingerprint_input m' p' q' b' ct'"
  shows "map ascii_upper m = map ascii_upper m' \<and> p = p' \<and> q = q' \<and> b = b' \<and> ct = ct'"
proof -
  have nil: "fingerprint_part a = fingerprint_part a' \<Longrightarrow> a = a'" for a a'
    using fingerprint_part_inject [of a "[]" a' "[]"] by simp
  show ?thesis
    using assms unfolding fingerprint_input_def
    by (auto dest!: fingerprint_part_inject nil utf8_inject)
qed

section \<open>Captured responses and buffered requests\<close>

abbreviation body_messages :: "(string \<times> bool) list \<Rightarrow> asgi_out list" where
  "body_messages chunks \<equiv> map (\<lambda>(b, more_body). ResponseBody b more_body) chunks"

lemma capturing_body:
  "snd (capturing_send cfg key (ResponseBody b more_body) cap) = ResponseBody b more_body"
  "cap_status (fst (capturing_send cfg key (ResponseBody b more_body) cap)) = cap_status cap"
  "cap_headers (fst (capturing_send cfg key (ResponseBody b more_body) cap)) = cap_headers cap"
  "oversized cap \<Longrightarrow> oversized (fst (capturing_send cfg key (ResponseBody b more_body) cap))"
  "\<not> oversized (fst (capturing_send cfg key (ResponseBody b more_body) cap)) \<Longrightarrow>
     cap_body (fst (capturing_send cfg key (ResponseBody b more_body) cap)) = cap_body cap @ b"
  by (auto simp: capturing_send_def Let_def split: if_splits)

lemma capture_bodies:
  "snd (capture_all cfg key (body_messages chunks) cap) = body_messages chunks"
  "cap_status (fst (capture_all cfg key (body_messages chunks) cap)) = cap_status cap"
  "cap_headers (fst (capture_all cfg key (body_messages chunks) cap)) = cap_headers cap"
  by (induction chunks arbitrary: cap) (auto simp: capturing_body case_prod_unfold)

lemma capture_oversized: "oversized cap \<Longrightarrow> oversized (fst (capture_all cfg key (body_messages chunks) cap))"
  by (induction chunks arbitrary: cap) (auto simp: capturing_body case_prod_unfold)

lemma capture_body:
  "\<not> oversized (fst (capture_all cfg key (body_messages chunks) cap)) \<Longrightarrow>
   cap_body (fst (capture_all cfg key (body_messages chunks) cap)) = cap_body cap @ concat (map fst chunks)"
proof (induction chunks arbitrary: cap)
  case (Cons c chunks)
  define cap1 where "cap1 = fst (capturing_send cfg key (ResponseBody (fst c) (snd c)) cap)"
  have rest: "fst (capture_all cfg key (body_messages (c # chunks)) cap) = fst (capture_all cfg key (body_messages chunks) cap1)"
    by (simp add: cap1_def case_prod_unfold)
  with Cons.prems have "\<not> oversized cap1" using capture_oversized [of cap1] by auto
  then have "cap_body cap1 = cap_body cap @ fst c" unfolding cap1_def by (rule capturing_body)
  with Cons.IH [of cap1] Cons.prems rest show ?case by simp
qed simp

lemma buffer_request_split:
  "buffer_request limit body msgs = Some (ms, b, truncated, rest) \<Longrightarrow>
   msgs = ms @ rest \<and>
   (\<not> truncated \<longrightarrow> b = body @ concat (map (\<lambda>m. case m of HttpRequest c _ \<Rightarrow> c | OtherIn _ \<Rightarrow> []) ms)) \<and>
   (truncated \<longrightarrow> limit < int (length (body @ concat (map (\<lambda>m. case m of HttpRequest c _ \<Rightarrow> c | OtherIn _ \<Rightarrow> []) ms))))"
  by (induction limit body msgs arbitrary: ms rule: buffer_request.induct)
    (auto simp: Let_def split: if_splits option.splits)

text \<open>Reading through \<open>_ReplayReceive\<close> until the socket is empty.\<close>

fun receive_all :: "nat \<Rightarrow> asgi_in list \<Rightarrow> asgi_in list \<Rightarrow> asgi_in list" where
  "receive_all 0 pending socket = []"
| "receive_all (Suc n) pending socket =
     (case replay_receive pending socket of
        None \<Rightarrow> []
      | Some (m, pending', socket') \<Rightarrow> m # receive_all n pending' socket')"

lemma receive_all_append: "length pending + length socket \<le> n \<Longrightarrow> receive_all n pending socket = pending @ socket"
proof (induction n arbitrary: pending socket)
  case (Suc n)
  then show ?case
    by (cases pending; cases socket) (auto simp: replay_receive_def)
qed simp

subsection \<open>One order, sent twice\<close>

definition order_request :: http_scope where
  "order_request = \<lparr>scope_type = ''http'', scope_method = ''POST'', url_path = ''/api/orders'', url_query = [],
     key_header = Some ''k1'', content_type_header = None, authorization_header = None\<rparr>"

definition order_body :: "asgi_in list" where
  "order_body = [HttpRequest ''item'' False]"

definition order_key :: keyed where
  "order_key = \<lparr>full_key = ''anon:k1'', client_key = ''k1'', keyed_fp = ''d''\<rparr>"

definition order_answer :: "asgi_out list" where
  "order_answer = [ResponseStart 201 [(''set-cookie'', ''s''), (''etag'', ''1'')], ResponseBody ''o'' True, ResponseBody ''k'' False]"

lemma order_key_sel [simp]: "full_key order_key = ''anon:k1''" "client_key order_key = ''k1''" "keyed_fp order_key = ''d''"
  by (simp_all add: order_key_def)

lemma order_prepare:
  "idem_prepare (\<lambda>_. ''d'') default_idem_config order_request order_body = Some (Keyed order_key, order_body, [])"
  by code_simp

lemma order_outcome:
  "outcome_record default_idem_config order_key False order_answer =
     Some \<lparr>fingerprint = ''d'', response = Some \<lparr>stored_status = 201, stored_headers = [(''etag'', ''1'')], stored_body = ''ok''\<rparr>\<rparr>"
  by code_simp

abbreviation order_step :: "idem_memory idem_world \<Rightarrow> idem_memory idem_world \<Rightarrow> bool" where
  "order_step \<equiv> idem_step (memory_idem_store 3600 60) 3600 60 (\<lambda>_. ''d'') default_idem_config"

definition order_reserved :: "nat \<Rightarrow> seconds \<Rightarrow> idem_memory idem_world \<Rightarrow> idem_memory idem_world" where
  "order_reserved i t w =
     w\<lparr>idem_state := (idem_state w)(''anon:k1'' \<mapsto> (\<lparr>fingerprint = ''d'', response = None\<rparr>, t + 60)),
       idem_now := t, running := (running w)(i \<mapsto> (order_key, t + 60))\<rparr>"

lemma order_executes:
  assumes "idem_now w \<le> t" "running w i = None" "idem_lookup (idem_state w) t ''anon:k1'' = None"
  shows "order_step w (order_reserved i t w)"
proof -
  have live: "idem_live t ''anon:k1'' (idem_state w) = (None, (idem_state w)(''anon:k1'' := None))"
    using assms(3) by (auto simp: idem_live_def idem_lookup_def fun_eq_iff split: option.splits if_splits)
  have "idem_begin (memory_idem_store 3600 60) (\<lambda>_. ''d'') default_idem_config (t, t) order_request order_body (idem_state w) =
      (Some (Execute order_key, order_body, []),
       (idem_state w)(''anon:k1'' \<mapsto> (\<lparr>fingerprint = ''d'', response = None\<rparr>, t + 60)))"
    by (simp add: idem_begin_def order_prepare idem_reserve_def live)
  from idem_step.execute [OF assms(1) order_refl assms(2) this]
  show ?thesis by (simp add: order_reserved_def)
qed

lemma empty_reachable: "idem_reachable 3600 60 (\<lambda>_. ''d'') default_idem_config (new_idem_world Map.empty 0)"
  by (rule reach_init) simp

definition order_once :: "idem_memory idem_world" where
  "order_once = order_reserved 0 0 (new_idem_world Map.empty 0)"

definition order_twice :: "idem_memory idem_world" where
  "order_twice = order_reserved 1 100 order_once"

lemma order_once_reachable: "idem_reachable 3600 60 (\<lambda>_. ''d'') default_idem_config order_once"
  unfolding order_once_def
  by (rule reach_step [OF empty_reachable order_executes]) (simp_all add: new_idem_world_def idem_lookup_def)

lemma order_twice_reachable: "idem_reachable 3600 60 (\<lambda>_. ''d'') default_idem_config order_twice"
  unfolding order_twice_def
  by (rule reach_step [OF order_once_reachable order_executes])
    (simp_all add: order_once_def order_reserved_def new_idem_world_def idem_lookup_def)

definition order_done :: "idem_memory idem_world" where
  "order_done = order_once\<lparr>idem_state := (idem_state order_once)(''anon:k1'' \<mapsto> (the (outcome_record default_idem_config order_key False order_answer), 1 + 3600)),
     idem_now := 1, running := (running order_once)(0 := None),
     remembered := (remembered order_once)(''anon:k1'' \<mapsto> (the (outcome_record default_idem_config order_key False order_answer), 1 + 3600))\<rparr>"

lemma order_done_reachable: "idem_reachable 3600 60 (\<lambda>_. ''d'') default_idem_config order_done"
proof -
  have "idem_finish (memory_idem_store 3600 60) default_idem_config order_key 1 False order_answer (idem_state order_once) =
      (None, idem_state order_done)"
    by (simp add: idem_finish_def order_outcome idem_complete_def order_done_def)
  then have "order_step order_once order_done"
    using idem_step.finish [of order_once 1 0 order_key 60 "memory_idem_store 3600 60" default_idem_config False order_answer
        None "idem_state order_done" 3600 60 "\<lambda>_. ''d''"]
    by (simp add: order_once_def order_reserved_def new_idem_world_def order_done_def order_outcome)
  from reach_step [OF order_once_reachable this] show ?thesis .
qed

section \<open>Properties\<close>





text \<open>
  a replay repeats the answer. When an execution that sent a start and its body in chunks is
  stored, the client saw those messages with the key header added, and a replay sends the same
  status, the same headers except \<open>set-cookie\<close>, and the same bytes in one chunk, marked as a replay.
\<close>

theorem replay_repeats_the_answer:
  assumes "outcome_record cfg k raised (ResponseStart status headers # body_messages chunks) = Some r"
  shows "forwarded cfg k (ResponseStart status headers # body_messages chunks) =
           ResponseStart status (headers @ [(''idempotency-key'', utf8 (client_key k))]) # body_messages chunks \<and>
         fingerprint r = keyed_fp k \<and>
         send_stored (the (response r)) (client_key k) =
           [ResponseStart status
              (filter (\<lambda>(name, _). map ascii_lower name \<notin> set STRIPPED_RESPONSE_HEADERS) headers @
               [(''idempotency-key'', utf8 (client_key k)), (''idempotency-replayed'', ''true'')]),
            ResponseBody (concat (map fst chunks)) False]"
proof -
  define cap1 where "cap1 = new_capture\<lparr>cap_status := status, cap_headers := headers\<rparr>"
  obtain cap' ms where all: "capture_all cfg (client_key k) (body_messages chunks) cap1 = (cap', ms)" by fastforce
  note split = capture_bodies [of cfg "client_key k" chunks cap1, unfolded all]
    capture_body [of cfg "client_key k" chunks cap1, unfolded all]
  have start: "capture_all cfg (client_key k) (ResponseStart status headers # body_messages chunks) new_capture =
      (cap', ResponseStart status (headers @ [(''idempotency-key'', utf8 (client_key k))]) # ms)"
    using all by (simp add: capturing_send_def cap1_def)
  have "cap_body cap1 = []" "cap_status cap1 = status" "cap_headers cap1 = headers"
    by (simp_all add: cap1_def new_capture_def)
  with split have cap': "ms = body_messages chunks" "cap_status cap' = status" "cap_headers cap' = headers"
      "\<not> oversized cap' \<longrightarrow> cap_body cap' = concat (map fst chunks)" by auto
  from assms have "\<not> oversized cap'" and r: "r = \<lparr>fingerprint = keyed_fp k, response = Some (stored_of cap')\<rparr>"
    unfolding outcome_record_def start Let_def by (auto split: if_splits)
  with cap' show ?thesis
    unfolding forwarded_def start r by (simp add: send_stored_def stored_of_def)
qed

theorem replay_repeats_the_answer_witness:
  "send_stored (the (response (the (outcome_record default_idem_config order_key False order_answer)))) ''k1'' =
     [ResponseStart 201 [(''etag'', ''1''), (''idempotency-key'', ''k1''), (''idempotency-replayed'', ''true'')], ResponseBody ''ok'' False]"
proof -
  have answer: "order_answer = ResponseStart 201 [(''set-cookie'', ''s''), (''etag'', ''1'')] # body_messages [(''o'', True), (''k'', False)]"
    by (simp add: order_answer_def)
  have headers: "filter (\<lambda>(name, _). map ascii_lower name \<notin> set STRIPPED_RESPONSE_HEADERS) [(''set-cookie'', ''s''), (''etag'', ''1'')] =
      [(''etag'', ''1'')]" "utf8 ''k1'' = ''k1''" by code_simp+
  show ?thesis
    using replay_repeats_the_answer [OF order_outcome [unfolded answer]] headers
    by (simp add: order_outcome)
qed

text \<open>
  C33: a stored answer belongs to one request of one caller. Unless the digest collides on the very
  inputs, two requests with equal fingerprints have the same method, path, query, content type and
  body; and since a digest has no colon, equal storage keys come from the same caller namespace and
  the same client key.
\<close>

theorem fingerprint_identifies_request:
  assumes "request_fingerprint sha256 m p q b ct = request_fingerprint sha256 m' p' q' b' ct'"
    and "sha256 (fingerprint_input m p q b ct) = sha256 (fingerprint_input m' p' q' b' ct') \<longrightarrow>
         fingerprint_input m p q b ct = fingerprint_input m' p' q' b' ct'"
    and "\<forall>x. CHR '':'' \<notin> set (sha256 x)"
    and "storage_key (scope_fingerprint sha256 a) key = storage_key (scope_fingerprint sha256 a') key'"
  shows "map ascii_upper m = map ascii_upper m' \<and> p = p' \<and> q = q' \<and> b = b' \<and> ct = ct' \<and>
         scope_fingerprint sha256 a = scope_fingerprint sha256 a' \<and> key = key'"
proof -
  have "CHR '':'' \<notin> set (scope_fingerprint sha256 x)" for x
    using assms(3) by (auto simp: scope_fingerprint_def split: option.splits dest: in_set_takeD)
  then have "scope_fingerprint sha256 a = scope_fingerprint sha256 a' \<and> key = key'"
    using separator_split [of "CHR '':''" "scope_fingerprint sha256 a" "scope_fingerprint sha256 a'" key key'] assms(4)
    by (simp add: storage_key_def)
  moreover have "fingerprint_input m p q b ct = fingerprint_input m' p' q' b' ct'"
    using assms(1,2) unfolding request_fingerprint_def by (rule mp [rotated])
  ultimately show ?thesis using fingerprint_input_inject by blast
qed

theorem fingerprint_identifies_request_witness:
  "map ascii_upper ''post'' = map ascii_upper ''POST'' \<and>
   scope_fingerprint (\<lambda>_. ''d'') None = scope_fingerprint (\<lambda>_. ''d'') (Some [])"
proof -
  have up: "map ascii_upper ''post'' = ''POST''" "map ascii_upper ''POST'' = ''POST''" by code_simp+
  have "fingerprint_input ''post'' ''/a'' [] ''x'' [] = fingerprint_input ''POST'' ''/a'' [] ''x'' []"
    by (simp only: fingerprint_input_def up)
  then show ?thesis
    using fingerprint_identifies_request [of "\<lambda>_. ''d''" "''post''" "''/a''" "[]" "''x''" "[]" "''POST''" "''/a''" "[]" "''x''" "[]"
        None "''k''" "Some []" "''k''"]
    by (simp add: request_fingerprint_def scope_fingerprint_def)
qed

text \<open>
  fingerprinting a request does not damage it. When the middleware has read the body, the
  application receives exactly the messages that the client sent, in order, and the body that is
  fingerprinted is the concatenation of the chunks read, unless it is over the limit.
\<close>

theorem buffering_loses_nothing:
  assumes "buffer_request limit [] msgs = Some (buffered, body, truncated, rest)" and "length msgs \<le> n"
  shows "receive_all n buffered rest = msgs \<and>
    (let read = concat (map (\<lambda>m. case m of HttpRequest c _ \<Rightarrow> c | OtherIn _ \<Rightarrow> []) buffered) in
     if truncated then limit < int (length read) else body = read)"
  using buffer_request_split [OF assms(1)] assms(2) by (auto simp: receive_all_append Let_def)

theorem buffering_loses_nothing_witness:
  "buffer_request 3 [] [HttpRequest ''ab'' True, HttpRequest ''cd'' True, HttpRequest ''ef'' False] =
     Some ([HttpRequest ''ab'' True, HttpRequest ''cd'' True], [], True, [HttpRequest ''ef'' False]) \<and>
   receive_all 3 [HttpRequest ''ab'' True, HttpRequest ''cd'' True] [HttpRequest ''ef'' False] =
     [HttpRequest ''ab'' True, HttpRequest ''cd'' True, HttpRequest ''ef'' False]"
proof -
  have "buffer_request 3 [] [HttpRequest ''ab'' True, HttpRequest ''cd'' True, HttpRequest ''ef'' False] =
     Some ([HttpRequest ''ab'' True, HttpRequest ''cd'' True], [], True, [HttpRequest ''ef'' False])"
    by simp
  with buffering_loses_nothing [OF this, of 3] show ?thesis by simp
qed

end
