(* ===== verification/Kafka_Broker.thy ===== *)
theory Kafka_Broker
  imports Py_Prelude "HOL-Library.AList" "HOL-Library.Char_ord" "HOL-Library.List_Lexorder" "HOL-Library.Word"
begin

text \<open>
  Records, partitions and the in-process broker (\<open>src/src/kafka/base.py\<close> and \<open>memory.py\<close>).

  A topic is a list of append-only logs, a group keeps committed offsets and its members in the order
  they joined, and a source keeps its assignment and its read positions. Sources are objects that
  their group refers to, so they live in the broker state under an identity, a natural number; a
  rebalance changes all members of a group. Methods without an \<open>await\<close> are single steps. \<open>poll\<close> waits
  for records in a loop; \<open>source_poll\<close> is one round of it, and other members act between rounds.

  A broker is built with at least one partition per topic.
\<close>

unbundle bit_operations_syntax

section \<open>Definitions\<close>

subsection \<open>Records\<close>

record partition =
  ptopic :: string
  pnumber :: nat

type_synonym headers = "(string \<times> string) list"

record consumed_message =
  msg_partition :: partition
  msg_offset :: int
  msg_key :: "string option"
  msg_value :: "string option"
  msg_headers :: headers
  msg_timestamp :: seconds

record published_message =
  pub_partition :: partition
  pub_offset :: int
  pub_timestamp :: seconds

definition is_tombstone :: "consumed_message \<Rightarrow> bool" where
  "is_tombstone m \<longleftrightarrow> msg_value m = None"

definition next_offset :: "consumed_message \<Rightarrow> int" where
  "next_offset m = msg_offset m + 1"

definition msg_header :: "string \<Rightarrow> consumed_message \<Rightarrow> string option" where
  "msg_header name m = map_of (msg_headers m) name"

definition all_headers :: "string \<Rightarrow> consumed_message \<Rightarrow> string list" where
  "all_headers name m = map snd (filter (\<lambda>(key, _). key = name) (msg_headers m))"

datatype kafka_error =
    LifecycleError
  | ConsumerError partition
  | EmptyTopic
  | TombstoneWithoutKey
  | NoPartitions
  | TopicExists string
  | NoTopics
  | EmptyGroupId
  | MaxRecordsTooSmall
  | NegativeOffset partition

definition validate_record :: "string \<Rightarrow> string option \<Rightarrow> string option \<Rightarrow> kafka_error option" where
  "validate_record topic key value =
     (if topic = [] then Some EmptyTopic
      else if value = None \<and> key = None then Some TombstoneWithoutKey
      else None)"

subsection \<open>Topics\<close>

record log_record =
  rec_offset :: int
  rec_key :: "string option"
  rec_value :: "string option"
  rec_headers :: headers
  rec_timestamp :: seconds

definition consumed :: "partition \<Rightarrow> log_record \<Rightarrow> consumed_message" where
  "consumed p r =
     \<lparr>msg_partition = p, msg_offset = rec_offset r, msg_key = rec_key r, msg_value = rec_value r,
      msg_headers = rec_headers r, msg_timestamp = rec_timestamp r\<rparr>"

text \<open>\<open>next_slot\<close> is what \<open>next\<close> on \<open>itertools.cycle(range(partitions))\<close> returns.\<close>

record ktopic =
  t_name :: string
  logs :: "log_record list list"
  next_slot :: nat

definition new_topic :: "string \<Rightarrow> nat \<Rightarrow> ktopic" where
  "new_topic name partitions = \<lparr>t_name = name, logs = replicate partitions [], next_slot = 0\<rparr>"

definition partition_count :: "ktopic \<Rightarrow> nat" where
  "partition_count t = length (logs t)"

definition topic_partitions :: "ktopic \<Rightarrow> partition list" where
  "topic_partitions t = map (\<lambda>i. \<lparr>ptopic = t_name t, pnumber = i\<rparr>) [0..<partition_count t]"

definition byte_word :: "char \<Rightarrow> 32 word" where
  "byte_word c = of_nat (of_char c)"

definition fnv1a :: "string \<Rightarrow> 32 word" where
  "fnv1a txt = foldl (\<lambda>result c. (result XOR byte_word c) * 0x01000193) 0x811C9DC5 (utf8 txt)"

definition partition_for :: "string option \<Rightarrow> ktopic \<Rightarrow> nat \<times> ktopic" where
  "partition_for key t =
     (case key of
        None \<Rightarrow> (next_slot t, t\<lparr>next_slot := (next_slot t + 1) mod partition_count t\<rparr>)
      | Some k \<Rightarrow> (unat (fnv1a k) mod partition_count t, t))"

definition topic_append ::
    "seconds \<Rightarrow> string option \<Rightarrow> string option \<Rightarrow> headers \<Rightarrow> ktopic \<Rightarrow> (partition \<times> log_record) \<times> ktopic" where
  "topic_append now key val hs t =
     (case partition_for key t of
        (i, t1) \<Rightarrow>
          let r = \<lparr>rec_offset = int (length (logs t1 ! i)), rec_key = key, rec_value = val, rec_headers = hs,
                   rec_timestamp = now\<rparr>
          in ((\<lparr>ptopic = t_name t1, pnumber = i\<rparr>, r), t1\<lparr>logs := (logs t1)[i := logs t1 ! i @ [r]]\<rparr>))"

text \<open>\<open>log[position : position + limit]\<close> for a position that is not negative.\<close>

definition topic_read :: "partition \<Rightarrow> int \<Rightarrow> int \<Rightarrow> ktopic \<Rightarrow> log_record list" where
  "topic_read p pos limit t =
     (let log = logs t ! pnumber p in
      if pos \<ge> int (length log) then [] else take (nat limit) (drop (nat pos) log))"

definition topic_end_offset :: "partition \<Rightarrow> ktopic \<Rightarrow> int" where
  "topic_end_offset p t = int (length (logs t ! pnumber p))"

subsection \<open>Groups, sources and the broker\<close>

record kgroup =
  committed :: "partition \<Rightarrow> int option"
  members :: "nat list"

datatype offset_reset = Earliest | Latest

record source =
  s_topics :: "string list"
  s_group :: string
  s_reset :: offset_reset
  s_started :: bool
  s_assignment :: "partition list"
  s_positions :: "partition \<Rightarrow> int option"

record broker =
  default_partitions :: nat
  topics :: "string \<Rightarrow> ktopic option"
  groups :: "string \<Rightarrow> kgroup option"
  sources :: "nat \<Rightarrow> source option"

definition new_broker :: "nat \<Rightarrow> broker" where
  "new_broker partitions = \<lparr>default_partitions = partitions, topics = Map.empty, groups = Map.empty, sources = Map.empty\<rparr>"

definition create_topic :: "string \<Rightarrow> nat option \<Rightarrow> broker \<Rightarrow> kafka_error option \<times> broker" where
  "create_topic name partitions b =
     (if topics b name \<noteq> None then (Some (TopicExists name), b)
      else let n = (case partitions of None \<Rightarrow> default_partitions b | Some n \<Rightarrow> n) in
        if n < 1 then (Some NoPartitions, b)
        else (None, b\<lparr>topics := (topics b)(name \<mapsto> new_topic name n)\<rparr>))"

definition broker_topic :: "string \<Rightarrow> broker \<Rightarrow> ktopic \<times> broker" where
  "broker_topic name b =
     (case topics b name of
        Some t \<Rightarrow> (t, b)
      | None \<Rightarrow>
          let t = new_topic name (default_partitions b) in
          (t, b\<lparr>topics := (topics b)(name \<mapsto> t)\<rparr>))"

fun collect_partitions :: "string list \<Rightarrow> broker \<Rightarrow> partition list \<times> broker" where
  "collect_partitions [] b = ([], b)"
| "collect_partitions (name # names) b =
     (case broker_topic name b of
        (t, b1) \<Rightarrow> (case collect_partitions names b1 of (ps, b2) \<Rightarrow> (topic_partitions t @ ps, b2)))"

definition partitions_for :: "string list \<Rightarrow> broker \<Rightarrow> partition list \<times> broker" where
  "partitions_for names b = collect_partitions (sort names) b"

definition new_group :: kgroup where
  "new_group = \<lparr>committed = Map.empty, members = []\<rparr>"

definition broker_group :: "string \<Rightarrow> broker \<Rightarrow> kgroup" where
  "broker_group gid b = (case groups b gid of Some g \<Rightarrow> g | None \<Rightarrow> new_group)"

definition set_group :: "string \<Rightarrow> kgroup \<Rightarrow> broker \<Rightarrow> broker" where
  "set_group gid g b = b\<lparr>groups := (groups b)(gid \<mapsto> g)\<rparr>"

definition broker_committed :: "string \<Rightarrow> partition \<Rightarrow> broker \<Rightarrow> int option" where
  "broker_committed gid p b = (case groups b gid of None \<Rightarrow> None | Some g \<Rightarrow> committed g p)"

definition end_offset :: "partition \<Rightarrow> broker \<Rightarrow> int \<times> broker" where
  "end_offset p b = (case broker_topic (ptopic p) b of (t, b1) \<Rightarrow> (topic_end_offset p t, b1))"

definition group_join :: "nat \<Rightarrow> kgroup \<Rightarrow> kgroup" where
  "group_join m g = (if m \<notin> set (members g) then g\<lparr>members := members g @ [m]\<rparr> else g)"

definition group_leave :: "nat \<Rightarrow> kgroup \<Rightarrow> kgroup" where
  "group_leave m g = g\<lparr>members := remove1 m (members g)\<rparr>"

subsection \<open>Publishing\<close>

definition publish ::
    "bool \<Rightarrow> seconds \<Rightarrow> string \<Rightarrow> string option \<Rightarrow> string option \<Rightarrow> headers \<Rightarrow> broker \<Rightarrow>
     (kafka_error + published_message) \<times> broker" where
  "publish started now topic val key hs b =
     (if \<not> started then (Inl LifecycleError, b)
      else case validate_record topic key val of
        Some e \<Rightarrow> (Inl e, b)
      | None \<Rightarrow>
          (case broker_topic topic b of
             (t, b1) \<Rightarrow>
               (case topic_append now key val hs t of
                  ((p, r), t1) \<Rightarrow>
                    (Inr \<lparr>pub_partition = p, pub_offset = rec_offset r, pub_timestamp = rec_timestamp r\<rparr>,
                     b1\<lparr>topics := (topics b1)(topic \<mapsto> t1)\<rparr>))))"

subsection \<open>Sources\<close>

definition new_source :: "nat \<Rightarrow> string list \<Rightarrow> string \<Rightarrow> offset_reset \<Rightarrow> broker \<Rightarrow> kafka_error option \<times> broker" where
  "new_source m names gid rst b =
     (if names = [] then (Some NoTopics, b)
      else if gid = [] then (Some EmptyGroupId, b)
      else (None, b\<lparr>sources := (sources b)(m \<mapsto>
        \<lparr>s_topics = names, s_group = gid, s_reset = rst, s_started = False, s_assignment = [], s_positions = Map.empty\<rparr>)\<rparr>))"

definition starting_position :: "partition \<Rightarrow> kgroup \<Rightarrow> source \<Rightarrow> broker \<Rightarrow> int \<times> broker" where
  "starting_position p g src b =
     (case committed g p of
        Some n \<Rightarrow> (n, b)
      | None \<Rightarrow> if s_reset src = Latest then end_offset p b else (0, b))"

fun starting_positions :: "partition list \<Rightarrow> kgroup \<Rightarrow> source \<Rightarrow> broker \<Rightarrow> (partition \<Rightarrow> int option) \<times> broker" where
  "starting_positions [] g src b = (Map.empty, b)"
| "starting_positions (p # ps) g src b =
     (case starting_position p g src b of
        (n, b1) \<Rightarrow> (case starting_positions ps g src b1 of (m, b2) \<Rightarrow> (m(p \<mapsto> n), b2)))"

definition apply_assignment :: "nat \<Rightarrow> partition list \<Rightarrow> kgroup \<Rightarrow> broker \<Rightarrow> broker" where
  "apply_assignment m assigned g b =
     (case sources b m of
        None \<Rightarrow> b
      | Some src \<Rightarrow>
          (case starting_positions assigned g src b of
             (pos, b1) \<Rightarrow> b1\<lparr>sources := (sources b1)(m \<mapsto> src\<lparr>s_assignment := assigned, s_positions := pos\<rparr>)\<rparr>))"

definition share :: "nat \<Rightarrow> nat \<Rightarrow> 'a list \<Rightarrow> 'a list" where
  "share n index ps = map snd (filter (\<lambda>(position, _). position mod n = index) (enumerate 0 ps))"

fun rebalance_from :: "nat \<Rightarrow> nat \<Rightarrow> nat list \<Rightarrow> kgroup \<Rightarrow> broker \<Rightarrow> broker" where
  "rebalance_from n index [] g b = b"
| "rebalance_from n index (m # ms) g b =
     (case sources b m of
        None \<Rightarrow> rebalance_from n (index + 1) ms g b
      | Some src \<Rightarrow>
          (case partitions_for (s_topics src) b of
             (ps, b1) \<Rightarrow> rebalance_from n (index + 1) ms g (apply_assignment m (share n index ps) g b1)))"

definition rebalance :: "kgroup \<Rightarrow> broker \<Rightarrow> broker" where
  "rebalance g b = rebalance_from (length (members g)) 0 (members g) g b"

definition source_start :: "nat \<Rightarrow> broker \<Rightarrow> broker" where
  "source_start m b =
     (case sources b m of
        None \<Rightarrow> b
      | Some src \<Rightarrow>
          if s_started src then b
          else let g = group_join m (broker_group (s_group src) b);
                   b1 = set_group (s_group src) g (b\<lparr>sources := (sources b)(m \<mapsto> src\<lparr>s_started := True\<rparr>)\<rparr>)
               in rebalance g b1)"

definition source_stop :: "nat \<Rightarrow> broker \<Rightarrow> broker" where
  "source_stop m b =
     (case sources b m of
        None \<Rightarrow> b
      | Some src \<Rightarrow>
          if \<not> s_started src then b
          else let g = group_leave m (broker_group (s_group src) b);
                   b1 = set_group (s_group src) g (b\<lparr>sources := (sources b)
                          (m \<mapsto> src\<lparr>s_started := False, s_assignment := [], s_positions := Map.empty\<rparr>)\<rparr>)
               in rebalance g b1)"

text \<open>
  \<open>_drain\<close>: the partitions of the assignment in order until the batch is full; a partition that
  gives records moves its position.
\<close>

fun drain :: "int \<Rightarrow> partition list \<Rightarrow> (partition \<Rightarrow> int option) \<Rightarrow> broker \<Rightarrow>
    consumed_message list \<times> (partition \<Rightarrow> int option) \<times> broker" where
  "drain room [] pos b = ([], pos, b)"
| "drain room (p # ps) pos b =
     (if room \<le> 0 then ([], pos, b)
      else case broker_topic (ptopic p) b of
        (t, b1) \<Rightarrow>
          (let at0 = the (pos p);
               rs = topic_read p at0 room t;
               pos1 = (if rs \<noteq> [] then pos(p \<mapsto> at0 + int (length rs)) else pos)
           in case drain (room - int (length rs)) ps pos1 b1 of
                (ms, pos2, b2) \<Rightarrow> (map (consumed p) rs @ ms, pos2, b2)))"

definition source_poll :: "nat \<Rightarrow> int \<Rightarrow> broker \<Rightarrow> (kafka_error + consumed_message list) \<times> broker" where
  "source_poll m max_records b =
     (case sources b m of
        None \<Rightarrow> (Inl LifecycleError, b)
      | Some src \<Rightarrow>
          if \<not> s_started src then (Inl LifecycleError, b)
          else if max_records < 1 then (Inl MaxRecordsTooSmall, b)
          else (case drain max_records (s_assignment src) (s_positions src) b of
                  (ms, pos, b1) \<Rightarrow> (Inr ms, b1\<lparr>sources := (sources b1)(m \<mapsto> src\<lparr>s_positions := pos\<rparr>)\<rparr>)))"

fun commit_from :: "partition list \<Rightarrow> (partition \<times> int) list \<Rightarrow> kgroup \<Rightarrow> kafka_error option \<times> kgroup" where
  "commit_from assigned [] g = (None, g)"
| "commit_from assigned ((p, n) # offsets) g =
     (if p \<notin> set assigned then (Some (ConsumerError p), g)
      else if n < 0 then (Some (NegativeOffset p), g)
      else commit_from assigned offsets (g\<lparr>committed := (committed g)(p \<mapsto> n)\<rparr>))"

definition source_commit :: "nat \<Rightarrow> (partition \<times> int) list \<Rightarrow> broker \<Rightarrow> kafka_error option \<times> broker" where
  "source_commit m offsets b =
     (case sources b m of
        None \<Rightarrow> (Some LifecycleError, b)
      | Some src \<Rightarrow>
          if \<not> s_started src then (Some LifecycleError, b)
          else if offsets = [] then (None, b)
          else (case commit_from (s_assignment src) offsets (broker_group (s_group src) b) of
                  (e, g) \<Rightarrow> (e, set_group (s_group src) g b)))"

definition source_seek :: "nat \<Rightarrow> partition \<Rightarrow> int \<Rightarrow> broker \<Rightarrow> kafka_error option \<times> broker" where
  "source_seek m p n b =
     (case sources b m of
        None \<Rightarrow> (Some (ConsumerError p), b)
      | Some src \<Rightarrow>
          if p \<notin> set (s_assignment src) then (Some (ConsumerError p), b)
          else if n < 0 then (Some (NegativeOffset p), b)
          else (None, b\<lparr>sources := (sources b)(m \<mapsto> src\<lparr>s_positions := (s_positions src)(p \<mapsto> n)\<rparr>)\<rparr>))"

definition source_assignment :: "nat \<Rightarrow> broker \<Rightarrow> partition set" where
  "source_assignment m b = (case sources b m of None \<Rightarrow> {} | Some src \<Rightarrow> set (s_assignment src))"

definition source_position :: "nat \<Rightarrow> partition \<Rightarrow> broker \<Rightarrow> int option" where
  "source_position m p b = (case sources b m of None \<Rightarrow> None | Some src \<Rightarrow> s_positions src p)"

section \<open>Lemmas\<close>

subsection \<open>Topics and logs\<close>

text \<open>A topic is well formed when it has partitions and each record's offset is its place in its log.\<close>

definition topic_ok :: "string \<Rightarrow> ktopic \<Rightarrow> bool" where
  "topic_ok name t \<longleftrightarrow> t_name t = name \<and> 0 < partition_count t \<and> next_slot t < partition_count t \<and>
     (\<forall>i<partition_count t. \<forall>j<length (logs t ! i). rec_offset (logs t ! i ! j) = int j)"

definition topics_ok :: "broker \<Rightarrow> bool" where
  "topics_ok b \<longleftrightarrow> 0 < default_partitions b \<and> (\<forall>name t. topics b name = Some t \<longrightarrow> topic_ok name t)"

definition partition_exists :: "broker \<Rightarrow> partition \<Rightarrow> bool" where
  "partition_exists b p \<longleftrightarrow> (\<exists>t. topics b (ptopic p) = Some t \<and> pnumber p < partition_count t)"

text \<open>One broker state grows into another: topics appear, logs get longer, nothing else moves.\<close>

definition grows :: "broker \<Rightarrow> broker \<Rightarrow> bool" where
  "grows b b' \<longleftrightarrow> (topics_ok b \<longrightarrow> topics_ok b') \<and> groups b' = groups b \<and> sources b' = sources b \<and>
     (\<forall>p. partition_exists b p \<longrightarrow> partition_exists b' p)"

lemma growsD:
  assumes "grows b b'"
  shows "topics_ok b \<Longrightarrow> topics_ok b'" "groups b' = groups b" "sources b' = sources b"
    "partition_exists b p \<Longrightarrow> partition_exists b' p"
  using assms by (auto simp: grows_def)

lemma grows_refl [simp]: "grows b b"
  by (simp add: grows_def)

lemma grows_trans: "grows b b' \<Longrightarrow> grows b' b'' \<Longrightarrow> grows b b''"
  by (auto simp: grows_def)

lemma new_topic_ok: "0 < n \<Longrightarrow> topic_ok name (new_topic name n)"
  by (simp add: topic_ok_def new_topic_def partition_count_def)

lemma topics_okD: "topics_ok b \<Longrightarrow> topics b name = Some t \<Longrightarrow> topic_ok name t"
  by (simp add: topics_ok_def)

lemma broker_topic_spec:
  assumes "broker_topic name b = (t, b')"
  shows "grows b b'" "topics b' name = Some t" "topics_ok b \<Longrightarrow> topic_ok name t"
  using assms
  by (auto simp: broker_topic_def grows_def topics_ok_def partition_exists_def new_topic_ok Let_def split: option.splits if_splits)

lemma broker_topic_known: "topics b name = Some t \<Longrightarrow> broker_topic name b = (t, b)"
  by (simp add: broker_topic_def)

lemma topic_partitions_exist:
  assumes "topics b name = Some t" "t_name t = name" "p \<in> set (topic_partitions t)"
  shows "partition_exists b p"
  using assms by (auto simp: topic_partitions_def partition_exists_def)

lemma collect_partitions_spec:
  assumes "collect_partitions names b = (ps, b')"
  shows "grows b b'" "topics_ok b \<Longrightarrow> p \<in> set ps \<Longrightarrow> partition_exists b' p"
proof -
  have "grows b b' \<and> (topics_ok b \<longrightarrow> (\<forall>p\<in>set ps. partition_exists b' p))"
    using assms
  proof (induction names arbitrary: b ps)
    case (Cons name names)
    obtain t b1 where t: "broker_topic name b = (t, b1)" by fastforce
    obtain ps1 where ps1: "collect_partitions names b1 = (ps1, b')" "ps = topic_partitions t @ ps1"
      using Cons.prems t by (auto split: prod.splits)
    note g = broker_topic_spec [OF t] and ih = Cons.IH [OF ps1(1)]
    have "partition_exists b' p" if "topics_ok b" "p \<in> set (topic_partitions t)" for p
      using topic_partitions_exist [OF g(2) _ that(2)] g(3) [OF that(1)] growsD(4) [OF conjunct1 [OF ih]]
      by (simp add: topic_ok_def)
    with g ih ps1(2) show ?case by (auto intro: grows_trans dest: growsD(1))
  qed simp
  then show "grows b b'" "topics_ok b \<Longrightarrow> p \<in> set ps \<Longrightarrow> partition_exists b' p" by auto
qed

lemma partition_for_spec:
  assumes "topic_ok name t" "partition_for key t = (i, t')"
  shows "i < partition_count t" "logs t' = logs t" "t_name t' = t_name t" "next_slot t' < partition_count t"
  using assms by (auto simp: topic_ok_def partition_for_def split: option.splits)

lemma topic_append_spec:
  assumes ok: "topic_ok name t" and a: "topic_append now key val hs t = ((p, r), t')"
  shows "topic_ok name t'" "ptopic p = name" "pnumber p < partition_count t" "partition_count t' = partition_count t"
    "logs t' = (logs t)[pnumber p := logs t ! pnumber p @ [r]]" "rec_offset r = int (length (logs t ! pnumber p))"
    "rec_key r = key" "rec_value r = val" "rec_headers r = hs"
proof -
  obtain i t1 where i: "partition_for key t = (i, t1)" by fastforce
  note pf = partition_for_spec [OF ok i]
  from a i have eq: "p = \<lparr>ptopic = t_name t1, pnumber = i\<rparr>" "t' = t1\<lparr>logs := (logs t1)[i := logs t1 ! i @ [r]]\<rparr>"
      "r = \<lparr>rec_offset = int (length (logs t1 ! i)), rec_key = key, rec_value = val, rec_headers = hs, rec_timestamp = now\<rparr>"
    by (auto simp: topic_append_def Let_def)
  show "ptopic p = name" "pnumber p < partition_count t" "partition_count t' = partition_count t"
    "logs t' = (logs t)[pnumber p := logs t ! pnumber p @ [r]]" "rec_offset r = int (length (logs t ! pnumber p))"
    "rec_key r = key" "rec_value r = val" "rec_headers r = hs"
    using ok pf eq by (auto simp: topic_ok_def partition_count_def)
  show "topic_ok name t'"
    using ok pf eq by (auto simp: topic_ok_def partition_count_def nth_update nth_append less_Suc_eq)
qed

lemma topic_read_spec:
  assumes "0 \<le> pos" "0 \<le> limit"
  shows "topic_read p pos limit t = take (nat limit) (drop (nat pos) (logs t ! pnumber p))"
  using assms by (auto simp: topic_read_def Let_def)

lemma publish_spec:
  assumes "publish started now topic val key hs b = (e, b')"
  shows "grows b b'"
proof (cases "\<not> started \<or> validate_record topic key val \<noteq> None")
  case True
  with assms show ?thesis by (auto simp: publish_def split: if_splits)
next
  case False
  obtain t b1 where t: "broker_topic topic b = (t, b1)" by fastforce
  obtain p r t1 where a: "topic_append now key val hs t = ((p, r), t1)" by (metis surj_pair)
  note g = broker_topic_spec [OF t]
  have b': "b' = b1\<lparr>topics := (topics b1)(topic \<mapsto> t1)\<rparr>"
    using assms False t a by (auto simp: publish_def)
  show ?thesis
  proof (rule grows_trans [OF g(1)])
    have cnt: "partition_count t1 = partition_count t"
      using a by (auto simp: topic_append_def partition_for_def partition_count_def Let_def split: prod.splits option.splits)
    have "topics_ok b1 \<Longrightarrow> topics_ok b'"
      using topic_append_spec(1) [OF topics_okD [OF _ g(2)] a] by (auto simp: topics_ok_def b')
    then show "grows b1 b'"
      using g(2) cnt by (auto simp: grows_def b' partition_exists_def)
  qed
qed

lemma create_topic_spec: "create_topic name n b = (e, b') \<Longrightarrow> grows b b'"
  by (auto simp: create_topic_def grows_def topics_ok_def partition_exists_def new_topic_ok Let_def
      split: if_splits option.splits)

subsection \<open>Rebalancing\<close>

definition resume_at :: "kgroup \<Rightarrow> partition \<Rightarrow> int" where
  "resume_at g p = (case committed g p of Some n \<Rightarrow> n | None \<Rightarrow> 0)"

lemma starting_positions_earliest:
  assumes "s_reset src = Earliest"
  shows "starting_positions ps g src b = (\<lambda>p. if p \<in> set ps then Some (resume_at g p) else None, b)"
proof (induction ps)
  case (Cons p ps)
  have "starting_position p g src b = (resume_at g p, b)"
    using assms by (auto simp: starting_position_def resume_at_def split: option.splits)
  with Cons show ?case by (auto simp: fun_eq_iff)
qed simp

text \<open>
  What a rebalance does to the sources of a group whose members all start at the earliest record:
  each keeps everything but its assignment and positions, and resumes at the committed offsets.
\<close>

definition reassigned :: "kgroup \<Rightarrow> broker \<Rightarrow> source \<Rightarrow> source \<Rightarrow> bool" where
  "reassigned g b src src' \<longleftrightarrow> (\<exists>assigned.
     src' = src\<lparr>s_assignment := assigned, s_positions := (\<lambda>p. if p \<in> set assigned then Some (resume_at g p) else None)\<rparr> \<and>
     (\<forall>p\<in>set assigned. partition_exists b p))"

definition rebalanced :: "nat set \<Rightarrow> kgroup \<Rightarrow> broker \<Rightarrow> broker \<Rightarrow> bool" where
  "rebalanced ms g b b' \<longleftrightarrow> (topics_ok b \<longrightarrow> topics_ok b') \<and> groups b' = groups b \<and>
     (\<forall>p. partition_exists b p \<longrightarrow> partition_exists b' p) \<and>
     (\<forall>m. case sources b m of
            None \<Rightarrow> sources b' m = None
          | Some src \<Rightarrow> \<exists>src'. sources b' m = Some src' \<and> (src' = src \<or> m \<in> ms \<and> reassigned g b' src src'))"

lemma share_subset: "set (share n index ps) \<subseteq> set ps"
  by (auto simp: share_def in_set_enumerate_eq)

lemma reassigned_twice: "reassigned g b src src1 \<Longrightarrow> reassigned g b' src1 src2 \<Longrightarrow> reassigned g b' src src2"
  by (auto simp: reassigned_def)

lemma reassigned_grow:
  "reassigned g b src src' \<Longrightarrow> (\<And>p. partition_exists b p \<Longrightarrow> partition_exists b' p) \<Longrightarrow> reassigned g b' src src'"
  by (auto simp: reassigned_def)

lemma rebalanced_trans:
  assumes "rebalanced ms g b b1" "rebalanced ms g b1 b2"
  shows "rebalanced ms g b b2"
proof -
  have "case sources b m of
            None \<Rightarrow> sources b2 m = None
          | Some src \<Rightarrow> \<exists>src'. sources b2 m = Some src' \<and> (src' = src \<or> m \<in> ms \<and> reassigned g b2 src src')" for m
  proof (cases "sources b m")
    case None
    with assms have "sources b1 m = None" by (auto simp: rebalanced_def dest!: spec [of _ m])
    with assms(2) None show ?thesis by (auto simp: rebalanced_def dest!: spec [of _ m])
  next
    case (Some src)
    with assms(1) obtain src1 where 1: "sources b1 m = Some src1" "src1 = src \<or> m \<in> ms \<and> reassigned g b1 src src1"
      by (fastforce simp: rebalanced_def dest!: spec [of _ m])
    with assms(2) obtain src2 where 2: "sources b2 m = Some src2" "src2 = src1 \<or> m \<in> ms \<and> reassigned g b2 src1 src2"
      by (fastforce simp: rebalanced_def dest!: spec [of _ m])
    have grow: "partition_exists b1 p \<Longrightarrow> partition_exists b2 p" for p
      using assms(2) by (auto simp: rebalanced_def)
    from 1(2) 2(2) have "src2 = src \<or> m \<in> ms \<and> reassigned g b2 src src2"
      using reassigned_grow [OF _ grow] reassigned_twice by blast
    with 2(1) Some show ?thesis by auto
  qed
  with assms show ?thesis by (auto simp: rebalanced_def)
qed

lemma rebalanced_refl: "rebalanced ms g b b"
  by (simp add: rebalanced_def split: option.split)

lemma rebalance_step:
  assumes ok: "topics_ok b" and src: "sources b m = Some src" "s_reset src = Earliest" and m: "m \<in> ms"
    and ps: "partitions_for (s_topics src) b = (ps, b1)"
  shows "rebalanced ms g b (apply_assignment m (share n index ps) g b1)"
proof -
  note c = collect_partitions_spec [OF ps [unfolded partitions_for_def]]
  let ?assigned = "share n index ps"
  have src1: "sources b1 m = Some src" using growsD(3) [OF c(1)] src(1) by simp
  have b2: "apply_assignment m ?assigned g b1 =
      b1\<lparr>sources := (sources b1)(m \<mapsto> src\<lparr>s_assignment := ?assigned,
           s_positions := (\<lambda>p. if p \<in> set ?assigned then Some (resume_at g p) else None)\<rparr>)\<rparr>"
    using src1 by (simp add: apply_assignment_def starting_positions_earliest [OF src(2)])
  have ex: "partition_exists (apply_assignment m ?assigned g b1) p" if "partition_exists b1 p" for p
    using that by (simp add: b2 partition_exists_def)
  have "reassigned g (apply_assignment m ?assigned g b1) src
      (src\<lparr>s_assignment := ?assigned, s_positions := (\<lambda>p. if p \<in> set ?assigned then Some (resume_at g p) else None)\<rparr>)"
    using c(2) [OF ok] share_subset [of n index ps] ex by (auto simp: reassigned_def)
  moreover have "topics_ok (apply_assignment m ?assigned g b1)"
    using growsD(1) [OF c(1) ok] by (simp add: b2 topics_ok_def)
  ultimately show ?thesis
    using growsD [OF c(1)] src(1) m ex
    unfolding rebalanced_def by (auto simp: b2 split: option.split)
qed

lemma rebalance_from_spec:
  assumes "topics_ok b" "\<forall>m src. m \<in> set ms \<longrightarrow> sources b m = Some src \<longrightarrow> s_reset src = Earliest" "set ms \<subseteq> M"
  shows "rebalanced M g b (rebalance_from n index ms g b)"
  using assms
proof (induction ms arbitrary: index b)
  case Nil
  then show ?case by (simp add: rebalanced_refl)
next
  case (Cons m ms)
  show ?case
  proof (cases "sources b m")
    case None
    with Cons show ?thesis by simp
  next
    case (Some src)
    obtain ps b1 where ps: "partitions_for (s_topics src) b = (ps, b1)" by fastforce
    let ?b = "apply_assignment m (share n index ps) g b1"
    have step: "rebalanced M g b ?b"
      using rebalance_step [OF Cons.prems(1) Some _ _ ps] Cons.prems(2,3) Some by simp
    have ok: "topics_ok ?b" using step Cons.prems(1) by (simp add: rebalanced_def)
    have "s_reset src' = Earliest" if "m' \<in> set ms" "sources ?b m' = Some src'" for m' src'
    proof (cases "sources b m'")
      case None
      with step that(2) show ?thesis by (auto simp: rebalanced_def dest!: spec [of _ m'])
    next
      case (Some src0)
      with step that(2) have "src' = src0 \<or> reassigned g ?b src0 src'"
        by (auto simp: rebalanced_def dest!: spec [of _ m'])
      with Cons.prems(2) Some that(1) show ?thesis by (auto simp: reassigned_def)
    qed
    then have "rebalanced M g ?b (rebalance_from n (index + 1) ms g ?b)"
      using Cons.IH [OF ok] Cons.prems(3) by simp
    with step Some ps show ?thesis by (auto intro: rebalanced_trans)
  qed
qed

subsection \<open>Polling\<close>

definition offsets_in :: "partition \<Rightarrow> consumed_message list \<Rightarrow> int list" where
  "offsets_in p ms = map msg_offset (filter (\<lambda>m. msg_partition m = p) ms)"

lemma offsets_in_simps [simp]:
  "offsets_in p [] = []"
  "offsets_in p (ms @ ms') = offsets_in p ms @ offsets_in p ms'"
  "offsets_in p (map (consumed q) rs) = (if p = q then map rec_offset rs else [])"
  by (auto simp: offsets_in_def consumed_def comp_def)

lemma read_offsets:
  assumes ok: "topic_ok name t" and p: "pnumber p < partition_count t" and n: "0 \<le> n" "0 \<le> limit"
  shows "map rec_offset (topic_read p n limit t) = [n..n + int (length (topic_read p n limit t)) - 1]"
proof (rule nth_equalityI)
  show "length (map rec_offset (topic_read p n limit t)) = length [n..n + int (length (topic_read p n limit t)) - 1]"
    by simp
  fix i assume "i < length (map rec_offset (topic_read p n limit t))"
  then have i: "i < length (take (nat limit) (drop (nat n) (logs t ! pnumber p)))"
    by (simp add: topic_read_spec [OF n])
  then have "nat n + i < length (logs t ! pnumber p)" by auto
  then have "rec_offset (logs t ! pnumber p ! (nat n + i)) = int (nat n + i)"
    using ok p unfolding topic_ok_def by blast
  moreover have "n + int i \<le> n + int (length (topic_read p n limit t)) - 1"
    using i by (simp add: topic_read_spec [OF n] del: length_take length_drop)
  ultimately show "map rec_offset (topic_read p n limit t) ! i = [n..n + int (length (topic_read p n limit t)) - 1] ! i"
    using i n by (auto simp: nth_upto topic_read_spec)
qed

lemma upto_append: "a \<le> b \<Longrightarrow> b \<le> c \<Longrightarrow> [a..b - 1] @ [b..c - 1] = [a..c - 1]"
proof (cases "b \<le> c - 1")
  case True
  moreover assume "a \<le> b"
  ultimately show ?thesis by (simp add: upto_split1 [of a b "c - 1"])
qed auto

definition readable :: "broker \<Rightarrow> partition list \<Rightarrow> (partition \<Rightarrow> int option) \<Rightarrow> bool" where
  "readable b ps pos \<longleftrightarrow> (\<forall>p\<in>set ps. partition_exists b p \<and> (\<exists>n\<ge>0. pos p = Some n))"

lemma drain_Cons:
  assumes "drain room (p # ps) pos b = (ms, pos', b')" "\<not> room \<le> 0" "broker_topic (ptopic p) b = (t, b1)"
    and rs: "rs = topic_read p (the (pos p)) room t"
    and pos1: "pos1 = (if rs \<noteq> [] then pos(p \<mapsto> the (pos p) + int (length rs)) else pos)"
  shows "\<exists>ms1. drain (room - int (length rs)) ps pos1 b1 = (ms1, pos', b') \<and> ms = map (consumed p) rs @ ms1"
proof -
  have "drain room (p # ps) pos b =
      (case drain (room - int (length rs)) ps pos1 b1 of (ms, pos2, b2) \<Rightarrow> (map (consumed p) rs @ ms, pos2, b2))"
    using assms(2,3) unfolding pos1 by (simp only: drain.simps rs Let_def if_False prod.case)
  with assms(1) show ?thesis by (auto split: prod.splits)
qed

text \<open>A poll reads on from each position without a gap and leaves the broker as it was.\<close>

lemma drain_spec:
  assumes "topics_ok b" "readable b ps pos" "drain room ps pos b = (ms, pos', b')"
  shows "b' = b \<and> (\<forall>p. p \<notin> set ps \<longrightarrow> pos' p = pos p \<and> offsets_in p ms = []) \<and>
     (\<forall>p\<in>set ps. \<exists>n n'. pos p = Some n \<and> pos' p = Some n' \<and> 0 \<le> n \<and> n \<le> n' \<and> offsets_in p ms = [n..n' - 1])"
  using assms
proof (induction ps arbitrary: room pos ms)
  case Nil
  then show ?case by simp
next
  case (Cons p ps)
  from Cons.prems(2) obtain n t where n: "0 \<le> n" "pos p = Some n"
      and t: "topics b (ptopic p) = Some t" "pnumber p < partition_count t"
    by (auto simp: readable_def partition_exists_def)
  show ?case
  proof (cases "room \<le> 0")
    case True
    with Cons.prems(2,3) show ?thesis by (fastforce simp: readable_def)
  next
    case False
    define rs where "rs = topic_read p (the (pos p)) room t"
    define pos1 where "pos1 = (if rs \<noteq> [] then pos(p \<mapsto> the (pos p) + int (length rs)) else pos)"
    obtain ms1 where rest: "drain (room - int (length rs)) ps pos1 b = (ms1, pos', b')" and ms: "ms = map (consumed p) rs @ ms1"
      using drain_Cons [OF Cons.prems(3) False broker_topic_known [OF t(1)] rs_def pos1_def] by blast
    have pos1: "pos1 p = Some (n + int (length rs))" "\<And>q. q \<noteq> p \<Longrightarrow> pos1 q = pos q"
      using n by (auto simp: pos1_def)
    have "readable b ps pos1"
      using Cons.prems(2) n pos1 unfolding readable_def by (metis add_nonneg_nonneg list.set_intros(2) of_nat_0_le_iff)
    note ih = Cons.IH [OF Cons.prems(1) this rest]
    have offs: "map rec_offset rs = [n..n + int (length rs) - 1]"
      using read_offsets [OF topics_okD [OF Cons.prems(1) t(1)] t(2) n(1), of room] False n(2) by (simp add: rs_def)
    have here: "\<exists>n n'. pos q = Some n \<and> pos' q = Some n' \<and> 0 \<le> n \<and> n \<le> n' \<and> offsets_in q ms = [n..n' - 1]"
      if q: "q \<in> set (p # ps)" for q
    proof (cases "q \<in> set ps")
      case True
      with ih obtain a a' where a: "pos1 q = Some a" "pos' q = Some a'" "0 \<le> a" "a \<le> a'" "offsets_in q ms1 = [a..a' - 1]"
        by blast
      show ?thesis
      proof (cases "q = p")
        case True
        with a pos1(1) n offs ms upto_append [of n a a'] show ?thesis by auto
      next
        case False
        with a pos1(2) ms show ?thesis by auto
      qed
    next
      case False
      with q ih pos1(1) n offs ms show ?thesis by auto
    qed
    have "pos' q = pos q \<and> offsets_in q ms = []" if "q \<notin> set (p # ps)" for q
      using that ih pos1(2) ms by auto
    with here ih show ?thesis by blast
  qed
qed

lemma drain_partitions: "drain room ps pos b = (ms, pos', b') \<Longrightarrow> msg \<in> set ms \<Longrightarrow> msg_partition msg \<in> set ps"
proof (induction ps arbitrary: room pos b ms)
  case (Cons p ps)
  show ?case
  proof (cases "room \<le> 0")
    case True
    with Cons.prems show ?thesis by simp
  next
    case False
    obtain t b1 where t: "broker_topic (ptopic p) b = (t, b1)" by fastforce
    define rs where "rs = topic_read p (the (pos p)) room t"
    define pos1 where "pos1 = (if rs \<noteq> [] then pos(p \<mapsto> the (pos p) + int (length rs)) else pos)"
    obtain ms1 where rest: "drain (room - int (length rs)) ps pos1 b1 = (ms1, pos', b')" "ms = map (consumed p) rs @ ms1"
      using drain_Cons [OF Cons.prems(1) False t rs_def pos1_def] by blast
    with Cons.IH [OF rest(1)] Cons.prems(2) show ?thesis by (auto simp: consumed_def)
  qed
qed simp

subsection \<open>Committing\<close>

lemma commit_from_spec:
  assumes "commit_from assigned offsets g = (e, g')"
  shows "members g' = members g"
    and "committed g' p = Some n \<Longrightarrow> committed g p = Some n \<or> (p, n) \<in> set offsets \<and> p \<in> set assigned \<and> 0 \<le> n"
  using assms
  by (induction assigned offsets g rule: commit_from.induct) (auto split: if_splits)

subsection \<open>Sharing partitions\<close>

lemma share_mem: "x \<in> set (share n index ps) \<longleftrightarrow> (\<exists>i<length ps. ps ! i = x \<and> i mod n = index)"
  by (auto simp: share_def in_set_enumerate_eq image_iff)

lemma share_unique:
  assumes "distinct ps" "p \<in> set ps" "0 < n"
  shows "\<exists>!index. index < n \<and> p \<in> set (share n index ps)"
proof -
  obtain i where i: "i < length ps" "ps ! i = p" using assms(2) by (auto simp: in_set_conv_nth)
  show ?thesis
  proof (rule ex1I [of _ "i mod n"])
    show "i mod n < n \<and> p \<in> set (share n (i mod n) ps)"
      using i assms(3) by (auto simp: share_mem)
    fix index assume "index < n \<and> p \<in> set (share n index ps)"
    then obtain j where "j < length ps" "ps ! j = p" "j mod n = index" by (auto simp: share_mem)
    with i assms(1) show "index = i mod n" by (auto simp: nth_eq_iff_index_eq)
  qed
qed

lemma partitions_for_known:
  assumes "\<forall>name\<in>set names. \<exists>t. topics b name = Some t"
  shows "collect_partitions names b = (concat (map (\<lambda>name. topic_partitions (the (topics b name))) names), b)"
  using assms
proof (induction names)
  case (Cons name names)
  then obtain t where "topics b name = Some t" by auto
  with Cons show ?case by (simp add: broker_topic_known)
qed simp

text \<open>Members that subscribe to the same topics see the same list of partitions.\<close>

lemma collect_partitions_topics:
  assumes "collect_partitions names b = (ps, b')"
  shows "\<forall>name\<in>set names. topics b' name \<noteq> None" "topics b name = Some t \<Longrightarrow> topics b' name = Some t"
proof -
  have "(\<forall>name\<in>set names. topics b' name \<noteq> None) \<and> (\<forall>name t. topics b name = Some t \<longrightarrow> topics b' name = Some t)"
    using assms
  proof (induction names arbitrary: b ps)
    case (Cons name names)
    obtain t b1 where t: "broker_topic name b = (t, b1)" by fastforce
    obtain ps1 where "collect_partitions names b1 = (ps1, b')"
      using Cons.prems t by (auto split: prod.splits)
    note ih = Cons.IH [OF this]
    have "topics b1 n = Some u" if "topics b n = Some u" for n u
      using t that by (auto simp: broker_topic_def Let_def split: option.splits)
    with ih broker_topic_spec(2) [OF t] show ?case by auto
  qed simp
  then show "\<forall>name\<in>set names. topics b' name \<noteq> None" "topics b name = Some t \<Longrightarrow> topics b' name = Some t" by auto
qed

lemma collect_partitions_list:
  assumes "collect_partitions names b = (ps, b')"
  shows "ps = concat (map (\<lambda>name. topic_partitions (the (topics b' name))) names)"
  using assms
proof (induction names arbitrary: b ps)
  case (Cons name names)
  obtain t b1 where t: "broker_topic name b = (t, b1)" by fastforce
  obtain ps1 where rest: "collect_partitions names b1 = (ps1, b')" "ps = topic_partitions t @ ps1"
    using Cons.prems t by (auto split: prod.splits)
  have "topics b' name = Some t"
    using collect_partitions_topics(2) [OF rest(1)] broker_topic_spec(2) [OF t] by blast
  with Cons.IH [OF rest(1)] rest(2) show ?case by simp
qed simp

lemma partitions_for_again:
  assumes "partitions_for names b = (ps, b')"
  shows "partitions_for names b' = (ps, b')"
  using collect_partitions_topics(1) [OF assms [unfolded partitions_for_def]]
    collect_partitions_list [OF assms [unfolded partitions_for_def]] partitions_for_known [of "sort names" b']
  by (auto simp: partitions_for_def)

lemma distinct_partitions_for:
  assumes "topics_ok b" "distinct names" "partitions_for names b = (ps, b')"
  shows "distinct ps"
proof -
  note c = assms(3) [unfolded partitions_for_def]
  have ok: "topics_ok b'" using growsD(1) [OF collect_partitions_spec(1) [OF c] assms(1)] .
  define f where "f name = topic_partitions (the (topics b' name))" for name
  have f: "distinct (f name)" "p \<in> set (f name) \<Longrightarrow> ptopic p = name" if n: "name \<in> set (sort names)" for name p
  proof -
    obtain t where "topics b' name = Some t" "t_name t = name"
      using collect_partitions_topics(1) [OF c] n topics_okD [OF ok] by (auto simp: topic_ok_def)
    then show "distinct (f name)" "p \<in> set (f name) \<Longrightarrow> ptopic p = name"
      by (auto simp: f_def topic_partitions_def distinct_map inj_on_def)
  qed
  have "distinct (concat (map f ns))" if "distinct ns" "set ns \<subseteq> set (sort names)" for ns
    using that
  proof (induction ns)
    case (Cons n ns)
    have "x \<notin> set (f m)" if "m \<in> set ns" "x \<in> set (f n)" for m x
      using f(2) [of n x] f(2) [of m x] that Cons.prems by auto
    with Cons f(1) [of n] show ?case by auto
  qed simp
  from this [of "sort names"] show ?thesis
    using assms(2) collect_partitions_list [OF c] by (simp add: f_def [abs_def])
qed

lemma starting_positions_known:
  "\<forall>p\<in>set ps. topics b (ptopic p) \<noteq> None \<Longrightarrow> snd (starting_positions ps g src b) = b"
proof (induction ps)
  case (Cons p ps)
  then have "snd (starting_position p g src b) = b"
    by (auto simp: starting_position_def end_offset_def broker_topic_known split: option.splits)
  with Cons show ?case by (auto split: prod.splits)
qed simp

lemma apply_assignment_spec:
  assumes "sources b m = Some src" "\<forall>p\<in>set assigned. topics b (ptopic p) \<noteq> None"
  shows "topics (apply_assignment m assigned g b) = topics b"
    "default_partitions (apply_assignment m assigned g b) = default_partitions b"
    "\<exists>pos. sources (apply_assignment m assigned g b) = (sources b)(m \<mapsto> src\<lparr>s_assignment := assigned, s_positions := pos\<rparr>)"
  using starting_positions_known [OF assms(2), of g src] assms(1) by (auto simp: apply_assignment_def split: prod.splits)

lemma partitions_for_cong:
  "topics b = topics b' \<Longrightarrow> partitions_for names b = (ps, b) \<Longrightarrow> \<forall>name\<in>set names. topics b name \<noteq> None \<Longrightarrow>
   partitions_for names b' = (ps, b')"
  using partitions_for_known [of "sort names" b] partitions_for_known [of "sort names" b'] by (auto simp: partitions_for_def)

lemma rebalance_from_assigns:
  assumes "distinct ms" "\<forall>m\<in>set ms. \<exists>src. sources b m = Some src \<and> s_topics src = names"
    and ps: "partitions_for names b = (ps, b)" "\<forall>name\<in>set names. topics b name \<noteq> None" "\<forall>p\<in>set ps. topics b (ptopic p) \<noteq> None"
  shows "(\<forall>i<length ms. source_assignment (ms ! i) (rebalance_from n index ms g b) = set (share n (index + i) ps)) \<and>
    (\<forall>m. m \<notin> set ms \<longrightarrow> sources (rebalance_from n index ms g b) m = sources b m)"
  using assms
proof (induction ms arbitrary: index b)
  case (Cons m ms)
  then obtain src where src: "sources b m = Some src" "s_topics src = names" by auto
  define b1 where "b1 = apply_assignment m (share n index ps) g b"
  have known: "\<forall>p\<in>set (share n index ps). topics b (ptopic p) \<noteq> None"
    using Cons.prems(5) share_subset [of n index ps] by auto
  note b1 = apply_assignment_spec [OF src(1) known, where g = g, folded b1_def]
  obtain pos where pos: "sources b1 = (sources b)(m \<mapsto> src\<lparr>s_assignment := share n index ps, s_positions := pos\<rparr>)"
    using b1(3) by blast
  have step: "rebalance_from n index (m # ms) g b = rebalance_from n (index + 1) ms g b1"
    using src Cons.prems(3) by (simp add: b1_def)
  have "partitions_for names b1 = (ps, b1)"
    using partitions_for_cong [OF _ Cons.prems(3,4), of b1] b1(1) by simp
  with Cons.prems b1(1) pos
  have ih: "(\<forall>i<length ms. source_assignment (ms ! i) (rebalance_from n (index + 1) ms g b1) = set (share n (index + 1 + i) ps)) \<and>
      (\<forall>m'. m' \<notin> set ms \<longrightarrow> sources (rebalance_from n (index + 1) ms g b1) m' = sources b1 m')"
    by (intro Cons.IH) auto
  show ?case
    unfolding step
  proof (intro conjI allI impI)
    fix i assume i: "i < length (m # ms)"
    show "source_assignment ((m # ms) ! i) (rebalance_from n (index + 1) ms g b1) = set (share n (index + i) ps)"
    proof (cases i)
      case 0
      with ih Cons.prems(1) pos show ?thesis by (simp add: source_assignment_def)
    next
      case (Suc j)
      with ih i show ?thesis by simp
    qed
  next
    fix m' assume "m' \<notin> set (m # ms)"
    with ih pos show "sources (rebalance_from n (index + 1) ms g b1) m' = sources b m'" by simp
  qed
qed simp

subsection \<open>Publishing in sequence\<close>

definition log_of :: "partition \<Rightarrow> broker \<Rightarrow> log_record list" where
  "log_of p b = (case topics b (ptopic p) of None \<Rightarrow> [] | Some t \<Rightarrow> logs t ! pnumber p)"

type_synonym publication = "seconds \<times> string \<times> string option \<times> string option \<times> headers"

fun publish_all :: "publication list \<Rightarrow> broker \<Rightarrow> broker" where
  "publish_all [] b = b"
| "publish_all ((now, topic, val, key, hs) # ps) b = publish_all ps (snd (publish True now topic val key hs b))"

definition count_of :: "string \<Rightarrow> broker \<Rightarrow> nat" where
  "count_of topic b = (case topics b topic of None \<Rightarrow> default_partitions b | Some t \<Rightarrow> partition_count t)"

lemma publish_Inr:
  assumes ok: "topics_ok b" and pub: "publish started now topic val key hs b = (Inr m, b')"
  shows "\<exists>r. ptopic (pub_partition m) = topic \<and> pnumber (pub_partition m) < count_of topic b \<and>
     log_of (pub_partition m) b' = log_of (pub_partition m) b @ [r] \<and> pub_offset m = int (length (log_of (pub_partition m) b)) \<and>
     rec_key r = key \<and> rec_value r = val \<and> rec_headers r = hs \<and> rec_offset r = pub_offset m \<and> partition_exists b' (pub_partition m)"
    and "key = Some k \<Longrightarrow> pnumber (pub_partition m) = unat (fnv1a k) mod count_of topic b"
proof -
  obtain t b1 where t: "broker_topic topic b = (t, b1)" by fastforce
  note bt = broker_topic_spec [OF t]
  obtain p r t1 where a: "topic_append now key val hs t = ((p, r), t1)" by (metis surj_pair)
  note ap = topic_append_spec [OF bt(3) [OF ok] a]
  have m: "m = \<lparr>pub_partition = p, pub_offset = rec_offset r, pub_timestamp = rec_timestamp r\<rparr>"
      "b' = b1\<lparr>topics := (topics b1)(topic \<mapsto> t1)\<rparr>"
    using pub t a by (auto simp: publish_def split: if_splits option.splits)
  have count: "count_of topic b = partition_count t"
    using t by (auto simp: broker_topic_def count_of_def new_topic_def partition_count_def Let_def split: option.splits)
  have log: "log_of p b = logs t ! pnumber p"
  proof (cases "topics b topic")
    case None
    with t have "logs t = replicate (default_partitions b) []"
      by (auto simp: broker_topic_def new_topic_def Let_def)
    with None ap(2,3) show ?thesis by (simp add: log_of_def partition_count_def)
  next
    case (Some t')
    with t ap(2) show ?thesis by (simp add: broker_topic_known log_of_def)
  qed
  show "\<exists>r. ptopic (pub_partition m) = topic \<and> pnumber (pub_partition m) < count_of topic b \<and>
     log_of (pub_partition m) b' = log_of (pub_partition m) b @ [r] \<and> pub_offset m = int (length (log_of (pub_partition m) b)) \<and>
     rec_key r = key \<and> rec_value r = val \<and> rec_headers r = hs \<and> rec_offset r = pub_offset m \<and> partition_exists b' (pub_partition m)"
    using ap m count log by (intro exI [of _ r]) (auto simp: log_of_def partition_exists_def partition_count_def)
  show "pnumber (pub_partition m) = unat (fnv1a k) mod count_of topic b" if "key = Some k"
    using a that count by (auto simp: m topic_append_def partition_for_def Let_def)
qed

lemma publish_frame:
  assumes ok: "topics_ok b" and pub: "publish started now topic val key hs b = (e, b')"
  shows "topics b name = Some t \<Longrightarrow> count_of name b' = count_of name b"
    and "partition_exists b p \<Longrightarrow> \<exists>more. log_of p b' = log_of p b @ more"
proof -
  have "\<exists>t'. topics b' name = Some t' \<and> partition_count t' = partition_count t \<and>
      (\<forall>i<partition_count t. \<exists>more. logs t' ! i = logs t ! i @ more)" if "topics b name = Some t" for name t
  proof (cases "\<not> started \<or> validate_record topic key val \<noteq> None")
    case True
    with pub that show ?thesis by (auto simp: publish_def split: if_splits)
  next
    case False
    obtain u b1 where u: "broker_topic topic b = (u, b1)" by fastforce
    obtain q r u1 where a: "topic_append now key val hs u = ((q, r), u1)" by (metis surj_pair)
    note bt = broker_topic_spec [OF u] and ap = topic_append_spec [OF broker_topic_spec(3) [OF u ok] a]
    have b': "b' = b1\<lparr>topics := (topics b1)(topic \<mapsto> u1)\<rparr>"
      using pub False u a by (auto simp: publish_def)
    show ?thesis
    proof (cases "name = topic")
      case True
      with that u have "u = t" by (simp add: broker_topic_known)
      with True ap b' show ?thesis by (auto simp: nth_update)
    next
      case False
      then have "topics b1 name = Some t"
        using u that by (auto simp: broker_topic_def Let_def split: option.splits)
      with False b' show ?thesis by simp
    qed
  qed
  note here = this
  show "count_of name b' = count_of name b" if "topics b name = Some t"
    using here [OF that] that by (auto simp: count_of_def)
  show "\<exists>more. log_of p b' = log_of p b @ more" if "partition_exists b p"
    using that here by (fastforce simp: partition_exists_def log_of_def)
qed

lemma publish_all_frame:
  assumes "topics_ok b"
  shows "topics_ok (publish_all ps b)"
    and "topics b name = Some t \<Longrightarrow> count_of name (publish_all ps b) = count_of name b"
    and "partition_exists b p \<Longrightarrow> \<exists>more. log_of p (publish_all ps b) = log_of p b @ more"
proof -
  have "topics_ok (publish_all ps b) \<and>
      (\<forall>name t. topics b name = Some t \<longrightarrow> count_of name (publish_all ps b) = count_of name b) \<and>
      (\<forall>p. partition_exists b p \<longrightarrow> (\<exists>more. log_of p (publish_all ps b) = log_of p b @ more))"
    using assms
  proof (induction ps arbitrary: b)
    case (Cons o1 ps)
    obtain now topic val key hs where o1: "o1 = (now, topic, val, key, hs)" by (metis surj_pair)
    obtain e b1 where pub: "publish True now topic val key hs b = (e, b1)" by fastforce
    note g = publish_spec [OF pub] and f = publish_frame [OF Cons.prems pub]
    note ih = Cons.IH [OF growsD(1) [OF g Cons.prems]]
    have "\<exists>t'. topics b1 name = Some t'" if "topics b name = Some t" for name t
    proof -
      have "partition_exists b \<lparr>ptopic = name, pnumber = 0\<rparr>"
        using topics_okD [OF Cons.prems that] that by (simp add: partition_exists_def topic_ok_def)
      from growsD(4) [OF g this] show ?thesis by (auto simp: partition_exists_def)
    qed
    with ih f growsD(4) [OF g] show ?case
      unfolding o1 by (simp add: pub) (metis append_assoc)
  qed simp
  then show "topics_ok (publish_all ps b)"
    "topics b name = Some t \<Longrightarrow> count_of name (publish_all ps b) = count_of name b"
    "partition_exists b p \<Longrightarrow> \<exists>more. log_of p (publish_all ps b) = log_of p b @ more" by blast+
qed

section \<open>Properties\<close>

text \<open>
  C34: a group splits its partitions. After a rebalance of a group whose members subscribe to the
  same topics, every partition of those topics belongs to exactly one member.
\<close>

theorem group_splits_partitions:
  assumes "topics_ok b" "distinct (members g)" "members g \<noteq> []" "distinct names"
    and "\<forall>m\<in>set (members g). \<exists>src. sources b m = Some src \<and> s_topics src = names"
    and "partitions_for names b = (ps, b)" and "p \<in> set ps"
  shows "\<exists>!m. m \<in> set (members g) \<and> p \<in> source_assignment m (rebalance g b)"
proof -
  note c = assms(6) [unfolded partitions_for_def]
  have known: "\<forall>name\<in>set names. topics b name \<noteq> None"
    using collect_partitions_topics(1) [OF c] by simp
  have "\<forall>q\<in>set ps. topics b (ptopic q) \<noteq> None"
    using collect_partitions_spec(2) [OF c assms(1)] by (auto simp: partition_exists_def)
  note assigns = rebalance_from_assigns [OF assms(2,5,6) known this, of "length (members g)" 0 g, folded rebalance_def]
  let ?n = "length (members g)"
  obtain i where i: "i < ?n" "p \<in> set (share ?n i ps)" and
      unique: "\<And>j. j < ?n \<Longrightarrow> p \<in> set (share ?n j ps) \<Longrightarrow> j = i"
    using share_unique [OF distinct_partitions_for [OF assms(1,4,6)] assms(7), of ?n] assms(3) by auto
  show ?thesis
  proof (rule ex1I [of _ "members g ! i"])
    show "members g ! i \<in> set (members g) \<and> p \<in> source_assignment (members g ! i) (rebalance g b)"
      using i assigns by simp
    fix m assume m: "m \<in> set (members g) \<and> p \<in> source_assignment m (rebalance g b)"
    then obtain j where "j < ?n" "m = members g ! j" by (auto simp: in_set_conv_nth)
    with m assigns unique show "m = members g ! i" by auto
  qed
qed

definition two_members :: broker where
  "two_members = (let b0 = snd (create_topic ''a'' (Some 2) (new_broker 2));
      b1 = snd (new_source 0 [''a''] ''g'' Earliest b0); b2 = snd (new_source 1 [''a''] ''g'' Earliest b1)
    in set_group ''g'' \<lparr>committed = Map.empty, members = [0, 1]\<rparr> b2)"

lemma two_members_eval:
  "topics two_members = [''a'' \<mapsto> new_topic ''a'' 2]" "default_partitions two_members = 2"
  "sources two_members = [0 \<mapsto> \<lparr>s_topics = [''a''], s_group = ''g'', s_reset = Earliest, s_started = False, s_assignment = [], s_positions = Map.empty\<rparr>,
     1 \<mapsto> \<lparr>s_topics = [''a''], s_group = ''g'', s_reset = Earliest, s_started = False, s_assignment = [], s_positions = Map.empty\<rparr>]"
  by (simp_all add: two_members_def create_topic_def new_broker_def new_source_def set_group_def Let_def)

theorem group_splits_partitions_witness:
  "\<exists>!m. m \<in> {0, 1} \<and> \<lparr>ptopic = ''a'', pnumber = 1\<rparr> \<in>
     source_assignment m (rebalance \<lparr>committed = Map.empty, members = [0, 1]\<rparr> two_members)"
proof -
  have ok: "topics_ok two_members"
    by (simp add: topics_ok_def two_members_eval new_topic_ok)
  have parts: "partitions_for [''a''] two_members =
      ([\<lparr>ptopic = ''a'', pnumber = 0\<rparr>, \<lparr>ptopic = ''a'', pnumber = 1\<rparr>], two_members)"
    by (simp add: partitions_for_def broker_topic_def two_members_eval topic_partitions_def partition_count_def new_topic_def
        numeral_2_eq_2)
  show ?thesis
    using group_splits_partitions [of two_members "\<lparr>committed = Map.empty, members = [0, 1]\<rparr>" "[''a'']", OF ok _ _ _ _ parts,
        of "\<lparr>ptopic = ''a'', pnumber = 1\<rparr>"]
    by (simp add: two_members_eval)
qed

text \<open>
  members with different subscriptions do not split their partitions. Each member takes every
  n-th partition of its own subscription, so that with one member on topics \<open>a\<close> and \<open>b\<close> and one on
  \<open>b\<close> alone, a partition of \<open>b\<close> has two owners, who both receive its records, and another has none.
\<close>

definition mixed_group :: broker where
  "mixed_group = (let b0 = snd (create_topic ''a'' (Some 1) (new_broker 2));
      b1 = snd (create_topic ''b'' (Some 2) b0);
      b2 = snd (new_source 0 [''a'', ''b''] ''g'' Earliest b1);
      b3 = snd (new_source 1 [''b''] ''g'' Earliest b2)
    in source_start 1 (source_start 0 b3))"

theorem mixed_subscriptions_overlap:
  "\<lparr>ptopic = ''b'', pnumber = 1\<rparr> \<in> source_assignment 0 mixed_group \<inter> source_assignment 1 mixed_group \<and>
   \<lparr>ptopic = ''b'', pnumber = 0\<rparr> \<notin> source_assignment 0 mixed_group \<union> source_assignment 1 mixed_group"
  by code_simp

text \<open>
  a published record stays where the broker said it is, and records with one key stay in order.
  After any number of later publications the log of the acknowledged partition holds, at the
  acknowledged offset, the record with its key and value; and a later record with the same key goes
  to the same partition with a larger offset.
\<close>

theorem published_records_stay_in_order:
  assumes "topics_ok b" and "publish True now topic val (Some k) hs b = (Inr m, b1)"
  shows "\<exists>r. log_of (pub_partition m) (publish_all ps b1) ! nat (pub_offset m) = r \<and>
           nat (pub_offset m) < length (log_of (pub_partition m) (publish_all ps b1)) \<and>
           rec_key r = Some k \<and> rec_value r = val \<and> rec_offset r = pub_offset m \<and>
           (\<forall>now' val' hs' m' b'. publish True now' topic val' (Some k) hs' (publish_all ps b1) = (Inr m', b') \<longrightarrow>
              pub_partition m' = pub_partition m \<and> pub_offset m < pub_offset m')"
proof -
  let ?p = "pub_partition m" and ?b = "publish_all ps b1"
  obtain r where r: "ptopic ?p = topic" "log_of ?p b1 = log_of ?p b @ [r]" "pub_offset m = int (length (log_of ?p b))"
      "rec_key r = Some k" "rec_value r = val" "rec_offset r = pub_offset m" "partition_exists b1 ?p"
    using publish_Inr(1) [OF assms] by blast
  have ok1: "topics_ok b1" using growsD(1) [OF publish_spec [OF assms(2)] assms(1)] .
  obtain more where more: "log_of ?p ?b = log_of ?p b1 @ more"
    using publish_all_frame(3) [OF ok1 r(7)] by blast
  obtain t1 where t1: "topics b1 topic = Some t1" using r(1,7) by (auto simp: partition_exists_def)
  have count: "count_of topic ?b = count_of topic b1" using publish_all_frame(2) [OF ok1 t1] .
  have count1: "count_of topic b1 = count_of topic b"
  proof (cases "topics b topic")
    case None
    obtain t b0 where t: "broker_topic topic b = (t, b0)" by fastforce
    have tok: "topic_ok topic t" using broker_topic_spec(3) [OF t assms(1)] .
    obtain q x u where a: "topic_append now (Some k) val hs t = ((q, x), u)" by (metis surj_pair)
    have "topics b1 topic = Some u"
      using assms(2) t a by (auto simp: publish_def split: if_splits option.splits)
    moreover have "partition_count u = default_partitions b"
      using topic_append_spec(4) [OF tok a] t None
      by (auto simp: broker_topic_def new_topic_def partition_count_def Let_def)
    ultimately show ?thesis using None by (simp add: count_of_def)
  next
    case (Some t)
    from publish_frame(1) [OF assms this] show ?thesis .
  qed
  have later: "pub_partition m' = ?p \<and> pub_offset m < pub_offset m'"
    if "publish True now' topic val' (Some k) hs' ?b = (Inr m', b')" for now' val' hs' m' b'
  proof -
    note pub' = publish_Inr [OF publish_all_frame(1) [OF ok1] that]
    have "pnumber (pub_partition m') = pnumber ?p"
      using pub'(2) [OF refl] publish_Inr(2) [OF assms refl] count count1 by simp
    moreover have "ptopic (pub_partition m') = ptopic ?p" using pub'(1) r(1) by auto
    ultimately have same: "pub_partition m' = ?p" by simp
    moreover have "pub_offset m' = int (length (log_of (pub_partition m') ?b))" using pub'(1) by blast
    ultimately show ?thesis using r(2,3) more by simp
  qed
  show ?thesis
    using r more later by (intro exI [of _ r]) (auto simp: nth_append)
qed

theorem published_records_stay_in_order_witness:
  "\<exists>m b1 r. publish True 0 ''a'' (Some ''v'') (Some ''k'') [] (new_broker 2) = (Inr m, b1) \<and>
     log_of (pub_partition m) (publish_all [(1, ''a'', Some ''w'', Some ''k'', [])] b1) ! nat (pub_offset m) = r \<and>
     rec_value r = Some ''v''"
proof -
  have ok: "topics_ok (new_broker 2)" by (simp add: topics_ok_def new_broker_def)
  obtain m b1 where pub: "publish True 0 ''a'' (Some ''v'') (Some ''k'') [] (new_broker 2) = (Inr m, b1)"
    by (cases "broker_topic ''a'' (new_broker 2)", cases "topic_append 0 (Some ''k'') (Some ''v'') [] (fst (broker_topic ''a'' (new_broker 2)))")
      (auto simp: publish_def validate_record_def split: prod.splits)
  from published_records_stay_in_order [OF ok pub, of "[(1, ''a'', Some ''w'', Some ''k'', [])]"]
  show ?thesis using pub by blast
qed

end
