(* ===== verification/Kafka_Runner.thy ===== *)
theory Kafka_Runner
  imports Kafka_Broker Retry_Loops
begin

text \<open>
  The consume loop (\<open>src/src/kafka/runner.py\<close>) over sources of the in-process broker.

  \<open>consume_once\<close> polls, hands the records of each partition to the handler until one does not
  succeed, and commits. Between two handler calls, and before the commit, it awaits; its locals are
  therefore part of the runner's state, and polling, handling one record and finishing are separate
  functions, whose undisturbed composition is \<open>consume_once\<close>. Any number of runners, together with
  publishers and members that join and leave, form the step relation \<open>kafka_step\<close>.
\<close>

section \<open>Definitions\<close>

record consumer_config =
  max_records :: int
  poll_timeout :: seconds
  handler_timeout :: seconds
  cc_base_delay :: seconds
  cc_max_delay :: seconds
  cc_jitter :: bool
  shutdown_timeout :: seconds

definition default_consumer_config :: consumer_config where
  "default_consumer_config =
     \<lparr>max_records = 100, poll_timeout = 1, handler_timeout = 30, cc_base_delay = 1, cc_max_delay = 60,
      cc_jitter = True, shutdown_timeout = 10\<rparr>"

definition consumer_config_error :: "consumer_config \<Rightarrow> string option" where
  "consumer_config_error c =
     (if max_records c < 1 then Some ''max_records must be at least 1.''
      else if poll_timeout c \<le> 0 then Some ''poll_timeout must be positive.''
      else if handler_timeout c \<le> 0 then Some ''handler_timeout must be positive.''
      else if cc_base_delay c \<le> 0 then Some ''retry_base_delay must be positive.''
      else if cc_max_delay c < cc_base_delay c then Some ''retry_max_delay cannot be below retry_base_delay.''
      else if shutdown_timeout c \<le> 0 then Some ''shutdown_timeout must be positive.''
      else None)"

abbreviation consumer_config_ok :: "consumer_config \<Rightarrow> bool" where
  "consumer_config_ok c \<equiv> consumer_config_error c = None"

record consume_result =
  polled :: int
  delivered :: int
  failed :: int
  retry_delay :: seconds
  deferred :: int
  defer_delay :: seconds

definition empty_result :: consume_result where
  "empty_result = \<lparr>polled = 0, delivered = 0, failed = 0, retry_delay = 0, deferred = 0, defer_delay = 0\<rparr>"

definition result_wait :: "consume_result \<Rightarrow> seconds" where
  "result_wait r =
     (let waits = filter (\<lambda>d. d > 0) [retry_delay r, defer_delay r] in
      case waits of [] \<Rightarrow> 0 | d # ds \<Rightarrow> foldl min d ds)"

subsection \<open>One cycle\<close>

text \<open>How a handler call under its timeout ends; a cancellation ends the runner instead.\<close>

datatype handler_end = HandlerReturned | HandlerRetryAfter seconds | HandlerTimedOut | HandlerRaised

datatype outcome = DONE | FAILED | DEFERRED

definition handle_outcome :: "handler_end \<Rightarrow> outcome \<times> seconds" where
  "handle_outcome h =
     (case h of
        HandlerReturned \<Rightarrow> (DONE, 0)
      | HandlerRetryAfter delay \<Rightarrow> (DEFERRED, delay)
      | HandlerTimedOut \<Rightarrow> (FAILED, 0)
      | HandlerRaised \<Rightarrow> (FAILED, 0))"

text \<open>
  A runner: its failure counts, and the locals of \<open>consume_once\<close>: the groups still to handle, with the
  group in hand first, and the commit map in insertion order.
\<close>

record runner =
  failures :: "partition \<Rightarrow> int option"
  todo :: "(partition \<times> consumed_message list) list"
  commits :: "(partition \<times> int) list"
  result :: consume_result

definition new_runner :: runner where
  "new_runner = \<lparr>failures = Map.empty, todo = [], commits = [], result = empty_result\<rparr>"

definition group_message :: "consumed_message \<Rightarrow> (partition \<times> consumed_message list) list \<Rightarrow> (partition \<times> consumed_message list) list" where
  "group_message m grouped =
     AList.update (msg_partition m) ((case map_of grouped (msg_partition m) of None \<Rightarrow> [] | Some ms \<Rightarrow> ms) @ [m]) grouped"

definition group_messages :: "consumed_message list \<Rightarrow> (partition \<times> consumed_message list) list" where
  "group_messages ms = foldl (\<lambda>grouped m. group_message m grouped) [] ms"

definition register_failure :: "consumer_config \<Rightarrow> rat \<Rightarrow> partition \<Rightarrow> runner \<Rightarrow> seconds \<times> runner" where
  "register_failure c u p r =
     (let attempts = (case failures r p of None \<Rightarrow> 0 | Some n \<Rightarrow> n) + 1 in
      (backoff_delay attempts (cc_base_delay c) (cc_max_delay c) (cc_jitter c) u,
       r\<lparr>failures := (failures r)(p \<mapsto> attempts)\<rparr>))"

definition seek_back :: "nat \<Rightarrow> consumed_message \<Rightarrow> broker \<Rightarrow> broker" where
  "seek_back m msg b = snd (source_seek m (msg_partition msg) (msg_offset msg) b)"

text \<open>The first part of \<open>consume_once\<close>: poll and group.\<close>

definition runner_poll :: "consumer_config \<Rightarrow> nat \<Rightarrow> runner \<Rightarrow> broker \<Rightarrow> (kafka_error + runner) \<times> broker" where
  "runner_poll c m r b =
     (case source_poll m (max_records c) b of
        (Inl e, b1) \<Rightarrow> (Inl e, b1)
      | (Inr ms, b1) \<Rightarrow>
          (Inr (r\<lparr>todo := group_messages ms, commits := [], result := empty_result\<lparr>polled := int (length ms)\<rparr>\<rparr>), b1))"

text \<open>The body of the inner loop, for the record in hand and the way its handler ended.\<close>

definition runner_handle :: "consumer_config \<Rightarrow> rat \<Rightarrow> handler_end \<Rightarrow> nat \<Rightarrow> runner \<Rightarrow> broker \<Rightarrow> runner \<times> broker" where
  "runner_handle c u h m r b =
     (case todo r of
        [] \<Rightarrow> (r, b)
      | (p, []) # gs \<Rightarrow> (r\<lparr>todo := gs\<rparr>, b)
      | (p, msg # rest) # gs \<Rightarrow>
          (case handle_outcome h of
             (DONE, _) \<Rightarrow>
               (r\<lparr>todo := (if rest = [] then gs else (p, rest) # gs),
                  commits := AList.update p (next_offset msg) (commits r),
                  failures := (failures r)(p := None),
                  result := (result r)\<lparr>delivered := delivered (result r) + 1\<rparr>\<rparr>, b)
           | (DEFERRED, delay) \<Rightarrow>
               (r\<lparr>todo := gs,
                  result := (result r)\<lparr>deferred := deferred (result r) + 1,
                    defer_delay := (if defer_delay (result r) = 0 then delay else min (defer_delay (result r)) delay)\<rparr>\<rparr>,
                seek_back m msg b)
           | (FAILED, _) \<Rightarrow>
               (case register_failure c u p r of
                  (delay, r1) \<Rightarrow>
                    (r1\<lparr>todo := gs,
                       result := (result r1)\<lparr>failed := failed (result r1) + 1,
                         retry_delay := max (retry_delay (result r1)) delay\<rparr>\<rparr>,
                     seek_back m msg b))))"

text \<open>
  \<open>_commit\<close> and the end of \<open>consume_once\<close>. A \<open>ConsumerError\<close> of the commit is swallowed, any other
  error leaves \<open>consume_once\<close>.
\<close>

definition runner_finish :: "nat \<Rightarrow> runner \<Rightarrow> broker \<Rightarrow> (kafka_error + consume_result) \<times> runner \<times> broker" where
  "runner_finish m r b =
     (let r1 = r\<lparr>todo := [], commits := []\<rparr> in
      if commits r = [] then (Inr (result r), r1, b)
      else case source_commit m (commits r) b of
        (None, b1) \<Rightarrow> (Inr (result r), r1, b1)
      | (Some (ConsumerError _), b1) \<Rightarrow> (Inr (result r), r1, b1)
      | (Some e, b1) \<Rightarrow> (Inl e, r1, b1))"

fun handle_all :: "consumer_config \<Rightarrow> (consumed_message \<Rightarrow> handler_end \<times> rat) \<Rightarrow> nat \<Rightarrow> nat \<Rightarrow> runner \<Rightarrow> broker \<Rightarrow> runner \<times> broker" where
  "handle_all c handler m 0 r b = (r, b)"
| "handle_all c handler m (Suc n) r b =
     (case todo r of
        (p, msg # rest) # gs \<Rightarrow>
          (case runner_handle c (snd (handler msg)) (fst (handler msg)) m r b of (r1, b1) \<Rightarrow> handle_all c handler m n r1 b1)
      | _ \<Rightarrow> (r, b))"

text \<open>\<open>consume_once\<close> with nobody else acting; each record polled is handled at most once.\<close>

definition consume_once ::
    "consumer_config \<Rightarrow> (consumed_message \<Rightarrow> handler_end \<times> rat) \<Rightarrow> nat \<Rightarrow> runner \<Rightarrow> broker \<Rightarrow>
     (kafka_error + consume_result) \<times> runner \<times> broker" where
  "consume_once c handler m r b =
     (case runner_poll c m r b of
        (Inl e, b1) \<Rightarrow> (Inl e, r, b1)
      | (Inr r1, b1) \<Rightarrow>
          if polled (result r1) = 0 then (Inr empty_result, r1, b1)
          else (case handle_all c handler m (nat (polled (result r1))) r1 b1 of (r2, b2) \<Rightarrow> runner_finish m r2 b2))"

text \<open>
  One round of \<open>_loop\<close>: how \<open>start\<close> and \<open>consume_once\<close> ended decides the wait and the number of
  consecutive failures.
\<close>

definition loop_round :: "consumer_config \<Rightarrow> rat \<Rightarrow> int \<Rightarrow> kafka_error + consume_result \<Rightarrow> int \<times> seconds option" where
  "loop_round c u consecutive res =
     (case res of
        Inl _ \<Rightarrow>
          (consecutive + 1,
           Some (backoff_delay (consecutive + 1) (cc_base_delay c) (cc_max_delay c) (cc_jitter c) u))
      | Inr r \<Rightarrow> (0, if result_wait r > 0 then Some (result_wait r) else None))"

subsection \<open>Runners together\<close>

text \<open>
  The broker, a runner per source, and for each group the records that a handler of the group has
  returned from. Sources start at the earliest record. A member that stops, or whose runner dies,
  loses the work in hand.
\<close>

record kafka_world =
  wbroker :: broker
  runners :: "nat \<Rightarrow> runner"
  handled :: "(string \<times> partition \<times> int) set"

definition new_kafka_world :: "nat \<Rightarrow> kafka_world" where
  "new_kafka_world partitions = \<lparr>wbroker = new_broker partitions, runners = (\<lambda>_. new_runner), handled = {}\<rparr>"

definition group_of :: "nat \<Rightarrow> broker \<Rightarrow> string" where
  "group_of m b = (case sources b m of None \<Rightarrow> [] | Some src \<Rightarrow> s_group src)"

fun in_hand :: "runner \<Rightarrow> consumed_message option" where
  "in_hand r = (case todo r of (p, msg # rest) # gs \<Rightarrow> Some msg | _ \<Rightarrow> None)"

inductive kafka_step :: "consumer_config \<Rightarrow> kafka_world \<Rightarrow> kafka_world \<Rightarrow> bool" for c where
  create: "create_topic name n (wbroker w) = (e, b) \<Longrightarrow> kafka_step c w (w\<lparr>wbroker := b\<rparr>)"
| publish: "publish started now topic val key hs (wbroker w) = (e', b) \<Longrightarrow> kafka_step c w (w\<lparr>wbroker := b\<rparr>)"
| connect: "sources (wbroker w) m = None \<Longrightarrow> new_source m names gid Earliest (wbroker w) = (e, b) \<Longrightarrow>
     kafka_step c w (w\<lparr>wbroker := b, runners := (runners w)(m := new_runner)\<rparr>)"
| join: "kafka_step c w (w\<lparr>wbroker := source_start m (wbroker w)\<rparr>)"
| leave: "kafka_step c w (w\<lparr>wbroker := source_stop m (wbroker w),
     runners := (runners w)(m := (runners w m)\<lparr>todo := [], commits := []\<rparr>)\<rparr>)"
| poll: "todo (runners w m) = [] \<Longrightarrow> runner_poll c m (runners w m) (wbroker w) = (Inr r, b) \<Longrightarrow>
     kafka_step c w (w\<lparr>wbroker := b, runners := (runners w)(m := r)\<rparr>)"
| handle: "in_hand (runners w m) = Some msg \<Longrightarrow> runner_handle c u h m (runners w m) (wbroker w) = (r, b) \<Longrightarrow>
     kafka_step c w (w\<lparr>wbroker := b, runners := (runners w)(m := r),
       handled := (if h = HandlerReturned
                   then insert (group_of m (wbroker w), msg_partition msg, msg_offset msg) (handled w) else handled w)\<rparr>)"
| finish: "todo (runners w m) = [] \<Longrightarrow> runner_finish m (runners w m) (wbroker w) = (e'', r, b) \<Longrightarrow>
     kafka_step c w (w\<lparr>wbroker := b, runners := (runners w)(m := r)\<rparr>)"

abbreviation kafka_reachable :: "consumer_config \<Rightarrow> kafka_world \<Rightarrow> bool" where
  "kafka_reachable c \<equiv> reach (\<lambda>w. \<exists>n\<ge>1. w = new_kafka_world n) (kafka_step c)"

section \<open>Lemmas\<close>

subsection \<open>Grouping by partition\<close>

lemma group_messages_snoc: "group_messages (ms @ [m]) = group_message m (group_messages ms)"
  by (simp add: group_messages_def)

lemma group_messages_spec:
  "distinct (map fst (group_messages ms))"
  "map_of (group_messages ms) p =
     (if filter (\<lambda>m. msg_partition m = p) ms = [] then None else Some (filter (\<lambda>m. msg_partition m = p) ms))"
proof -
  show "distinct (map fst (group_messages ms))"
  proof (induction ms rule: rev_induct)
    case (snoc m ms)
    then show ?case by (simp add: group_messages_snoc group_message_def distinct_update)
  qed (simp add: group_messages_def)
  show "map_of (group_messages ms) p =
      (if filter (\<lambda>m. msg_partition m = p) ms = [] then None else Some (filter (\<lambda>m. msg_partition m = p) ms))"
  proof (induction ms rule: rev_induct)
    case (snoc m ms)
    then show ?case by (cases "msg_partition m = p") (simp_all add: group_messages_snoc group_message_def update_conv')
  qed (simp add: group_messages_def)
qed

subsection \<open>The invariant of the world\<close>

text \<open>
  Every record below a committed offset was handled; every record below a read position was handled
  or is still to be handled by the runner that read it; the records in a runner's hands continue,
  without a gap, records that were handled.
\<close>

definition all_handled :: "(string \<times> partition \<times> int) set \<Rightarrow> string \<Rightarrow> partition \<Rightarrow> int \<Rightarrow> bool" where
  "all_handled H gid p n \<longleftrightarrow> 0 \<le> n \<and> (\<forall>k. 0 \<le> k \<and> k < n \<longrightarrow> (gid, p, k) \<in> H)"

definition pending :: "runner \<Rightarrow> partition \<Rightarrow> int list" where
  "pending r p = (case map_of (todo r) p of None \<Rightarrow> [] | Some ms \<Rightarrow> map msg_offset ms)"

definition group_ok :: "broker \<Rightarrow> (string \<times> partition \<times> int) set \<Rightarrow> string \<Rightarrow> kgroup \<Rightarrow> bool" where
  "group_ok b H gid g \<longleftrightarrow> distinct (members g) \<and>
     (\<forall>m\<in>set (members g). \<exists>src. sources b m = Some src \<and> s_started src \<and> s_group src = gid) \<and>
     (\<forall>p n. committed g p = Some n \<longrightarrow> all_handled H gid p n)"

definition position_ok :: "(string \<times> partition \<times> int) set \<Rightarrow> runner \<Rightarrow> source \<Rightarrow> partition \<Rightarrow> bool" where
  "position_ok H r src p \<longleftrightarrow> (\<exists>n\<ge>0. s_positions src p = Some n \<and>
     (\<forall>k. 0 \<le> k \<and> k < n \<longrightarrow> (s_group src, p, k) \<in> H \<or> k \<in> set (pending r p)))"

definition source_ok :: "broker \<Rightarrow> (string \<times> partition \<times> int) set \<Rightarrow> runner \<Rightarrow> source \<Rightarrow> bool" where
  "source_ok b H r src \<longleftrightarrow> s_reset src = Earliest \<and> (\<not> s_started src \<longrightarrow> s_assignment src = []) \<and>
     (\<forall>p\<in>set (s_assignment src). partition_exists b p \<and> position_ok H r src p)"

definition batch_ok :: "(string \<times> partition \<times> int) set \<Rightarrow> string \<Rightarrow> partition \<Rightarrow> consumed_message list \<Rightarrow> bool" where
  "batch_ok H gid p ms \<longleftrightarrow> ms \<noteq> [] \<and> (\<forall>m\<in>set ms. msg_partition m = p) \<and>
     (\<exists>n. map msg_offset ms = [n..n + int (length ms) - 1] \<and> all_handled H gid p n)"

definition runner_ok :: "(string \<times> partition \<times> int) set \<Rightarrow> string \<Rightarrow> runner \<Rightarrow> bool" where
  "runner_ok H gid r \<longleftrightarrow> distinct (map fst (todo r)) \<and> (\<forall>(p, ms)\<in>set (todo r). batch_ok H gid p ms) \<and>
     (\<forall>(p, n)\<in>set (commits r). all_handled H gid p n)"

definition kafka_ok :: "broker \<Rightarrow> (nat \<Rightarrow> runner) \<Rightarrow> (string \<times> partition \<times> int) set \<Rightarrow> bool" where
  "kafka_ok b rs H \<longleftrightarrow> topics_ok b \<and> (\<forall>gid g. groups b gid = Some g \<longrightarrow> group_ok b H gid g) \<and>
     (\<forall>m src. sources b m = Some src \<longrightarrow> source_ok b H (rs m) src \<and> runner_ok H (s_group src) (rs m)) \<and>
     (\<forall>m. sources b m = None \<longrightarrow> todo (rs m) = [] \<and> commits (rs m) = [])"

lemma kafka_okI:
  assumes "topics_ok b" "\<And>gid g. groups b gid = Some g \<Longrightarrow> group_ok b H gid g"
    "\<And>m src. sources b m = Some src \<Longrightarrow> source_ok b H (rs m) src \<and> runner_ok H (s_group src) (rs m)"
    "\<And>m. sources b m = None \<Longrightarrow> todo (rs m) = [] \<and> commits (rs m) = []"
  shows "kafka_ok b rs H"
  using assms by (simp add: kafka_ok_def)

lemma kafka_okD:
  assumes "kafka_ok b rs H"
  shows "topics_ok b" "groups b gid = Some g \<Longrightarrow> group_ok b H gid g"
    "sources b m = Some src \<Longrightarrow> source_ok b H (rs m) src" "sources b m = Some src \<Longrightarrow> runner_ok H (s_group src) (rs m)"
    "sources b m = None \<Longrightarrow> todo (rs m) = [] \<and> commits (rs m) = []"
  using assms by (auto simp: kafka_ok_def)

lemma all_handled_mono: "all_handled H gid p n \<Longrightarrow> H \<subseteq> H' \<Longrightarrow> all_handled H' gid p n"
  by (auto simp: all_handled_def)

lemma all_handled_Suc: "all_handled H gid p n \<Longrightarrow> (gid, p, n) \<in> H \<Longrightarrow> all_handled H gid p (n + 1)"
  unfolding all_handled_def zless_add1_eq by auto

lemma group_ok_mono: "group_ok b H gid g \<Longrightarrow> H \<subseteq> H' \<Longrightarrow> group_ok b H' gid g"
  unfolding group_ok_def using all_handled_mono by blast

lemma batch_ok_mono: "batch_ok H gid p ms \<Longrightarrow> H \<subseteq> H' \<Longrightarrow> batch_ok H' gid p ms"
  by (auto simp: batch_ok_def intro: all_handled_mono)

lemma runner_ok_mono: "runner_ok H gid r \<Longrightarrow> H \<subseteq> H' \<Longrightarrow> runner_ok H' gid r"
  by (fastforce simp: runner_ok_def intro: all_handled_mono batch_ok_mono)

lemma source_ok_mono: "source_ok b H r src \<Longrightarrow> H \<subseteq> H' \<Longrightarrow> source_ok b H' r src"
  by (fastforce simp: source_ok_def position_ok_def)

lemma group_ok_new [simp]: "group_ok b H gid new_group"
  by (simp add: group_ok_def new_group_def)

lemma broker_group_ok: "kafka_ok b rs H \<Longrightarrow> group_ok b H gid (broker_group gid b)"
  by (auto simp: broker_group_def kafka_okD(2) split: option.split)

lemma runner_ok_idle [simp]: "runner_ok H gid (r\<lparr>todo := [], commits := []\<rparr>)" "runner_ok H gid new_runner"
  by (simp_all add: runner_ok_def new_runner_def)

lemma source_ok_grows: "source_ok b H r src \<Longrightarrow> grows b b' \<Longrightarrow> source_ok b' H r src"
  by (auto simp: source_ok_def dest: growsD(4))

lemma kafka_ok_grows:
  assumes "kafka_ok b rs H" "grows b b'"
  shows "kafka_ok b' rs H"
proof (rule kafka_okI)
  note g = growsD [OF assms(2)] and ok = kafka_okD [OF assms(1)]
  show "topics_ok b'" using g(1) ok(1) .
  show "group_ok b' H gid gr" if "groups b' gid = Some gr" for gid gr
    using ok(2) that g(2,3) by (simp add: group_ok_def)
  show "source_ok b' H (rs m) src \<and> runner_ok H (s_group src) (rs m)" if "sources b' m = Some src" for m src
    using ok(3,4) that g(3) source_ok_grows [OF _ assms(2)] by simp
  show "todo (rs m) = [] \<and> commits (rs m) = []" if "sources b' m = None" for m
    using ok(5) that g(3) by simp
qed

lemma reassigned_ok:
  assumes "reassigned g b' src src'" "source_ok b H r src" "s_started src" "group_ok b H (s_group src) g"
  shows "source_ok b' H r src'"
  using assms
  by (auto simp: reassigned_def source_ok_def position_ok_def resume_at_def group_ok_def all_handled_def split: option.split)

text \<open>A rebalance lets the members resume at committed offsets, below which everything was handled.\<close>

lemma kafka_ok_rebalance:
  assumes ok: "kafka_ok b rs H" and g: "groups b gid = Some g"
  shows "kafka_ok (rebalance g b) rs H"
proof -
  note k = kafka_okD [OF ok]
  have gok: "group_ok b H gid g" using k(2) [OF g] .
  have early: "\<forall>m src. m \<in> set (members g) \<longrightarrow> sources b m = Some src \<longrightarrow> s_reset src = Earliest"
    using k(3) by (auto simp: source_ok_def)
  note r = rebalance_from_spec [OF k(1) early subset_refl, of g "length (members g)" 0, folded rebalance_def, unfolded rebalanced_def]
  have ex: "partition_exists (rebalance g b) p" if "partition_exists b p" for p using r that by blast
  have known: "\<exists>src. sources b m = Some src \<and> (src' = src \<or> m \<in> set (members g) \<and> reassigned g (rebalance g b) src src')"
    if "sources (rebalance g b) m = Some src'" for m src'
    using r that by (auto dest!: spec [of _ m] split: option.splits)
  show ?thesis
  proof (rule kafka_okI)
    show "topics_ok (rebalance g b)" using r k(1) by blast
    show "group_ok (rebalance g b) H gid' g'" if g': "groups (rebalance g b) gid' = Some g'" for gid' g'
    proof -
      have gok': "group_ok b H gid' g'" using k(2) g' r by auto
      have "\<exists>src'. sources (rebalance g b) m = Some src' \<and> s_started src' \<and> s_group src' = gid'" if m: "m \<in> set (members g')" for m
      proof -
        obtain src where src: "sources b m = Some src" "s_started src" "s_group src = gid'"
          using gok' m unfolding group_ok_def by blast
        then obtain src' where "sources (rebalance g b) m = Some src'" "src' = src \<or> reassigned g (rebalance g b) src src'"
          using r by (auto dest!: spec [of _ m])
        with src show ?thesis by (auto simp: reassigned_def)
      qed
      with gok' show ?thesis by (auto simp: group_ok_def)
    qed
    show "source_ok (rebalance g b) H (rs m) src' \<and> runner_ok H (s_group src') (rs m)"
      if src': "sources (rebalance g b) m = Some src'" for m src'
    proof -
      obtain src where src: "sources b m = Some src"
          "src' = src \<or> m \<in> set (members g) \<and> reassigned g (rebalance g b) src src'"
        using known [OF src'] by blast
      have "source_ok (rebalance g b) H (rs m) src'"
      proof (cases "src' = src")
        case True
        with k(3) [OF src(1)] ex show ?thesis by (auto simp: source_ok_def)
      next
        case False
        with src gok have "s_started src" "s_group src = gid" by (auto simp: group_ok_def)
        with False src(2) k(3) [OF src(1)] gok show ?thesis by (auto intro: reassigned_ok)
      qed
      moreover have "s_group src' = s_group src" using src(2) by (auto simp: reassigned_def)
      ultimately show ?thesis using k(4) [OF src(1)] by simp
    qed
    show "todo (rs m) = [] \<and> commits (rs m) = []" if "sources (rebalance g b) m = None" for m
    proof (rule k(5), cases "sources b m")
      case (Some src)
      with r that show "sources b m = None" by (auto dest!: spec [of _ m])
    qed
  qed
qed

subsection \<open>Every step keeps the invariant\<close>

text \<open>Setting one source, and its runner, in an otherwise unchanged broker.\<close>

lemma kafka_ok_source:
  assumes ok: "kafka_ok b rs H" and H: "H \<subseteq> H'"
    and src: "source_ok b H' r src" "runner_ok H' (s_group src) r"
    and same: "\<And>gid g. groups b gid = Some g \<Longrightarrow> m \<in> set (members g) \<Longrightarrow> s_started src \<and> s_group src = gid"
  shows "kafka_ok (b\<lparr>sources := (sources b)(m \<mapsto> src)\<rparr>) (rs(m := r)) H'"
proof (rule kafka_okI)
  let ?b = "b\<lparr>sources := (sources b)(m \<mapsto> src)\<rparr>"
  note k = kafka_okD [OF ok]
  have ex: "partition_exists ?b p = partition_exists b p" for p by (simp add: partition_exists_def)
  have sok: "source_ok ?b H' q s = source_ok b H' q s" for q s by (simp add: source_ok_def ex)
  show "topics_ok ?b" using k(1) by (simp add: topics_ok_def)
  show "group_ok ?b H' gid g" if g: "groups ?b gid = Some g" for gid g
    using group_ok_mono [OF k(2) H, of gid g] same [of gid g] g by (simp add: group_ok_def)
  show "source_ok ?b H' ((rs(m := r)) m') src' \<and> runner_ok H' (s_group src') ((rs(m := r)) m')"
    if "sources ?b m' = Some src'" for m' src'
    using that src source_ok_mono [OF k(3) H] runner_ok_mono [OF k(4) H] by (auto simp: sok split: if_splits)
  show "todo ((rs(m := r)) m') = [] \<and> commits ((rs(m := r)) m') = []" if "sources ?b m' = None" for m'
    using that k(5) by (simp split: if_splits)
qed

lemma kafka_ok_same_group:
  assumes "kafka_ok b rs H" "sources b m = Some src" "groups b gid = Some g" "m \<in> set (members g)"
  shows "s_started src \<and> s_group src = gid"
  using kafka_okD(2) [OF assms(1,3)] assms(2,4) by (auto simp: group_ok_def)

text \<open>Setting one group.\<close>

lemma kafka_ok_group:
  assumes ok: "kafka_ok b rs H" and g: "group_ok b H gid g"
  shows "kafka_ok (set_group gid g b) rs H"
proof (rule kafka_okI)
  let ?b = "set_group gid g b"
  note k = kafka_okD [OF ok]
  have gok: "group_ok ?b H gid' g' = group_ok b H gid' g'" for gid' g' by (simp add: group_ok_def set_group_def)
  have sok: "source_ok ?b H r s = source_ok b H r s" for r s by (simp add: source_ok_def partition_exists_def set_group_def)
  show "topics_ok ?b" using k(1) by (simp add: topics_ok_def set_group_def)
  show "group_ok ?b H gid' g'" if "groups ?b gid' = Some g'" for gid' g'
    using that g k(2) unfolding gok by (auto simp: set_group_def split: if_splits)
  show "source_ok ?b H (rs m) src \<and> runner_ok H (s_group src) (rs m)" if "sources ?b m = Some src" for m src
    using that k(3,4) unfolding sok by (simp add: set_group_def)
  show "todo (rs m) = [] \<and> commits (rs m) = []" if "sources ?b m = None" for m
    using that k(5) by (simp add: set_group_def)
qed

lemma set_group_sources:
  "sources (set_group gid g b) = sources b"
  "(set_group gid g b)\<lparr>sources := S\<rparr> = set_group gid g (b\<lparr>sources := S\<rparr>)"
  by (simp_all add: set_group_def)

lemma kafka_ok_start:
  assumes ok: "kafka_ok b rs H"
  shows "kafka_ok (source_start m b) rs H"
proof (cases "sources b m")
  case None
  with ok show ?thesis by (simp add: source_start_def)
next
  case (Some src)
  show ?thesis
  proof (cases "s_started src")
    case True
    with ok Some show ?thesis by (simp add: source_start_def)
  next
    case False
    let ?b = "b\<lparr>sources := (sources b)(m \<mapsto> src\<lparr>s_started := True\<rparr>)\<rparr>"
    let ?g = "group_join m (broker_group (s_group src) b)"
    note k = kafka_okD [OF ok]
    have "source_ok b H (rs m) (src\<lparr>s_started := True\<rparr>)"
      using k(3) [OF Some] False by (simp add: source_ok_def)
    then have "kafka_ok ?b (rs(m := rs m)) H"
      using kafka_ok_source [OF ok subset_refl, of "rs m" "src\<lparr>s_started := True\<rparr>" m] k(4) [OF Some]
        kafka_ok_same_group [OF ok Some] by simp
    then have ok1: "kafka_ok ?b rs H" by simp
    have "group_ok ?b H (s_group src) ?g"
      using broker_group_ok [OF ok, of "s_group src"] by (auto simp: group_ok_def group_join_def)
    from kafka_ok_group [OF ok1 this]
    have "kafka_ok (rebalance ?g (set_group (s_group src) ?g ?b)) rs H"
      by (rule kafka_ok_rebalance [where gid = "s_group src"]) (simp add: set_group_def)
    with Some False show ?thesis by (simp add: source_start_def Let_def)
  qed
qed

lemma kafka_ok_idle:
  assumes ok: "kafka_ok b rs H" and idle: "\<And>src. sources b m = Some src \<Longrightarrow> s_assignment src = []"
  shows "kafka_ok b (rs(m := (rs m)\<lparr>todo := [], commits := []\<rparr>)) H"
proof (rule kafka_okI)
  note k = kafka_okD [OF ok]
  show "topics_ok b" by (rule k(1))
  show "group_ok b H gid g" if "groups b gid = Some g" for gid g using k(2) [OF that] .
  show "source_ok b H ((rs(m := (rs m)\<lparr>todo := [], commits := []\<rparr>)) m') src \<and>
      runner_ok H (s_group src) ((rs(m := (rs m)\<lparr>todo := [], commits := []\<rparr>)) m')" if "sources b m' = Some src" for m' src
    using k(3,4) [OF that] idle that by (cases "m' = m") (simp_all add: source_ok_def)
  show "todo ((rs(m := (rs m)\<lparr>todo := [], commits := []\<rparr>)) m') = [] \<and>
      commits ((rs(m := (rs m)\<lparr>todo := [], commits := []\<rparr>)) m') = []" if "sources b m' = None" for m'
    using k(5) [OF that] by simp
qed

lemma kafka_ok_stop:
  assumes ok: "kafka_ok b rs H"
  shows "kafka_ok (source_stop m b) (rs(m := (rs m)\<lparr>todo := [], commits := []\<rparr>)) H"
proof (cases "sources b m")
  case None
  with kafka_ok_idle [OF ok, of m] show ?thesis by (simp add: source_stop_def)
next
  case (Some src)
  note k = kafka_okD [OF ok]
  show ?thesis
  proof (cases "s_started src")
    case False
    with Some k(3) [OF Some] have "s_assignment src = []" by (simp add: source_ok_def)
    with kafka_ok_idle [OF ok, of m] Some False show ?thesis by (simp add: source_stop_def)
  next
    case True
    let ?src = "src\<lparr>s_started := False, s_assignment := [], s_positions := Map.empty\<rparr>"
    let ?g = "group_leave m (broker_group (s_group src) b)" and ?rs = "rs(m := (rs m)\<lparr>todo := [], commits := []\<rparr>)"
    let ?b = "b\<lparr>sources := (sources b)(m \<mapsto> ?src)\<rparr>"
    have gok: "group_ok b H (s_group src) ?g"
      using broker_group_ok [OF ok, of "s_group src"]
      by (auto simp: group_ok_def group_leave_def dest: notin_set_remove1)
    have left: "m \<notin> set (members ?g)"
      using broker_group_ok [OF ok, of "s_group src"] by (simp add: group_ok_def group_leave_def)
    have ok1: "kafka_ok (set_group (s_group src) ?g b) rs H" using kafka_ok_group [OF ok gok] .
    have absent: "m \<notin> set (members g)" if g: "groups (set_group (s_group src) ?g b) gid = Some g" for gid g
    proof (cases "gid = s_group src")
      case True
      with g left show ?thesis by (simp add: set_group_def)
    next
      case False
      with g have "groups b gid = Some g" by (simp add: set_group_def)
      with kafka_ok_same_group [OF ok Some this] False show ?thesis by auto
    qed
    have "kafka_ok ((set_group (s_group src) ?g b)\<lparr>sources := (sources (set_group (s_group src) ?g b))(m \<mapsto> ?src)\<rparr>) ?rs H"
      using absent k(3) [OF Some] by (intro kafka_ok_source [OF ok1 subset_refl]) (auto simp: source_ok_def)
    then have "kafka_ok (set_group (s_group src) ?g ?b) ?rs H" by (simp only: set_group_sources)
    then have "kafka_ok (rebalance ?g (set_group (s_group src) ?g ?b)) ?rs H"
      by (rule kafka_ok_rebalance [where gid = "s_group src"]) (simp add: set_group_def)
    with Some True show ?thesis by (simp add: source_stop_def Let_def)
  qed
qed

lemma kafka_ok_connect:
  assumes ok: "kafka_ok b rs H" and m: "sources b m = None" and "new_source m names gid Earliest b = (e, b')"
  shows "kafka_ok b' (rs(m := new_runner)) H"
proof (cases "names = [] \<or> gid = []")
  case True
  with assms(3) have "b' = b" by (auto simp: new_source_def split: if_splits)
  moreover have "kafka_ok b (rs(m := new_runner)) H"
    using kafka_okD [OF ok] m by (intro kafka_okI) (auto simp: new_runner_def)
  ultimately show ?thesis by simp
next
  case False
  have "m \<notin> set (members g)" if "groups b gid' = Some g" for gid' g
    using kafka_okD(2) [OF ok that] m by (auto simp: group_ok_def)
  then have "kafka_ok (b\<lparr>sources := (sources b)(m \<mapsto>
      \<lparr>s_topics = names, s_group = gid, s_reset = Earliest, s_started = False, s_assignment = [], s_positions = Map.empty\<rparr>)\<rparr>)
      (rs(m := new_runner)) H"
    by (intro kafka_ok_source [OF ok subset_refl]) (auto simp: source_ok_def)
  with False assms(3) show ?thesis by (simp add: new_source_def)
qed

lemma pending_group_messages: "pending (r\<lparr>todo := group_messages ms, commits := cs, result := res\<rparr>) p = offsets_in p ms"
  by (auto simp: pending_def offsets_in_def group_messages_spec(2) split: option.split)

lemma kafka_ok_poll:
  assumes ok: "kafka_ok b rs H" and idle: "todo (rs m) = []" and poll: "runner_poll c m (rs m) b = (Inr r, b')"
  shows "kafka_ok b' (rs(m := r)) H"
proof -
  from poll obtain ms where ms: "source_poll m (max_records c) b = (Inr ms, b')"
      and r: "r = (rs m)\<lparr>todo := group_messages ms, commits := [], result := empty_result\<lparr>polled := int (length ms)\<rparr>\<rparr>"
    by (auto simp: runner_poll_def split: prod.splits sum.splits)
  from ms obtain src pos b1 where src: "sources b m = Some src" "s_started src"
      and dr: "drain (max_records c) (s_assignment src) (s_positions src) b = (ms, pos, b1)"
      and b': "b' = b1\<lparr>sources := (sources b1)(m \<mapsto> src\<lparr>s_positions := pos\<rparr>)\<rparr>"
    by (auto simp: source_poll_def split: option.splits if_splits prod.splits)
  note k = kafka_okD [OF ok] and sok = kafka_okD(3) [OF ok src(1)]
  have "readable b (s_assignment src) (s_positions src)"
    using sok by (auto simp: readable_def source_ok_def position_ok_def)
  note d = drain_spec [OF k(1) this dr]
  let ?G = "s_group src"
  have drained: "pending (rs m) p = []" for p using idle by (simp add: pending_def)
  have read: "\<exists>n n'. 0 \<le> n \<and> n \<le> n' \<and> pos p = Some n' \<and> offsets_in p ms = [n..n' - 1] \<and> all_handled H ?G p n"
    if p: "p \<in> set (s_assignment src)" for p
  proof -
    from d p obtain n n' where n: "s_positions src p = Some n" "pos p = Some n'" "0 \<le> n" "n \<le> n'" "offsets_in p ms = [n..n' - 1]"
      by blast
    have "position_ok H (rs m) src p" using sok p by (simp add: source_ok_def)
    with n(1) have "\<forall>k. 0 \<le> k \<and> k < n \<longrightarrow> (?G, p, k) \<in> H" 
      by (simp add: position_ok_def drained)
    with n(3) have "all_handled H ?G p n" by (simp add: all_handled_def)
    with n show ?thesis by blast
  qed
  have pend: "pending r p = offsets_in p ms" for p unfolding r by (rule pending_group_messages)
  have "source_ok b H r (src\<lparr>s_positions := pos\<rparr>)"
  proof -
    have "position_ok H r (src\<lparr>s_positions := pos\<rparr>) p" if p: "p \<in> set (s_assignment src)" for p
    proof -
      from read [OF p] obtain n n' where n: "0 \<le> n" "n \<le> n'" "pos p = Some n'" "offsets_in p ms = [n..n' - 1]" "all_handled H ?G p n"
        by blast
      then have "(?G, p, k) \<in> H \<or> k \<in> set (offsets_in p ms)" if "0 \<le> k" "k < n'" for k
        using that by (cases "k < n") (auto simp: all_handled_def)
      with n show ?thesis by (simp add: position_ok_def pend)
    qed
    with sok show ?thesis by (simp add: source_ok_def)
  qed
  moreover have "runner_ok H ?G r"
  proof -
    have "batch_ok H ?G p batch" if "(p, batch) \<in> set (group_messages ms)" for p batch
    proof -
      have "map_of (group_messages ms) p = Some batch"
        using that group_messages_spec(1) [of ms] by simp
      then have batch: "batch = filter (\<lambda>x. msg_partition x = p) ms" "batch \<noteq> []"
        by (auto simp: group_messages_spec(2) split: if_splits)
      then obtain x where "x \<in> set ms" "msg_partition x = p" by (auto simp: filter_empty_conv)
      with drain_partitions [OF dr] have "p \<in> set (s_assignment src)" by auto
      from read [OF this] obtain n n' where n: "n \<le> n'" "offsets_in p ms = [n..n' - 1]" "all_handled H ?G p n" by blast
      have offs: "map msg_offset batch = [n..n' - 1]" using n(2) batch(1) by (simp add: offsets_in_def)
      have "int (length batch) = n' - n" using arg_cong [OF offs, of length] n(1) by simp
      with offs have "map msg_offset batch = [n..n + int (length batch) - 1]" by simp
      with n(3) batch show ?thesis unfolding batch_ok_def by auto
    qed
    then show ?thesis using group_messages_spec(1) [of ms] by (auto simp: runner_ok_def r)
  qed
  ultimately show ?thesis
    using kafka_ok_source [OF ok subset_refl, of r "src\<lparr>s_positions := pos\<rparr>" m] kafka_ok_same_group [OF ok src(1)] d b' by simp
qed

lemma seek_back_spec:
  assumes "sources b m = Some src"
  shows "seek_back m msg b =
     (if msg_partition msg \<in> set (s_assignment src) \<and> 0 \<le> msg_offset msg
      then b\<lparr>sources := (sources b)(m \<mapsto> src\<lparr>s_positions := (s_positions src)(msg_partition msg \<mapsto> msg_offset msg)\<rparr>)\<rparr> else b)"
  using assms by (simp add: seek_back_def source_seek_def)

text \<open>A record that was not handled gives up its partition for this batch, and the position returns to it.\<close>

lemma kafka_ok_give_up:
  assumes ok: "kafka_ok b rs H" and td: "todo (rs m) = (p, msg # rest) # gs"
    and r: "todo r = gs" "commits r = commits (rs m)"
  shows "kafka_ok (seek_back m msg b) (rs(m := r)) H"
proof -
  note k = kafka_okD [OF ok]
  obtain src where src: "sources b m = Some src" using k(5) [of m] td by fastforce
  note sok = k(3) [OF src] and rok = k(4) [OF src]
  let ?G = "s_group src"
  from rok td have batch: "batch_ok H ?G p (msg # rest)" and fresh: "map_of gs p = None" by (auto simp: runner_ok_def map_of_eq_None_iff)
  from batch have msg: "msg_partition msg = p" "all_handled H ?G p (msg_offset msg)"
    by (auto simp: batch_ok_def upto.simps split: if_splits)
  have rok': "runner_ok H ?G r" using rok td r by (auto simp: runner_ok_def)
  have pend: "pending r q = pending (rs m) q" if "q \<noteq> p" for q using td r that by (simp add: pending_def)
  have others: "position_ok H r src q" if "q \<in> set (s_assignment src)" "q \<noteq> p" for q
    using sok that pend [OF that(2)] by (simp add: source_ok_def position_ok_def)
  let ?src = "if p \<in> set (s_assignment src) then src\<lparr>s_positions := (s_positions src)(p \<mapsto> msg_offset msg)\<rparr> else src"
  have "position_ok H r ?src q" if "q \<in> set (s_assignment src)" for q
    using that others [of q] msg(2) by (auto simp: position_ok_def all_handled_def)
  with sok have "source_ok b H r ?src" by (auto simp: source_ok_def)
  then have "kafka_ok (b\<lparr>sources := (sources b)(m \<mapsto> ?src)\<rparr>) (rs(m := r)) H"
    using rok' kafka_ok_same_group [OF ok src] by (intro kafka_ok_source [OF ok subset_refl]) auto
  moreover have "b\<lparr>sources := (sources b)(m \<mapsto> src)\<rparr> = b" using src by (simp add: fun_upd_idem)
  ultimately show ?thesis
    using msg src by (auto simp: seek_back_spec all_handled_def split: if_splits)
qed

lemma batch_ok_Cons:
  assumes "batch_ok H gid p (msg # rest)"
  shows "msg_partition msg = p" "all_handled H gid p (msg_offset msg)"
    "rest \<noteq> [] \<Longrightarrow> batch_ok (insert (gid, p, msg_offset msg) H) gid p rest"
proof -
  from assms obtain n where n: "map msg_offset (msg # rest) = [n..n + int (length (msg # rest)) - 1]" "all_handled H gid p n"
      and parts: "\<forall>m\<in>set (msg # rest). msg_partition m = p"
    by (auto simp: batch_ok_def)
  from n(1) have offs: "msg_offset msg = n" "map msg_offset rest = [n + 1..(n + 1) + int (length rest) - 1]"
    by (auto simp: upto.simps split: if_splits)
  show "msg_partition msg = p" "all_handled H gid p (msg_offset msg)" using parts n(2) offs(1) by simp_all
  have "all_handled (insert (gid, p, n) H) gid p (n + 1)"
    using all_handled_Suc [OF all_handled_mono [OF n(2)]] by blast
  then show "rest \<noteq> [] \<Longrightarrow> batch_ok (insert (gid, p, msg_offset msg) H) gid p rest"
    using offs parts unfolding batch_ok_def by (auto intro!: exI [of _ "n + 1"])
qed

lemma kafka_ok_done:
  assumes ok: "kafka_ok b rs H" and td: "todo (rs m) = (p, msg # rest) # gs"
    and r: "todo r = (if rest = [] then gs else (p, rest) # gs)" "commits r = AList.update p (next_offset msg) (commits (rs m))"
  shows "kafka_ok b (rs(m := r)) (insert (group_of m b, msg_partition msg, msg_offset msg) H)"
proof -
  note k = kafka_okD [OF ok]
  obtain src where src: "sources b m = Some src" using k(5) [of m] td by fastforce
  note sok = k(3) [OF src] and rok = k(4) [OF src]
  let ?G = "s_group src" and ?H = "insert (s_group src, p, msg_offset msg) H"
  from rok td have batch: "batch_ok H ?G p (msg # rest)" and fresh: "map_of gs p = None"
    by (auto simp: runner_ok_def map_of_eq_None_iff)
  note msg = batch_ok_Cons [OF batch]
  have grow: "H \<subseteq> ?H" by blast
  have upd: "set (AList.update p n cs) \<subseteq> insert (p, n) (set cs)" for n and cs :: "(partition \<times> int) list"
    by (induction cs) auto
  have "all_handled ?H ?G p (next_offset msg)"
    unfolding next_offset_def using all_handled_Suc [OF all_handled_mono [OF msg(2) grow]] by blast
  then have "runner_ok ?H ?G r"
    using runner_ok_mono [OF rok grow] msg(3) upd [of "next_offset msg" "commits (rs m)"] td r
    unfolding runner_ok_def by (auto split: if_splits)
  moreover have "source_ok b ?H r src"
  proof -
    have "k \<in> set (pending r q) \<or> (?G, q, k) \<in> ?H" if "k \<in> set (pending (rs m) q)" for k q
      using that td r fresh by (auto simp: pending_def split: if_splits)
    then show ?thesis using sok unfolding source_ok_def position_ok_def by blast
  qed
  moreover have "b\<lparr>sources := (sources b)(m \<mapsto> src)\<rparr> = b" using src by (simp add: fun_upd_idem)
  ultimately show ?thesis
    using kafka_ok_source [OF ok grow, of r src m] kafka_ok_same_group [OF ok src] src msg(1) by (simp add: group_of_def)
qed

lemma kafka_ok_handle:
  assumes ok: "kafka_ok b rs H" and msg: "in_hand (rs m) = Some msg" and h: "runner_handle c u h m (rs m) b = (r, b')"
  shows "kafka_ok b' (rs(m := r)) (if h = HandlerReturned then insert (group_of m b, msg_partition msg, msg_offset msg) H else H)"
proof -
  from msg obtain p rest gs where td: "todo (rs m) = (p, msg # rest) # gs"
    by (auto split: list.splits prod.splits)
  show ?thesis
  proof (cases h)
    case HandlerReturned
    with h td have "b' = b" "todo r = (if rest = [] then gs else (p, rest) # gs)"
        "commits r = AList.update p (next_offset msg) (commits (rs m))"
      by (auto simp: runner_handle_def handle_outcome_def)
    with kafka_ok_done [OF ok td] HandlerReturned show ?thesis by simp
  qed (use h td kafka_ok_give_up [OF ok td] in \<open>auto simp: runner_handle_def handle_outcome_def register_failure_def Let_def\<close>)
qed

lemma kafka_ok_finish:
  assumes ok: "kafka_ok b rs H" and idle: "todo (rs m) = []" and f: "runner_finish m (rs m) b = (e, r, b')"
  shows "kafka_ok b' (rs(m := r)) H"
proof -
  note k = kafka_okD [OF ok]
  have r: "r = (rs m)\<lparr>todo := [], commits := []\<rparr>"
    using f by (auto simp: runner_finish_def Let_def split: if_splits prod.splits option.splits kafka_error.splits)
  have cleared: "kafka_ok b'' (rs(m := r)) H" if ok': "kafka_ok b'' rs H" for b''
  proof (rule kafka_okI)
    note k' = kafka_okD [OF ok']
    have pend: "pending r p = pending (rs m) p" for p using idle r by (simp add: pending_def)
    have rok: "runner_ok H gid r" for gid by (simp add: r)
    show "topics_ok b''" by (rule k'(1))
    show "group_ok b'' H gid g" if "groups b'' gid = Some g" for gid g using k'(2) [OF that] .
    show "source_ok b'' H ((rs(m := r)) m') src \<and> runner_ok H (s_group src) ((rs(m := r)) m')" if "sources b'' m' = Some src" for m' src
      using k'(3,4) [OF that] by (cases "m' = m") (simp_all add: source_ok_def position_ok_def pend rok)
    show "todo ((rs(m := r)) m') = [] \<and> commits ((rs(m := r)) m') = []" if "sources b'' m' = None" for m'
      using k'(5) [OF that] r by simp
  qed
  show ?thesis
  proof (cases "b' = b")
    case True
    with cleared [OF ok] show ?thesis by simp
  next
    case False
    with f obtain e' where "source_commit m (commits (rs m)) b = (e', b')"
      by (auto simp: runner_finish_def Let_def split: if_splits prod.splits option.splits kafka_error.splits)
    with False obtain src g where src: "sources b m = Some src"
        and g: "commit_from (s_assignment src) (commits (rs m)) (broker_group (s_group src) b) = (e', g)"
        and b': "b' = set_group (s_group src) g b"
      by (auto simp: source_commit_def split: option.splits if_splits prod.splits)
    have "group_ok b H (s_group src) g"
      using broker_group_ok [OF ok, of "s_group src"] commit_from_spec [OF g] k(4) [OF src]
      unfolding group_ok_def runner_ok_def by fastforce
    with kafka_ok_group [OF ok] b' cleared show ?thesis by simp
  qed
qed

definition kafka_world_ok :: "kafka_world \<Rightarrow> bool" where
  "kafka_world_ok w \<longleftrightarrow> kafka_ok (wbroker w) (runners w) (handled w)"

lemma kafka_world_ok_init: "1 \<le> n \<Longrightarrow> kafka_world_ok (new_kafka_world n)"
  unfolding kafka_world_ok_def
  by (rule kafka_okI) (simp_all add: new_kafka_world_def new_broker_def topics_ok_def new_runner_def)

lemma kafka_world_ok_step:
  assumes "kafka_step c w w'" "kafka_world_ok w"
  shows "kafka_world_ok w'"
  using assms
proof (induction rule: kafka_step.induct)
  case (create name n w e b)
  then show ?case using kafka_ok_grows create_topic_spec by (fastforce simp: kafka_world_ok_def)
next
  case (publish started now topic val key hs w e' b)
  then show ?case using kafka_ok_grows publish_spec by (fastforce simp: kafka_world_ok_def)
qed (simp_all add: kafka_world_ok_def kafka_ok_connect kafka_ok_start kafka_ok_stop kafka_ok_poll kafka_ok_handle kafka_ok_finish)

interpretation kafka: transitions "\<lambda>w. \<exists>n\<ge>1. w = new_kafka_world n" "kafka_step c" kafka_world_ok for c
  by unfold_locales (auto intro: kafka_world_ok_init kafka_world_ok_step)

section \<open>Properties\<close>


text \<open>A world in which one record was published, read, handled and committed.\<close>

definition kworld_joined :: kafka_world where
  "kworld_joined = (let w0 = new_kafka_world 1;
      w1 = w0\<lparr>wbroker := snd (publish True 5 ''a'' (Some ''v'') None [] (wbroker w0))\<rparr>;
      w2 = w1\<lparr>wbroker := snd (new_source 0 [''a''] ''g'' Earliest (wbroker w1)), runners := (runners w1)(0 := new_runner)\<rparr>
    in w2\<lparr>wbroker := source_start 0 (wbroker w2)\<rparr>)"

definition kworld_polled :: kafka_world where
  "kworld_polled = (let w = kworld_joined; res = runner_poll default_consumer_config 0 (runners w 0) (wbroker w)
    in w\<lparr>wbroker := snd res, runners := (runners w)(0 := projr (fst res))\<rparr>)"

definition kworld_handled :: kafka_world where
  "kworld_handled = (let w = kworld_polled;
      res = runner_handle default_consumer_config 0 HandlerReturned 0 (runners w 0) (wbroker w); msg = the (in_hand (runners w 0))
    in w\<lparr>wbroker := snd res, runners := (runners w)(0 := fst res),
         handled := insert (group_of 0 (wbroker w), msg_partition msg, msg_offset msg) (handled w)\<rparr>)"

definition kworld_committed :: kafka_world where
  "kworld_committed = (let w = kworld_handled; res = runner_finish 0 (runners w 0) (wbroker w)
    in w\<lparr>wbroker := snd (snd res), runners := (runners w)(0 := fst (snd res))\<rparr>)"

lemma kworld_joined_reachable: "kafka_reachable default_consumer_config kworld_joined"
proof -
  have "kafka_reachable default_consumer_config (new_kafka_world 1)" by (rule reach_init) auto
  then show ?thesis unfolding kworld_joined_def Let_def
  proof (rule reach_step [THEN reach_step, THEN reach_step])
    show "kafka_step default_consumer_config (new_kafka_world 1)
        ((new_kafka_world 1)\<lparr>wbroker := snd (publish True 5 ''a'' (Some ''v'') None [] (wbroker (new_kafka_world 1)))\<rparr>)"
      by (rule kafka_step.publish [OF surjective_pairing])
  qed (rule kafka_step.connect [OF _ surjective_pairing] kafka_step.join, code_simp?)+
qed

lemma kworld_committed_reachable: "kafka_reachable default_consumer_config kworld_committed"
proof -
  have 1: "todo (runners kworld_joined 0) = []"
    "isl (fst (runner_poll default_consumer_config 0 (runners kworld_joined 0) (wbroker kworld_joined))) = False"
    by code_simp+
  have "runner_poll default_consumer_config 0 (runners kworld_joined 0) (wbroker kworld_joined) =
      (Inr (projr (fst (runner_poll default_consumer_config 0 (runners kworld_joined 0) (wbroker kworld_joined)))),
       snd (runner_poll default_consumer_config 0 (runners kworld_joined 0) (wbroker kworld_joined)))"
    using 1(2) by (metis (full_types) prod.collapse sum.collapse(2))
  note polled = reach_step [OF kworld_joined_reachable kafka_step.poll [OF 1(1) this]]
  have 2: "in_hand (runners kworld_polled 0) = Some (the (in_hand (runners kworld_polled 0)))" by code_simp
  have polled: "kafka_reachable default_consumer_config kworld_polled"
    using polled by (simp only: kworld_polled_def Let_def)
  note handled = reach_step [OF polled kafka_step.handle [OF 2 surjective_pairing, where c = default_consumer_config and u = 0 and h = HandlerReturned]]
  have 3: "todo (runners kworld_handled 0) = []" by code_simp
  have handled: "kafka_reachable default_consumer_config kworld_handled"
    using handled by (simp only: kworld_handled_def Let_def if_True refl)
  from reach_step [OF handled kafka_step.finish [OF 3, of "fst (runner_finish 0 (runners kworld_handled 0) (wbroker kworld_handled))"]]
  show ?thesis by (simp only: kworld_committed_def Let_def prod.collapse)
qed


text \<open>
  a deferral of zero is forgotten. When the first partition of a batch defers by zero seconds, that
  is, its record is due now, and a second one by \<open>d\<close>, the cycle reports \<open>d\<close> as its wait for deferred
  records, which is not the soonest of them.
\<close>

theorem zero_deferral_is_forgotten:
  "defer_delay (result (fst (runner_handle c u' (HandlerRetryAfter d) m
      (fst (runner_handle c u (HandlerRetryAfter 0) m (r\<lparr>todo := [(p, x # xs), (q, y # ys)], result := empty_result\<rparr>) b)) b'))) = d"
  by (simp add: runner_handle_def handle_outcome_def empty_result_def)

end
