(* ===== verification/Dead_Letter.thy ===== *)
theory Dead_Letter
  imports Kafka_Runner Py_Text "HOL-Library.Sublist"
begin

text \<open>
  Retry ladders and dead letters (\<open>src/src/dlq\<close>: \<open>base.py\<close>, \<open>envelope.py\<close>, \<open>router.py\<close>,
  \<open>handler.py\<close>, \<open>replay.py\<close>).

  A record whose handler fails is published again on the next topic of its ladder, with an envelope
  in its headers that counts the attempts. Text from headers and exceptions is kept as UTF-8 bytes.
  Timestamps are integers, microseconds since the year 1 in UTC. The publisher is an argument; its
  contract is the locale \<open>message_publisher\<close>, which the in-process broker satisfies.

  What the code takes from Python's data tables and from \<open>datetime\<close>'s text format is collected in
  the record \<open>pylib\<close>, an argument of the functions that need it.
\<close>

section \<open>Definitions\<close>

subsection \<open>Library arguments and errors\<close>

text \<open>
  \<open>fromisoformat\<close> followed by \<open>astimezone(UTC)\<close>: not a timestamp, a timestamp without an offset,
  an instant that UTC cannot represent, or an instant.
\<close>

datatype iso_parse = NotIso | NaiveTime | OutOfRange | AwareTime int

datatype dlq_error =
    MalformedEnvelopeError
  | ReplayNotPossibleError
  | ValueError
  | OverflowError
  | PublishError kafka_error

text \<open>
  \<open>wide_int\<close> and \<open>wide_isdigit\<close> are \<open>int\<close> and \<open>str.isdigit\<close> on text that is not ASCII, which depend
  on the Unicode tables; \<open>explain\<close> is the message of the package's own exceptions.
\<close>

record pylib =
  isoformat :: "int \<Rightarrow> string"
  fromisoformat :: "string \<Rightarrow> iso_parse"
  wide_int :: "string \<Rightarrow> int option"
  wide_isdigit :: "string \<Rightarrow> bool"
  explain :: "dlq_error \<Rightarrow> string"

fun bind_err :: "'e + 'a \<Rightarrow> ('a \<Rightarrow> 'e + 'b) \<Rightarrow> 'e + 'b" where
  "bind_err (Inl e) f = Inl e"
| "bind_err (Inr x) f = f x"

definition isdigit :: "pylib \<Rightarrow> string \<Rightarrow> bool" where
  "isdigit lib s = (if ascii_text s then s \<noteq> [] \<and> list_all py_digit s else wide_isdigit lib s)"

text \<open>\<open>datetime.max\<close>, and \<open>now + timedelta(seconds=delay)\<close>, which rounds to whole microseconds.\<close>

definition MAX_TIME :: int where
  "MAX_TIME = 315537897599999999"

definition round_half_even :: "rat \<Rightarrow> int" where
  "round_half_even x =
     (let lower = \<lfloor>x\<rfloor>; part = x - of_int lower in
      if part < 1 / 2 then lower else if part > 1 / 2 then lower + 1 else if even lower then lower else lower + 1)"

subsection \<open>Ladders\<close>

definition MAX_TIER_EXPONENT :: int where
  "MAX_TIER_EXPONENT = 32"

record retry_tier =
  tier_index :: int
  tier_topic :: string
  tier_delay :: seconds

record retry_ladder =
  ladder_origin :: string
  ladder_tiers :: "retry_tier list"
  ladder_dlt :: string

definition max_attempts :: "retry_ladder \<Rightarrow> int" where
  "max_attempts l = int (length (ladder_tiers l)) + 1"

definition ladder_topics :: "retry_ladder \<Rightarrow> string list" where
  "ladder_topics l = ladder_origin l # map tier_topic (ladder_tiers l) @ [ladder_dlt l]"

definition retry_topics :: "retry_ladder \<Rightarrow> string list" where
  "retry_topics l = map tier_topic (ladder_tiers l)"

definition total_delay :: "retry_ladder \<Rightarrow> seconds" where
  "total_delay l = sum_list (map tier_delay (ladder_tiers l))"

definition destination :: "int \<Rightarrow> retry_ladder \<Rightarrow> dlq_error + retry_tier option" where
  "destination attempts l =
     (if attempts < 1 then Inl ValueError
      else if attempts > int (length (ladder_tiers l)) then Inr None
      else Inr (Some (ladder_tiers l ! nat (attempts - 1))))"

definition tier_for_topic :: "string \<Rightarrow> retry_ladder \<Rightarrow> retry_tier option" where
  "tier_for_topic topic l = find (\<lambda>t. tier_topic t = topic) (ladder_tiers l)"

record dlq_policy =
  dp_base_delay :: seconds
  dp_multiplier :: rat
  dp_tiers :: int
  dp_max_delay :: seconds
  dp_retry_suffix :: string
  dp_dead_letter_suffix :: string

definition default_dlq_policy :: dlq_policy where
  "default_dlq_policy =
     \<lparr>dp_base_delay = 5, dp_multiplier = 5, dp_tiers = 3, dp_max_delay = 900, dp_retry_suffix = ''.retry'',
      dp_dead_letter_suffix = ''.dlt''\<rparr>"

definition dlq_policy_error :: "dlq_policy \<Rightarrow> string option" where
  "dlq_policy_error p =
     (if dp_base_delay p \<le> 0 then Some ''base_delay must be positive.''
      else if dp_multiplier p < 1 then Some ''multiplier below 1 would make each tier wait less than the last.''
      else if dp_tiers p < 0 then Some ''tiers cannot be negative.''
      else if dp_max_delay p < dp_base_delay p then Some ''max_delay cannot be below base_delay.''
      else if dp_retry_suffix p = [] then Some ''retry_suffix must not be empty.''
      else if dp_dead_letter_suffix p = [] then Some ''dead_letter_suffix must not be empty.''
      else if dp_retry_suffix p = dp_dead_letter_suffix p then Some ''retry_suffix and dead_letter_suffix must differ''
      else None)"

abbreviation dlq_policy_ok :: "dlq_policy \<Rightarrow> bool" where
  "dlq_policy_ok p \<equiv> dlq_policy_error p = None"

definition tier_wait :: "dlq_policy \<Rightarrow> int \<Rightarrow> seconds" where
  "tier_wait p index = min (dp_max_delay p) (dp_base_delay p * dp_multiplier p ^ nat (min (index - 1) MAX_TIER_EXPONENT))"

definition policy_tier_delay :: "dlq_policy \<Rightarrow> int \<Rightarrow> dlq_error + seconds" where
  "policy_tier_delay p index = (if index < 1 then Inl ValueError else Inr (tier_wait p index))"

definition retry_topic :: "dlq_policy \<Rightarrow> string \<Rightarrow> int \<Rightarrow> string" where
  "retry_topic p origin index = origin @ dp_retry_suffix p @ ''.'' @ decimal (nat index)"

definition dead_letter_topic :: "dlq_policy \<Rightarrow> string \<Rightarrow> string" where
  "dead_letter_topic p origin = origin @ dp_dead_letter_suffix p"

text \<open>\<open>str.rpartition\<close> at a separator that is not empty: what is before and after its last occurrence.\<close>

fun rpartition :: "string \<Rightarrow> string \<Rightarrow> (string \<times> string) option" where
  "rpartition sep [] = None"
| "rpartition sep (c # s) =
     (case rpartition sep s of
        Some (before, after) \<Rightarrow> Some (c # before, after)
      | None \<Rightarrow> if prefix sep (c # s) then Some ([], drop (length sep) (c # s)) else None)"

definition policy_origin_of :: "pylib \<Rightarrow> dlq_policy \<Rightarrow> string \<Rightarrow> string option" where
  "policy_origin_of lib p topic =
     (if suffix (dp_dead_letter_suffix p) topic
      then (let stem = take (length topic - length (dp_dead_letter_suffix p)) topic in
            if stem = [] then None else Some stem)
      else case rpartition (dp_retry_suffix p @ ''.'') topic of
        Some (before, after) \<Rightarrow> if before \<noteq> [] \<and> isdigit lib after then Some before else None
      | None \<Rightarrow> None)"

definition is_ladder_topic :: "pylib \<Rightarrow> dlq_policy \<Rightarrow> string \<Rightarrow> bool" where
  "is_ladder_topic lib p topic \<longleftrightarrow> policy_origin_of lib p topic \<noteq> None"

definition ladder_for :: "pylib \<Rightarrow> dlq_policy \<Rightarrow> string \<Rightarrow> dlq_error + retry_ladder" where
  "ladder_for lib p origin =
     (if origin = [] then Inl ValueError
      else if is_ladder_topic lib p origin then Inl ValueError
      else Inr \<lparr>ladder_origin = origin,
                ladder_tiers = map (\<lambda>index. \<lparr>tier_index = index, tier_topic = retry_topic p origin index,
                  tier_delay = tier_wait p index\<rparr>) [1..dp_tiers p],
                ladder_dlt = dead_letter_topic p origin\<rparr>)"

subsection \<open>Envelopes\<close>

definition HEADER_PREFIX :: string where "HEADER_PREFIX = ''x-dlq-''"
definition HEADER_ORIGIN_TOPIC :: string where "HEADER_ORIGIN_TOPIC = ''x-dlq-origin-topic''"
definition HEADER_ORIGIN_PARTITION :: string where "HEADER_ORIGIN_PARTITION = ''x-dlq-origin-partition''"
definition HEADER_ORIGIN_OFFSET :: string where "HEADER_ORIGIN_OFFSET = ''x-dlq-origin-offset''"
definition HEADER_ATTEMPTS :: string where "HEADER_ATTEMPTS = ''x-dlq-attempts''"
definition HEADER_FIRST_FAILED_AT :: string where "HEADER_FIRST_FAILED_AT = ''x-dlq-first-failed-at''"
definition HEADER_NOT_BEFORE :: string where "HEADER_NOT_BEFORE = ''x-dlq-not-before''"
definition HEADER_ERROR :: string where "HEADER_ERROR = ''x-dlq-error''"
definition HEADER_REPLAYS :: string where "HEADER_REPLAYS = ''x-dlq-replays''"
definition HEADER_SYNTHETIC_KEY :: string where "HEADER_SYNTHETIC_KEY = ''x-dlq-synthetic-key''"

definition MAX_ERROR_LENGTH :: int where
  "MAX_ERROR_LENGTH = 512"

text \<open>An ellipsis, three bytes in UTF-8, and \<open>[truncated]\<close>.\<close>

definition TRUNCATION_MARKER :: string where
  "TRUNCATION_MARKER = [CHR 0xE2, CHR 0x80, CHR 0xA6] @ ''[truncated]''"

definition truncate_error :: "string \<Rightarrow> int \<Rightarrow> dlq_error + string" where
  "truncate_error txt limit =
     (let chars = utf8_chars txt; marker = int (length (utf8_chars TRUNCATION_MARKER)) in
      if limit < 1 then Inl ValueError
      else if int (length chars) \<le> limit then Inr txt
      else if limit \<le> marker then Inr (concat (take (nat limit) chars))
      else Inr (concat (take (nat (limit - marker)) chars) @ TRUNCATION_MARKER))"

definition short_error :: "string \<Rightarrow> string" where
  "short_error txt = (case truncate_error txt MAX_ERROR_LENGTH of Inr t \<Rightarrow> t | Inl _ \<Rightarrow> [])"

record envelope =
  origin_topic :: string
  origin_partition :: int
  origin_offset :: int
  attempts :: int
  first_failed_at :: int
  not_before :: int
  error_text :: string
  replays :: int

definition new_envelope :: "envelope \<Rightarrow> dlq_error + envelope" where
  "new_envelope e =
     (if attempts e < 1 \<or> origin_partition e < 0 \<or> origin_offset e < 0 \<or> replays e < 0 then Inl ValueError else Inr e)"

definition is_due :: "int \<Rightarrow> envelope \<Rightarrow> bool" where
  "is_due now e \<longleftrightarrow> now \<ge> not_before e"

definition wait_for :: "int \<Rightarrow> envelope \<Rightarrow> seconds" where
  "wait_for now e = max 0 (of_int (not_before e - now) / 1000000)"

definition envelope_age :: "int \<Rightarrow> envelope \<Rightarrow> seconds" where
  "envelope_age now e = max 0 (of_int (now - first_failed_at e) / 1000000)"

definition to_headers :: "pylib \<Rightarrow> envelope \<Rightarrow> headers" where
  "to_headers lib e =
     [(HEADER_ORIGIN_TOPIC, origin_topic e),
      (HEADER_ORIGIN_PARTITION, decimal (nat (origin_partition e))),
      (HEADER_ORIGIN_OFFSET, decimal (nat (origin_offset e))),
      (HEADER_ATTEMPTS, decimal (nat (attempts e))),
      (HEADER_FIRST_FAILED_AT, isoformat lib (first_failed_at e)),
      (HEADER_NOT_BEFORE, isoformat lib (not_before e)),
      (HEADER_ERROR, short_error (error_text e)),
      (HEADER_REPLAYS, decimal (nat (replays e)))]"

definition strip_headers :: "headers \<Rightarrow> headers" where
  "strip_headers hs = filter (\<lambda>(name, _). \<not> prefix HEADER_PREFIX name) hs"

definition stamp :: "pylib \<Rightarrow> headers \<Rightarrow> envelope \<Rightarrow> headers" where
  "stamp lib hs e = strip_headers hs @ to_headers lib e"

definition decode_text :: "string \<Rightarrow> dlq_error + string" where
  "decode_text raw = (if utf8_valid raw then Inr raw else Inl MalformedEnvelopeError)"

definition decode_int :: "pylib \<Rightarrow> string \<Rightarrow> dlq_error + int" where
  "decode_int lib raw =
     bind_err (decode_text raw) (\<lambda>t.
       case (if ascii_text t then py_int t else wide_int lib t) of
         None \<Rightarrow> Inl MalformedEnvelopeError
       | Some n \<Rightarrow> Inr n)"

definition decode_time :: "pylib \<Rightarrow> string \<Rightarrow> dlq_error + int" where
  "decode_time lib raw =
     bind_err (decode_text raw) (\<lambda>t.
       case fromisoformat lib t of
         NotIso \<Rightarrow> Inl MalformedEnvelopeError
       | NaiveTime \<Rightarrow> Inl MalformedEnvelopeError
       | OutOfRange \<Rightarrow> Inl OverflowError
       | AwareTime n \<Rightarrow> Inr n)"

text \<open>
  \<open>read\<close>: no attempts header means no envelope. The constructor's \<open>ValueError\<close> becomes a
  \<open>MalformedEnvelopeError\<close>; an \<open>OverflowError\<close> is not a \<open>ValueError\<close> and is raised as it is.
\<close>

definition read_envelope :: "pylib \<Rightarrow> consumed_message \<Rightarrow> dlq_error + envelope option" where
  "read_envelope lib m =
     (case msg_header HEADER_ATTEMPTS m of
        None \<Rightarrow> Inr None
      | Some raw_attempts \<Rightarrow>
          bind_err (decode_int lib raw_attempts) (\<lambda>att.
          case (msg_header HEADER_FIRST_FAILED_AT m, msg_header HEADER_NOT_BEFORE m, msg_header HEADER_ORIGIN_TOPIC m,
                msg_header HEADER_ORIGIN_PARTITION m, msg_header HEADER_ORIGIN_OFFSET m) of
            (Some raw_first, Some raw_before, Some raw_topic, Some raw_partition, Some raw_offset) \<Rightarrow>
              bind_err (decode_text raw_topic) (\<lambda>topic.
              bind_err (decode_int lib raw_partition) (\<lambda>part.
              bind_err (decode_int lib raw_offset) (\<lambda>off.
              bind_err (decode_time lib raw_first) (\<lambda>first.
              bind_err (decode_time lib raw_before) (\<lambda>before.
              bind_err (case msg_header HEADER_ERROR m of None \<Rightarrow> Inr [] | Some raw \<Rightarrow> decode_text raw) (\<lambda>err.
              bind_err (case msg_header HEADER_REPLAYS m of None \<Rightarrow> Inr 0 | Some raw \<Rightarrow> decode_int lib raw) (\<lambda>laps.
              case new_envelope \<lparr>origin_topic = topic, origin_partition = part, origin_offset = off, attempts = att,
                   first_failed_at = first, not_before = before, error_text = err, replays = laps\<rparr> of
                Inl _ \<Rightarrow> Inl MalformedEnvelopeError
              | Inr e \<Rightarrow> Inr (Some e))))))))
          | _ \<Rightarrow> Inl MalformedEnvelopeError))"

definition read_replays :: "pylib \<Rightarrow> consumed_message \<Rightarrow> dlq_error + int" where
  "read_replays lib m = (case msg_header HEADER_REPLAYS m of None \<Rightarrow> Inr 0 | Some raw \<Rightarrow> decode_int lib raw)"

definition due_at :: "int \<Rightarrow> seconds \<Rightarrow> dlq_error + int" where
  "due_at now delay =
     (if delay \<le> 0 then Inr now
      else let t = now + round_half_even (delay * 1000000) in if t > MAX_TIME then Inl OverflowError else Inr t)"

definition advance ::
    "envelope option \<Rightarrow> consumed_message \<Rightarrow> int \<Rightarrow> seconds \<Rightarrow> string \<Rightarrow> int \<Rightarrow> string option \<Rightarrow> dlq_error + envelope" where
  "advance previous m now delay err laps origin =
     bind_err (due_at now delay) (\<lambda>due.
       case previous of
         None \<Rightarrow>
           new_envelope \<lparr>origin_topic = (case origin of Some t \<Rightarrow> t | None \<Rightarrow> ptopic (msg_partition m)),
             origin_partition = int (pnumber (msg_partition m)), origin_offset = msg_offset m, attempts = 1,
             first_failed_at = now, not_before = due, error_text = err, replays = laps\<rparr>
       | Some e \<Rightarrow> new_envelope (e\<lparr>attempts := attempts e + 1, not_before := due, error_text := err\<rparr>))"

subsection \<open>The router\<close>

text \<open>An exception: the name of its class and its message, as UTF-8.\<close>

record exn =
  exc_name :: string
  exc_text :: string

type_synonym 's publisher =
  "string \<Rightarrow> string option \<Rightarrow> string option \<Rightarrow> headers \<Rightarrow> 's \<Rightarrow> (kafka_error + published_message) \<times> 's"

record route_outcome =
  out_topic :: string
  out_attempts :: int
  out_delay :: seconds
  dead_lettered :: bool
  out_published :: published_message
  out_envelope :: envelope

definition exn_line :: "exn \<Rightarrow> string" where
  "exn_line x = exc_name x @ '': '' @ exc_text x"

definition error_exn :: "pylib \<Rightarrow> dlq_error \<Rightarrow> exn" where
  "error_exn lib e =
     \<lparr>exc_name = (case e of
        MalformedEnvelopeError \<Rightarrow> ''MalformedEnvelopeError''
      | ReplayNotPossibleError \<Rightarrow> ''ReplayNotPossibleError''
      | ValueError \<Rightarrow> ''ValueError''
      | OverflowError \<Rightarrow> ''OverflowError''
      | PublishError _ \<Rightarrow> ''PublishError''), exc_text = explain lib e\<rparr>"

definition router_ladder :: "pylib \<Rightarrow> dlq_policy \<Rightarrow> envelope option \<Rightarrow> consumed_message \<Rightarrow> dlq_error + retry_ladder" where
  "router_ladder lib p previous m =
     (let topic = ptopic (msg_partition m);
          origin = (case previous of
             Some e \<Rightarrow> origin_topic e
           | None \<Rightarrow> (case policy_origin_of lib p topic of Some t \<Rightarrow> t | None \<Rightarrow> topic))
      in ladder_for lib p origin)"

definition router_ladder_for :: "pylib \<Rightarrow> dlq_policy \<Rightarrow> consumed_message \<Rightarrow> dlq_error + retry_ladder" where
  "router_ladder_for lib p m =
     (case read_envelope lib m of
        Inr previous \<Rightarrow> router_ladder lib p previous m
      | Inl MalformedEnvelopeError \<Rightarrow> router_ladder lib p None m
      | Inl e \<Rightarrow> Inl e)"

definition synthetic_key :: "envelope \<Rightarrow> string" where
  "synthetic_key e = origin_topic e @ '':'' @ decimal (nat (origin_partition e)) @ '':'' @ decimal (nat (origin_offset e))"

definition republish_key :: "pylib \<Rightarrow> consumed_message \<Rightarrow> envelope \<Rightarrow> string option \<times> headers" where
  "republish_key lib m e =
     (let hs = stamp lib (msg_headers m) e in
      if msg_key m \<noteq> None \<or> msg_value m \<noteq> None then (msg_key m, hs)
      else (Some (synthetic_key e), hs @ [(HEADER_SYNTHETIC_KEY, ''1'')]))"

definition router_publish ::
    "pylib \<Rightarrow> 's publisher \<Rightarrow> consumed_message \<Rightarrow> string \<Rightarrow> envelope \<Rightarrow> 's \<Rightarrow> (dlq_error + published_message) \<times> 's" where
  "router_publish lib pub m topic e s =
     (case republish_key lib m e of
        (key, hs) \<Rightarrow>
          (case pub topic (msg_value m) key hs s of
             (Inl err, s1) \<Rightarrow> (Inl (PublishError err), s1)
           | (Inr published, s1) \<Rightarrow> (Inr published, s1)))"

definition dead_letter_unreadable ::
    "pylib \<Rightarrow> dlq_policy \<Rightarrow> 's publisher \<Rightarrow> consumed_message \<Rightarrow> int \<Rightarrow> 's \<Rightarrow> (dlq_error + route_outcome) \<times> 's" where
  "dead_letter_unreadable lib p pub m now s =
     (case bind_err (router_ladder lib p None m) (\<lambda>l.
        bind_err (advance None m now 0 (exn_line (error_exn lib MalformedEnvelopeError)) 0 None) (\<lambda>e. Inr (l, e))) of
        Inl err \<Rightarrow> (Inl err, s)
      | Inr (l, e) \<Rightarrow>
          (case router_publish lib pub m (ladder_dlt l) e s of
             (Inl err, s1) \<Rightarrow> (Inl err, s1)
           | (Inr published, s1) \<Rightarrow>
               (Inr \<lparr>out_topic = ladder_dlt l, out_attempts = attempts e, out_delay = 0, dead_lettered = True,
                     out_published = published, out_envelope = e\<rparr>, s1)))"

text \<open>The part of \<open>route\<close> before it publishes: the next tier, if any, the destination, and the envelope.\<close>

definition plan_route ::
    "pylib \<Rightarrow> dlq_policy \<Rightarrow> (exn \<Rightarrow> bool) \<Rightarrow> int \<Rightarrow> consumed_message \<Rightarrow> exn \<Rightarrow> envelope option \<Rightarrow> int \<Rightarrow>
     dlq_error + (retry_tier option \<times> string \<times> envelope)" where
  "plan_route lib p non_retryable now m exc previous laps =
     bind_err (router_ladder lib p previous m) (\<lambda>l.
     bind_err (if non_retryable exc then Inr None
               else destination ((case previous of Some e \<Rightarrow> attempts e | None \<Rightarrow> 0) + 1) l) (\<lambda>tier.
     bind_err (advance previous m now (case tier of Some t \<Rightarrow> tier_delay t | None \<Rightarrow> 0) (short_error (exn_line exc)) laps
                 (Some (ladder_origin l))) (\<lambda>e.
     Inr (tier, case tier of Some t \<Rightarrow> tier_topic t | None \<Rightarrow> ladder_dlt l, e))))"

definition route ::
    "pylib \<Rightarrow> dlq_policy \<Rightarrow> (exn \<Rightarrow> bool) \<Rightarrow> 's publisher \<Rightarrow> int \<Rightarrow> consumed_message \<Rightarrow> exn \<Rightarrow> 's \<Rightarrow>
     (dlq_error + route_outcome) \<times> 's" where
  "route lib p non_retryable pub now m exc s =
     (case bind_err (read_envelope lib m) (\<lambda>previous. bind_err (read_replays lib m) (\<lambda>laps. Inr (previous, laps))) of
        Inl MalformedEnvelopeError \<Rightarrow> dead_letter_unreadable lib p pub m now s
      | Inl err \<Rightarrow> (Inl err, s)
      | Inr (previous, laps) \<Rightarrow>
          (case plan_route lib p non_retryable now m exc previous laps of
             Inl err \<Rightarrow> (Inl err, s)
           | Inr (tier, topic, e) \<Rightarrow>
               (case router_publish lib pub m topic e s of
                  (Inl err, s1) \<Rightarrow> (Inl err, s1)
                | (Inr published, s1) \<Rightarrow>
                    (Inr \<lparr>out_topic = topic, out_attempts = (case previous of Some e0 \<Rightarrow> attempts e0 | None \<Rightarrow> 0) + 1,
                          out_delay = (case tier of Some t \<Rightarrow> tier_delay t | None \<Rightarrow> 0), dead_lettered = (tier = None),
                          out_published = published, out_envelope = e\<rparr>, s1))))"

subsection \<open>Handlers\<close>

text \<open>How a handler ends: it returns (\<open>None\<close>), or raises \<open>RetryAfter\<close> or another exception.\<close>

datatype raised = RaisedRetryAfter seconds | RaisedError exn

type_synonym 's handler = "consumed_message \<Rightarrow> 's \<Rightarrow> raised option \<times> 's"

definition with_dead_letter ::
    "pylib \<Rightarrow> dlq_policy \<Rightarrow> (exn \<Rightarrow> bool) \<Rightarrow> 's publisher \<Rightarrow> int \<Rightarrow> 's handler \<Rightarrow> 's handler" where
  "with_dead_letter lib p non_retryable pub now handler m s =
     (case handler m s of
        (None, s1) \<Rightarrow> (None, s1)
      | (Some (RaisedRetryAfter delay), s1) \<Rightarrow> (Some (RaisedRetryAfter delay), s1)
      | (Some (RaisedError exc), s1) \<Rightarrow>
          (case route lib p non_retryable pub now m exc s1 of
             (Inl err, s2) \<Rightarrow> (Some (RaisedError (error_exn lib err)), s2)
           | (Inr _, s2) \<Rightarrow> (None, s2)))"

definition with_due_time :: "pylib \<Rightarrow> int \<Rightarrow> seconds \<Rightarrow> 's handler \<Rightarrow> 's handler" where
  "with_due_time lib now grace handler m s =
     (case read_envelope lib m of
        Inl err \<Rightarrow> (Some (RaisedError (error_exn lib err)), s)
      | Inr None \<Rightarrow> handler m s
      | Inr (Some e) \<Rightarrow>
          if wait_for now e > grace then (Some (RaisedRetryAfter (wait_for now e)), s) else handler m s)"

text \<open>The gate reads its clock at \<open>now\<close>, the router, later, at \<open>failed_at\<close>.\<close>

definition retry_tier_handler ::
    "pylib \<Rightarrow> dlq_policy \<Rightarrow> (exn \<Rightarrow> bool) \<Rightarrow> 's publisher \<Rightarrow> int \<Rightarrow> int \<Rightarrow> seconds \<Rightarrow> 's handler \<Rightarrow> 's handler" where
  "retry_tier_handler lib p non_retryable pub now failed_at grace handler =
     with_dead_letter lib p non_retryable pub failed_at (with_due_time lib now grace handler)"

subsection \<open>Replaying\<close>

definition DEFAULT_MAX_REPLAYS :: int where
  "DEFAULT_MAX_REPLAYS = 3"

record replay_outcome =
  rep_topic :: string
  rep_replays :: int
  rep_published :: published_message
  rep_envelope :: envelope

definition replay_headers :: "envelope \<Rightarrow> headers" where
  "replay_headers e = [(HEADER_REPLAYS, decimal (nat (replays e)))]"

definition replay ::
    "pylib \<Rightarrow> dlq_policy \<Rightarrow> int \<Rightarrow> 's publisher \<Rightarrow> consumed_message \<Rightarrow> 's \<Rightarrow> (dlq_error + replay_outcome) \<times> 's" where
  "replay lib p max_replays pub m s =
     (case read_envelope lib m of
        Inl MalformedEnvelopeError \<Rightarrow> (Inl ReplayNotPossibleError, s)
      | Inl err \<Rightarrow> (Inl err, s)
      | Inr None \<Rightarrow> (Inl ReplayNotPossibleError, s)
      | Inr (Some e) \<Rightarrow>
          if msg_header HEADER_SYNTHETIC_KEY m \<noteq> None then (Inl ReplayNotPossibleError, s)
          else if is_ladder_topic lib p (origin_topic e) then (Inl ReplayNotPossibleError, s)
          else if replays e \<ge> max_replays then (Inl ReplayNotPossibleError, s)
          else (let restored = e\<lparr>replays := replays e + 1\<rparr> in
                case pub (origin_topic e) (msg_value m) (msg_key m) (strip_headers (msg_headers m) @ replay_headers restored) s of
                  (Inl err, s1) \<Rightarrow> (Inl (PublishError err), s1)
                | (Inr published, s1) \<Rightarrow>
                    (Inr \<lparr>rep_topic = origin_topic e, rep_replays = replays restored, rep_published = published,
                          rep_envelope = restored\<rparr>, s1)))"

definition replay_handler :: "pylib \<Rightarrow> dlq_policy \<Rightarrow> int \<Rightarrow> 's publisher \<Rightarrow> 's handler" where
  "replay_handler lib p max_replays pub m s =
     (case replay lib p max_replays pub m s of
        (Inr _, s1) \<Rightarrow> (None, s1)
      | (Inl ReplayNotPossibleError, s1) \<Rightarrow> (None, s1)
      | (Inl err, s1) \<Rightarrow> (Some (RaisedError (error_exn lib err)), s1))"

section \<open>Lemmas\<close>

subsection \<open>Envelopes in headers\<close>

text \<open>
  The documented behaviour of \<open>isoformat\<close> and \<open>fromisoformat\<close> on aware timestamps: ASCII text, which
  is parsed back to the instant it came from.
\<close>

definition iso_lib :: "pylib \<Rightarrow> bool" where
  "iso_lib lib \<longleftrightarrow> (\<forall>t. 0 \<le> t \<and> t \<le> MAX_TIME \<longrightarrow>
     ascii_text (isoformat lib t) \<and> fromisoformat lib (isoformat lib t) = AwareTime t)"

text \<open>Envelopes as they occur: 64-bit numbers, representable times, text that was encoded.\<close>

definition int64 :: "int \<Rightarrow> bool" where
  "int64 n \<longleftrightarrow> 0 \<le> n \<and> n < 2 ^ 63"

definition time_ok :: "int \<Rightarrow> bool" where
  "time_ok t \<longleftrightarrow> 0 \<le> t \<and> t \<le> MAX_TIME"

definition short_text :: "string \<Rightarrow> bool" where
  "short_text t \<longleftrightarrow> utf8_valid t \<and> int (length (utf8_chars t)) \<le> MAX_ERROR_LENGTH"

definition envelope_ok :: "envelope \<Rightarrow> bool" where
  "envelope_ok e \<longleftrightarrow> utf8_valid (origin_topic e) \<and> int64 (origin_partition e) \<and> int64 (origin_offset e) \<and>
     1 \<le> attempts e \<and> int64 (attempts e) \<and> time_ok (first_failed_at e) \<and> time_ok (not_before e) \<and>
     short_text (error_text e) \<and> int64 (replays e)"

lemma int64_small: "int64 n \<Longrightarrow> nat n < 10 ^ 4300"
proof -
  assume "int64 n"
  then have "nat n < 2 ^ 63" by (simp add: int64_def nat_less_iff)
  also have "(2 :: nat) ^ 63 \<le> 10 ^ 63" by (rule power_mono) simp_all
  also have "(10 :: nat) ^ 63 \<le> 10 ^ 4300" by (rule power_increasing) simp_all
  finally show ?thesis .
qed

lemma decode_int_decimal: "int64 n \<Longrightarrow> decode_int lib (decimal (nat n)) = Inr n"
  using py_int_decimal [OF int64_small]
  by (simp add: decode_int_def decode_text_def ascii_valid int64_def)

lemma decode_time_iso: "iso_lib lib \<Longrightarrow> time_ok t \<Longrightarrow> decode_time lib (isoformat lib t) = Inr t"
  by (simp add: iso_lib_def time_ok_def decode_time_def decode_text_def ascii_valid)

lemma truncation_marker: "utf8_valid TRUNCATION_MARKER" "length (utf8_chars TRUNCATION_MARKER) = 12"
  by code_simp+

lemma short_error_short: "utf8_valid t \<Longrightarrow> short_text (short_error t)"
proof -
  assume t: "utf8_valid t"
  have "short_error t = (if int (length (utf8_chars t)) \<le> 512 then t else concat (take 500 (utf8_chars t)) @ TRUNCATION_MARKER)"
    by (simp add: short_error_def truncate_error_def MAX_ERROR_LENGTH_def truncation_marker(2) Let_def)
  then show ?thesis
    using t utf8_valid_take [OF t, of 500] utf8_chars_take [OF t, of 500]
    by (auto simp: short_text_def MAX_ERROR_LENGTH_def utf8_chars_append truncation_marker)
qed

lemma short_error_keeps: "short_text t \<Longrightarrow> short_error t = t"
  by (simp add: short_error_def truncate_error_def short_text_def MAX_ERROR_LENGTH_def Let_def)

lemma strip_headers_idem [simp]:
  "strip_headers (a @ b) = strip_headers a @ strip_headers b" "strip_headers (strip_headers hs) = strip_headers hs"
  "strip_headers (to_headers lib e) = []" "strip_headers (stamp lib hs e) = strip_headers hs"
  "strip_headers [(HEADER_SYNTHETIC_KEY, v)] = []"
  by (simp_all add: strip_headers_def stamp_def to_headers_def HEADER_PREFIX_def HEADER_ORIGIN_TOPIC_def HEADER_ORIGIN_PARTITION_def
      HEADER_ORIGIN_OFFSET_def HEADER_ATTEMPTS_def HEADER_FIRST_FAILED_AT_def HEADER_NOT_BEFORE_def HEADER_ERROR_def HEADER_REPLAYS_def
      HEADER_SYNTHETIC_KEY_def)

lemma stripped_none: "prefix HEADER_PREFIX name \<Longrightarrow> map_of (strip_headers hs @ xs) name = map_of xs name"
  by (induction hs) (auto simp: strip_headers_def)

lemma stamped_header:
  assumes "prefix HEADER_PREFIX name" "msg_headers m = stamp lib hs e @ rest"
  shows "msg_header name m = map_of (to_headers lib e @ rest) name"
  using assms by (simp add: msg_header_def stamp_def stripped_none del: map_of_append)

lemma header_lookup:
  assumes "msg_headers m = stamp lib hs e @ rest"
  shows "msg_header HEADER_ORIGIN_TOPIC m = Some (origin_topic e)"
    "msg_header HEADER_ORIGIN_PARTITION m = Some (decimal (nat (origin_partition e)))"
    "msg_header HEADER_ORIGIN_OFFSET m = Some (decimal (nat (origin_offset e)))"
    "msg_header HEADER_ATTEMPTS m = Some (decimal (nat (attempts e)))"
    "msg_header HEADER_FIRST_FAILED_AT m = Some (isoformat lib (first_failed_at e))"
    "msg_header HEADER_NOT_BEFORE m = Some (isoformat lib (not_before e))"
    "msg_header HEADER_ERROR m = Some (short_error (error_text e))"
    "msg_header HEADER_REPLAYS m = Some (decimal (nat (replays e)))"
    "msg_header HEADER_SYNTHETIC_KEY m = map_of rest HEADER_SYNTHETIC_KEY"
  using stamped_header [OF _ assms]
  by (simp_all del: map_of_append add: to_headers_def HEADER_PREFIX_def HEADER_ORIGIN_TOPIC_def HEADER_ORIGIN_PARTITION_def
      HEADER_ORIGIN_OFFSET_def HEADER_ATTEMPTS_def HEADER_FIRST_FAILED_AT_def HEADER_NOT_BEFORE_def HEADER_ERROR_def HEADER_REPLAYS_def
      HEADER_SYNTHETIC_KEY_def)

lemma read_stamped:
  assumes lib: "iso_lib lib" and e: "envelope_ok e" and m: "msg_headers m = stamp lib hs e @ rest"
  shows "read_envelope lib m = Inr (Some e)" "read_replays lib m = Inr (replays e)"
proof -
  note h = header_lookup [OF m]
  have ints: "decode_int lib (decimal (nat (origin_partition e))) = Inr (origin_partition e)"
    "decode_int lib (decimal (nat (origin_offset e))) = Inr (origin_offset e)"
    "decode_int lib (decimal (nat (attempts e))) = Inr (attempts e)"
    "decode_int lib (decimal (nat (replays e))) = Inr (replays e)"
    using e decode_int_decimal unfolding envelope_ok_def by blast+
  have times: "decode_time lib (isoformat lib (first_failed_at e)) = Inr (first_failed_at e)"
    "decode_time lib (isoformat lib (not_before e)) = Inr (not_before e)"
    using e decode_time_iso [OF lib] unfolding envelope_ok_def by blast+
  have texts: "decode_text (origin_topic e) = Inr (origin_topic e)" "decode_text (short_error (error_text e)) = Inr (error_text e)"
    using e short_error_keeps [of "error_text e"] unfolding envelope_ok_def by (simp_all add: decode_text_def short_text_def)
  have new: "new_envelope \<lparr>origin_topic = origin_topic e, origin_partition = origin_partition e, origin_offset = origin_offset e,
      attempts = attempts e, first_failed_at = first_failed_at e, not_before = not_before e, error_text = error_text e,
      replays = replays e\<rparr> = Inr e"
    using e by (simp add: new_envelope_def envelope_ok_def int64_def)
  show "read_envelope lib m = Inr (Some e)"
    by (simp add: read_envelope_def h ints times texts new)
  show "read_replays lib m = Inr (replays e)" by (simp add: read_replays_def h ints)
qed

subsection \<open>Planning a route\<close>

lemma due_at_ok: "time_ok now \<Longrightarrow> due_at now delay = Inr t \<Longrightarrow> time_ok t"
proof -
  assume now: "time_ok now" and d: "due_at now delay = Inr t"
  have "0 \<le> round_half_even (delay * 1000000)" if "0 < delay"
    using that by (simp add: round_half_even_def Let_def le_floor_iff)
  with now d show ?thesis by (auto simp: due_at_def time_ok_def Let_def split: if_splits)
qed

lemma advance_ok:
  assumes a: "advance previous m now delay err laps origin = Inr e"
    and prev: "\<And>e0. previous = Some e0 \<Longrightarrow> envelope_ok e0 \<and> int64 (attempts e0 + 1)"
    and fresh: "previous = None \<Longrightarrow> int64 (msg_offset m) \<and> int64 (int (pnumber (msg_partition m))) \<and> int64 laps \<and>
      (\<forall>t. origin = Some t \<longrightarrow> utf8_valid t) \<and> utf8_valid (ptopic (msg_partition m))"
    and "time_ok now" "short_text err"
  shows "envelope_ok e"
proof -
  obtain due where due: "due_at now delay = Inr due" "time_ok due"
    using a due_at_ok [OF \<open>time_ok now\<close>, of delay] by (cases "due_at now delay") (auto simp: advance_def)
  show ?thesis
  proof (cases previous)
    case None
    with a due fresh assms(4,5) show ?thesis
      by (auto simp: advance_def new_envelope_def envelope_ok_def int64_def split: if_splits option.splits)
  next
    case (Some e0)
    with a due prev [OF Some] assms(5) show ?thesis
      by (auto simp: advance_def new_envelope_def envelope_ok_def split: if_splits)
  qed
qed

lemma ladder_forD:
  assumes "ladder_for lib p origin = Inr l"
  shows "ladder_origin l = origin" "length (ladder_tiers l) = nat (dp_tiers p)" "ladder_dlt l = dead_letter_topic p origin"
    "1 \<le> i \<Longrightarrow> i \<le> dp_tiers p \<Longrightarrow> tier_topic (ladder_tiers l ! nat (i - 1)) = retry_topic p origin i"
  using assms by (auto simp: ladder_for_def nth_upto split: if_splits)

subsection \<open>Publishers\<close>

text \<open>
  What the router relies on: an acknowledged record is at the end of the log of the partition that
  the acknowledgement names.
\<close>

locale message_publisher =
  fixes pub :: "'s publisher"
    and appended :: "partition \<Rightarrow> 's \<Rightarrow> (string option \<times> string option \<times> headers) list"
    and ok :: "'s \<Rightarrow> bool"
  assumes pub_ok: "ok s \<Longrightarrow> ok (snd (pub topic val key hs s))"
    and pub_acknowledged: "ok s \<Longrightarrow> pub topic val key hs s = (Inr ack, s') \<Longrightarrow>
      ptopic (pub_partition ack) = topic \<and> appended (pub_partition ack) s' = appended (pub_partition ack) s @ [(key, val, hs)]"
begin

lemma router_publish_keeps:
  assumes "ok s" "router_publish lib pub m topic e s = (Inr ack, s')"
  shows "ok s'" "ptopic (pub_partition ack) = topic"
    "appended (pub_partition ack) s' =
       appended (pub_partition ack) s @ [(fst (republish_key lib m e), msg_value m, snd (republish_key lib m e))]"
proof -
  obtain key hs where k: "republish_key lib m e = (key, hs)" by fastforce
  have "pub topic (msg_value m) key hs s = (Inr ack, s')"
    using assms(2) k by (auto simp: router_publish_def split: prod.splits sum.splits)
  from pub_acknowledged [OF assms(1) this] pub_ok [OF assms(1), of topic "msg_value m" key hs] this k
  show "ok s'" "ptopic (pub_partition ack) = topic"
    "appended (pub_partition ack) s' =
       appended (pub_partition ack) s @ [(fst (republish_key lib m e), msg_value m, snd (republish_key lib m e))]"
    by auto
qed

lemma route_keeps:
  assumes "ok s" "route lib p non_retryable pub now m exc s = (Inr out, s')"
  shows "\<exists>s0. ok s0 \<and> router_publish lib pub m (out_topic out) (out_envelope out) s0 = (Inr (out_published out), s')"
  using assms
  by (auto simp: route_def dead_letter_unreadable_def split: sum.splits prod.splits dlq_error.splits)

text \<open>A wrapped handler returns only for a record that was handled or is in the log of its next topic.\<close>

lemma returns_or_routes:
  assumes "with_dead_letter lib p non_retryable pub now handler m s = (None, s')" "ok (snd (handler m s))"
  shows "handler m s = (None, s') \<or>
    (\<exists>exc s1 out. handler m s = (Some (RaisedError exc), s1) \<and> route lib p non_retryable pub now m exc s1 = (Inr out, s') \<and>
       ptopic (pub_partition (out_published out)) = out_topic out \<and>
       (\<exists>before. appended (pub_partition (out_published out)) s' = before @
          [(fst (republish_key lib m (out_envelope out)), msg_value m, snd (republish_key lib m (out_envelope out)))]))"
proof (cases "handler m s")
  case (Pair res s1)
  show ?thesis
  proof (cases "\<exists>exc. res = Some (RaisedError exc)")
    case True
    then obtain exc where exc: "res = Some (RaisedError exc)" ..
    with assms(1) Pair obtain out where out: "route lib p non_retryable pub now m exc s1 = (Inr out, s')"
      by (auto simp: with_dead_letter_def split: prod.splits sum.splits)
    have "ok s1" using assms(2) Pair by simp
    from route_keeps [OF this out] router_publish_keeps(2,3) show ?thesis
      using Pair exc out by blast
  next
    case False
    with assms(1) Pair show ?thesis by (auto simp: with_dead_letter_def split: option.splits raised.splits)
  qed
qed

end

definition broker_publisher :: "seconds \<Rightarrow> broker publisher" where
  "broker_publisher now topic val key hs b = publish True now topic val key hs b"

definition broker_log :: "partition \<Rightarrow> broker \<Rightarrow> (string option \<times> string option \<times> headers) list" where
  "broker_log p b = map (\<lambda>r. (rec_key r, rec_value r, rec_headers r)) (log_of p b)"

interpretation broker_pub: message_publisher "broker_publisher now" broker_log topics_ok for now
proof
  fix s :: broker and topic val key hs ack s'
  assume ok: "topics_ok s"
  show "topics_ok (snd (broker_publisher now topic val key hs s))"
    using growsD(1) [OF publish_spec ok] by (metis broker_publisher_def prod.collapse)
  assume "broker_publisher now topic val key hs s = (Inr ack, s')"
  then have "publish True now topic val key hs s = (Inr ack, s')" by (simp add: broker_publisher_def)
  from publish_Inr(1) [OF ok this]
  show "ptopic (pub_partition ack) = topic \<and> broker_log (pub_partition ack) s' = broker_log (pub_partition ack) s @ [(key, val, hs)]"
    by (auto simp: broker_log_def)
qed

lemma publish_total:
  "topic \<noteq> [] \<Longrightarrow> key \<noteq> None \<or> val \<noteq> None \<Longrightarrow> \<exists>ack b'. broker_publisher now topic val key hs b = (Inr ack, b')"
  by (cases "broker_topic topic b", cases "topic_append now key val hs (fst (broker_topic topic b))")
    (auto simp: broker_publisher_def publish_def validate_record_def split: prod.splits)

lemma republish_headers: "strip_headers (snd (republish_key lib m e)) = strip_headers (msg_headers m)"
  by (simp add: republish_key_def Let_def)

text \<open>A routed record goes to a tier or to the dead-letter topic of a ladder.\<close>

lemma destination_in: "destination n l = Inr (Some t) \<Longrightarrow> tier_topic t \<in> set (retry_topics l)"
  by (auto simp: destination_def retry_topics_def split: if_splits)

lemma router_ladder_in: "router_ladder lib p previous m = Inr l \<Longrightarrow> \<exists>origin. ladder_for lib p origin = Inr l"
  by (auto simp: router_ladder_def Let_def)

lemma plan_route_topic:
  assumes "plan_route lib p non_retryable now m exc previous laps = Inr (tier, topic, e)"
  shows "\<exists>origin l. ladder_for lib p origin = Inr l \<and> topic \<in> set (retry_topics l) \<union> {ladder_dlt l}"
proof -
  from assms obtain l where l: "router_ladder lib p previous m = Inr l"
    by (cases "router_ladder lib p previous m") (auto simp: plan_route_def)
  let ?d = "if non_retryable exc then Inr None else destination ((case previous of Some e \<Rightarrow> attempts e | None \<Rightarrow> 0) + 1) l"
  from assms l obtain t where t: "?d = Inr t"
    by (cases ?d) (auto simp: plan_route_def)
  have "topic = (case t of Some t \<Rightarrow> tier_topic t | None \<Rightarrow> ladder_dlt l)"
    using assms unfolding plan_route_def l bind_err.simps t
    by (cases "advance previous m now (case t of Some t \<Rightarrow> tier_delay t | None \<Rightarrow> 0) (short_error (exn_line exc)) laps (Some (ladder_origin l))") auto
  with t have "topic \<in> set (retry_topics l) \<union> {ladder_dlt l}" by (auto dest: destination_in split: option.splits if_splits)
  with router_ladder_in [OF l] show ?thesis by blast
qed

lemma route_topic:
  assumes "route lib p non_retryable pub now m exc s = (Inr out, s')"
  shows "\<exists>origin l. ladder_for lib p origin = Inr l \<and> out_topic out \<in> set (retry_topics l) \<union> {ladder_dlt l}"
proof -
  have unreadable: ?thesis if u: "dead_letter_unreadable lib p pub m now s = (Inr out, s')"
  proof (cases "router_ladder lib p None m")
    case (Inr l)
    with u have "out_topic out = ladder_dlt l"
      by (auto simp: dead_letter_unreadable_def split: sum.splits prod.splits)
         (cases "advance None m now 0 (exn_line (error_exn lib MalformedEnvelopeError)) 0 None"; auto)+
    with router_ladder_in [OF Inr] show ?thesis by auto
  qed (use u in \<open>simp add: dead_letter_unreadable_def\<close>)
  let ?read = "bind_err (read_envelope lib m) (\<lambda>previous. bind_err (read_replays lib m) (\<lambda>laps. Inr (previous, laps)))"
  show ?thesis
  proof (cases ?read)
    case (Inl err)
    with assms unreadable show ?thesis by (cases err) (auto simp: route_def)
  next
    case (Inr pl)
    then obtain previous laps where "?read = Inr (previous, laps)" by (metis surj_pair)
    with assms obtain tier e where "plan_route lib p non_retryable now m exc previous laps = Inr (tier, out_topic out, e)"
      by (auto simp: route_def split: sum.splits prod.splits)
    from plan_route_topic [OF this] show ?thesis .
  qed
qed

subsection \<open>Climbing the ladder\<close>

text \<open>
  A record whose handler fails again and again: each failure routes it, and the record that was
  published is the one consumed next. A failure is the broker's timestamp, the router's clock and
  the exception.
\<close>

fun ride :: "pylib \<Rightarrow> dlq_policy \<Rightarrow> (exn \<Rightarrow> bool) \<Rightarrow> (seconds \<times> int \<times> exn) list \<Rightarrow> consumed_message \<Rightarrow> broker \<Rightarrow>
    dlq_error + (consumed_message \<times> broker)" where
  "ride lib p non_retryable [] m b = Inr (m, b)"
| "ride lib p non_retryable ((ts, now, exc) # fs) m b =
     (case route lib p non_retryable (broker_publisher ts) now m exc b of
        (Inl err, b1) \<Rightarrow> Inl err
      | (Inr out, b1) \<Rightarrow>
          (let q = pub_partition (out_published out) in ride lib p non_retryable fs (consumed q (last (log_of q b1))) b1))"

definition rung :: "dlq_policy \<Rightarrow> string \<Rightarrow> nat \<Rightarrow> string" where
  "rung p origin n = (if n = 0 then origin else if int n \<le> dp_tiers p then retry_topic p origin (int n) else dead_letter_topic p origin)"

text \<open>A record that has failed \<open>n\<close> times, of the origin record \<open>m0\<close>.\<close>

definition failed_times :: "pylib \<Rightarrow> dlq_policy \<Rightarrow> consumed_message \<Rightarrow> nat \<Rightarrow> consumed_message \<Rightarrow> bool" where
  "failed_times lib p m0 n m \<longleftrightarrow>
     ptopic (msg_partition m) = rung p (ptopic (msg_partition m0)) n \<and> msg_key m = msg_key m0 \<and> msg_value m = msg_value m0 \<and>
     strip_headers (msg_headers m) = strip_headers (msg_headers m0) \<and>
     (if n = 0 then m = m0
      else \<exists>e hs. msg_headers m = stamp lib hs e \<and> envelope_ok e \<and> attempts e = int n \<and>
             origin_topic e = ptopic (msg_partition m0) \<and> origin_partition e = int (pnumber (msg_partition m0)) \<and>
             origin_offset e = msg_offset m0)"

definition fresh_record :: "pylib \<Rightarrow> dlq_policy \<Rightarrow> consumed_message \<Rightarrow> bool" where
  "fresh_record lib p m \<longleftrightarrow> ptopic (msg_partition m) \<noteq> [] \<and> utf8_valid (ptopic (msg_partition m)) \<and>
     \<not> is_ladder_topic lib p (ptopic (msg_partition m)) \<and> (msg_key m \<noteq> None \<or> msg_value m \<noteq> None) \<and>
     int64 (msg_offset m) \<and> int64 (int (pnumber (msg_partition m))) \<and>
     msg_header HEADER_ATTEMPTS m = None \<and> msg_header HEADER_REPLAYS m = None"

definition ordinary_failure :: "dlq_policy \<Rightarrow> (exn \<Rightarrow> bool) \<Rightarrow> seconds \<times> int \<times> exn \<Rightarrow> bool" where
  "ordinary_failure p non_retryable f \<longleftrightarrow> (case f of (ts, now, exc) \<Rightarrow>
     0 \<le> now \<and> of_int now + dp_max_delay p * 1000000 + 1 \<le> of_int MAX_TIME \<and> \<not> non_retryable exc \<and> utf8_valid (exn_line exc))"

text \<open>The envelope that such a record carries.\<close>

definition envelope_after :: "consumed_message \<Rightarrow> nat \<Rightarrow> envelope option \<Rightarrow> bool" where
  "envelope_after m0 n previous \<longleftrightarrow>
     (if n = 0 then previous = None
      else \<exists>e. previous = Some e \<and> envelope_ok e \<and> attempts e = int n \<and> origin_topic e = ptopic (msg_partition m0) \<and>
             origin_partition e = int (pnumber (msg_partition m0)) \<and> origin_offset e = msg_offset m0)"

lemma due_at_in_range:
  assumes "0 \<le> now" "of_int now + dp_max_delay p * 1000000 + 1 \<le> of_int MAX_TIME" "delay \<le> dp_max_delay p" "0 < dp_max_delay p"
  shows "\<exists>t. due_at now delay = Inr t"
proof -
  have up: "of_int (round_half_even x) \<le> x + 1" for x :: rat
  proof -
    have "round_half_even x \<le> \<lfloor>x\<rfloor> + 1" by (simp add: round_half_even_def Let_def)
    then have "of_int (round_half_even x) \<le> (of_int (\<lfloor>x\<rfloor> + 1) :: rat)" by (simp only: of_int_le_iff)
    then show ?thesis using of_int_floor_le [of x] unfolding of_int_add of_int_1 by linarith
  qed
  have "of_int (now + round_half_even (delay * 1000000)) \<le> (of_int MAX_TIME :: rat)"
    using up [of "delay * 1000000"] assms(2,3) by simp
  then show ?thesis by (auto simp: due_at_def Let_def simp flip: of_int_add)
qed

lemma climb_ladder:
  assumes fresh: "fresh_record lib p m0" and m: "failed_times lib p m0 n m" and prev: "envelope_after m0 n previous"
  shows "\<exists>l. ladder_for lib p (ptopic (msg_partition m0)) = Inr l \<and> router_ladder lib p previous m = Inr l"
proof -
  obtain l where l: "ladder_for lib p (ptopic (msg_partition m0)) = Inr l"
    using fresh by (simp add: fresh_record_def ladder_for_def)
  have "router_ladder lib p previous m = Inr l"
  proof (cases "n = 0")
    case True
    with m prev fresh l show ?thesis
      by (auto simp: router_ladder_def failed_times_def rung_def fresh_record_def envelope_after_def is_ladder_topic_def Let_def)
  next
    case False
    with prev l show ?thesis by (auto simp: router_ladder_def envelope_after_def Let_def)
  qed
  with l show ?thesis by blast
qed

lemma climb_advance:
  assumes fresh: "fresh_record lib p m0" and m: "failed_times lib p m0 n m" and prev: "envelope_after m0 n previous"
    and due: "due_at now delay = Inr due" and now: "time_ok now" and err: "short_text err" and small: "int64 (int (Suc n))"
  shows "\<exists>e. advance previous m now delay err 0 (Some (ptopic (msg_partition m0))) = Inr e \<and> envelope_after m0 (Suc n) (Some e)"
proof -
  let ?o = "ptopic (msg_partition m0)"
  have "\<exists>e. advance previous m now delay err 0 (Some ?o) = Inr e \<and> attempts e = int (Suc n) \<and>
      origin_topic e = ?o \<and> origin_partition e = int (pnumber (msg_partition m0)) \<and> origin_offset e = msg_offset m0"
  proof (cases "n = 0")
    case True
    with prev m fresh due show ?thesis
      by (auto simp: advance_def new_envelope_def failed_times_def fresh_record_def envelope_after_def int64_def)
  next
    case False
    with prev due show ?thesis by (auto simp: advance_def new_envelope_def envelope_after_def envelope_ok_def int64_def)
  qed
  then obtain e where e: "advance previous m now delay err 0 (Some ?o) = Inr e"
      "attempts e = int (Suc n)" "origin_topic e = ?o" "origin_partition e = int (pnumber (msg_partition m0))" "origin_offset e = msg_offset m0"
    by blast
  have "envelope_ok e"
  proof (rule advance_ok [OF e(1) _ _ now err])
    show "envelope_ok e0 \<and> int64 (attempts e0 + 1)" if "previous = Some e0" for e0
      using prev that small by (auto simp: envelope_after_def add.commute split: if_splits)
    show "int64 (msg_offset m) \<and> int64 (int (pnumber (msg_partition m))) \<and> int64 0 \<and>
        (\<forall>t. Some ?o = Some t \<longrightarrow> utf8_valid t) \<and> utf8_valid (ptopic (msg_partition m))" if "previous = None"
      using prev that m fresh by (auto simp: envelope_after_def failed_times_def fresh_record_def int64_def split: if_splits)
  qed
  with e show ?thesis by (auto simp: envelope_after_def)
qed

lemma climb_plan:
  assumes pol: "dlq_policy_ok p" "dp_tiers p < 2 ^ 62" and fresh: "fresh_record lib p m0"
    and f: "ordinary_failure p non_retryable (ts, now, exc)" and n: "int n \<le> dp_tiers p" and m: "failed_times lib p m0 n m"
    and prev: "envelope_after m0 n previous"
  shows "\<exists>tier e. plan_route lib p non_retryable now m exc previous 0 = Inr (tier, rung p (ptopic (msg_partition m0)) (Suc n), e) \<and>
    envelope_after m0 (Suc n) (Some e)"
proof -
  let ?o = "ptopic (msg_partition m0)"
  obtain l where l: "ladder_for lib p ?o = Inr l" "router_ladder lib p previous m = Inr l" using climb_ladder [OF fresh m prev] by blast
  note ld = ladder_forD [OF l(1)] and lad = l(2)
  have att: "(case previous of Some e \<Rightarrow> attempts e | None \<Rightarrow> 0) = int n" using prev by (auto simp: envelope_after_def split: if_splits)
  define tier where "tier = (if int (Suc n) \<le> dp_tiers p then Some (ladder_tiers l ! n) else None)"
  have dest: "destination (int n + 1) l = Inr tier"
    using ld(2) n by (auto simp: destination_def tier_def)
  have topic: "(case tier of Some t \<Rightarrow> tier_topic t | None \<Rightarrow> ladder_dlt l) = rung p ?o (Suc n)"
    using ld(3) ld(4) [of "int (Suc n)"] by (auto simp: tier_def rung_def)
  define delay where "delay = (case tier of Some t \<Rightarrow> tier_delay t | None \<Rightarrow> 0)"
  have pos: "0 < dp_max_delay p" using pol by (auto simp: dlq_policy_error_def split: if_splits)
  have "tier_delay (ladder_tiers l ! n) = tier_wait p (int (Suc n))" if "int (Suc n) \<le> dp_tiers p"
    using l(1) that by (auto simp: ladder_for_def nth_upto split: if_splits)
  then have "delay \<le> dp_max_delay p" using pos by (auto simp: delay_def tier_def tier_wait_def)
  then obtain due where due: "due_at now delay = Inr due"
    using due_at_in_range [OF _ _ _ pos] f by (auto simp: ordinary_failure_def)
  have errs: "short_text (short_error (exn_line exc))" "time_ok now"
  proof -
    have "(of_int now :: rat) \<le> of_int MAX_TIME" using f pos by (simp add: ordinary_failure_def)
    then show "time_ok now" using f by (simp add: ordinary_failure_def time_ok_def)
    show "short_text (short_error (exn_line exc))" using f short_error_short by (simp add: ordinary_failure_def)
  qed
  have small: "int64 (int (Suc n))" using n pol(2) by (simp add: int64_def)
  obtain e where e: "advance previous m now delay (short_error (exn_line exc)) 0 (Some (ladder_origin l)) = Inr e"
      "envelope_after m0 (Suc n) (Some e)"
    using climb_advance [OF fresh m prev due errs(2,1) small] ld(1) by auto
  have "plan_route lib p non_retryable now m exc previous 0 = Inr (tier, rung p ?o (Suc n), e)"
    using f e(1) unfolding plan_route_def lad att dest topic [symmetric]
    by (simp add: dest delay_def ordinary_failure_def)
  with e show ?thesis by blast
qed

lemma failed_times_envelope:
  assumes "iso_lib lib" "fresh_record lib p m0" "failed_times lib p m0 n m"
  shows "\<exists>previous. read_envelope lib m = Inr previous \<and> read_replays lib m = Inr (case previous of None \<Rightarrow> 0 | Some e \<Rightarrow> replays e) \<and>
    envelope_after m0 n previous"
proof (cases "n = 0")
  case True
  with assms(2,3) show ?thesis by (simp add: failed_times_def fresh_record_def read_envelope_def read_replays_def envelope_after_def)
next
  case False
  with assms(3) obtain e hs where e: "msg_headers m = stamp lib hs e @ []" "envelope_ok e" "attempts e = int n"
      "origin_topic e = ptopic (msg_partition m0)" "origin_partition e = int (pnumber (msg_partition m0))" "origin_offset e = msg_offset m0"
    by (auto simp: failed_times_def)
  from read_stamped [OF assms(1) e(2,1)] e False show ?thesis by (simp add: envelope_after_def)
qed

lemma plan_route_laps:
  "plan_route lib p non_retryable now m exc (Some e) laps = plan_route lib p non_retryable now m exc (Some e) laps'"
  by (simp add: plan_route_def advance_def)

lemma climb_step:
  assumes pol: "dlq_policy_ok p" "dp_tiers p < 2 ^ 62" and lib: "iso_lib lib" and fresh: "fresh_record lib p m0"
    and ok: "topics_ok b" and f: "ordinary_failure p non_retryable (ts, now, exc)"
    and n: "int n \<le> dp_tiers p" and m: "failed_times lib p m0 n m"
  shows "\<exists>out b1. route lib p non_retryable (broker_publisher ts) now m exc b = (Inr out, b1) \<and> topics_ok b1 \<and>
    failed_times lib p m0 (Suc n) (consumed (pub_partition (out_published out)) (last (log_of (pub_partition (out_published out)) b1)))"
proof -
  let ?o = "ptopic (msg_partition m0)"
  obtain previous where prev: "read_envelope lib m = Inr previous"
      "read_replays lib m = Inr (case previous of None \<Rightarrow> 0 | Some e \<Rightarrow> replays e)"
      "envelope_after m0 n previous"
    using failed_times_envelope [OF lib fresh m] by blast
  obtain tier e where e: "plan_route lib p non_retryable now m exc previous 0 = Inr (tier, rung p ?o (Suc n), e)"
      "envelope_after m0 (Suc n) (Some e)"
    using climb_plan [OF pol fresh f n m prev(3)] by blast
  have plan: "plan_route lib p non_retryable now m exc previous (case previous of None \<Rightarrow> 0 | Some e \<Rightarrow> replays e) =
      Inr (tier, rung p ?o (Suc n), e)"
  proof (cases previous)
    case (Some e0)
    then show ?thesis using e(1) plan_route_laps [of lib p non_retryable now m exc e0 "replays e0" 0] by simp
  qed (use e(1) in simp)
  have kv: "msg_key m = msg_key m0" "msg_value m = msg_value m0" "strip_headers (msg_headers m) = strip_headers (msg_headers m0)"
    using m by (simp_all add: failed_times_def)
  have key: "republish_key lib m e = (msg_key m0, stamp lib (msg_headers m) e)"
    using fresh kv by (auto simp: republish_key_def fresh_record_def Let_def)
  have "rung p ?o (Suc n) \<noteq> []" using fresh by (simp add: rung_def retry_topic_def dead_letter_topic_def fresh_record_def)
  then obtain ack b1 where ack: "broker_publisher ts (rung p ?o (Suc n)) (msg_value m0) (msg_key m0) (stamp lib (msg_headers m) e) b = (Inr ack, b1)"
    using publish_total fresh unfolding fresh_record_def by blast
  have pub: "router_publish lib (broker_publisher ts) m (rung p ?o (Suc n)) e b = (Inr ack, b1)"
    using ack kv by (simp add: router_publish_def key)
  note kept = broker_pub.router_publish_keeps [OF ok pub]
  obtain r where r: "last (log_of (pub_partition ack) b1) = r" "rec_key r = msg_key m0" "rec_value r = msg_value m0"
      "rec_headers r = stamp lib (msg_headers m) e"
  proof -
    have "map (\<lambda>r. (rec_key r, rec_value r, rec_headers r)) (log_of (pub_partition ack) b1) \<noteq> []"
      "last (map (\<lambda>r. (rec_key r, rec_value r, rec_headers r)) (log_of (pub_partition ack) b1)) =
        (msg_key m0, msg_value m0, stamp lib (msg_headers m) e)"
      using kept(3) key kv unfolding broker_log_def by simp_all
    then show ?thesis using that [OF refl] by (simp add: last_map)
  qed
  have "failed_times lib p m0 (Suc n) (consumed (pub_partition ack) r)"
    using r kept(2) e kv by (auto simp: failed_times_def consumed_def envelope_after_def)
  then show ?thesis
    using kept(1) pub plan prev(1,2) r(1) by (auto simp: route_def)
qed

lemma ride_climbs:
  assumes "dlq_policy_ok p" "dp_tiers p < 2 ^ 62" "iso_lib lib" "fresh_record lib p m0"
    and "topics_ok b" "\<forall>f\<in>set fs. ordinary_failure p non_retryable f" "int (n + length fs) \<le> dp_tiers p + 1" "failed_times lib p m0 n m"
  shows "\<exists>m' b'. ride lib p non_retryable fs m b = Inr (m', b') \<and> failed_times lib p m0 (n + length fs) m'"
  using assms(5-)
proof (induction fs arbitrary: n m b)
  case (Cons f fs)
  obtain ts now exc where f: "f = (ts, now, exc)" by (metis surj_pair)
  obtain out b1 where out: "route lib p non_retryable (broker_publisher ts) now m exc b = (Inr out, b1)" "topics_ok b1"
      "failed_times lib p m0 (Suc n) (consumed (pub_partition (out_published out)) (last (log_of (pub_partition (out_published out)) b1)))"
    using climb_step [OF assms(1-4) Cons.prems(1) _ _ Cons.prems(4), of non_retryable ts now exc] Cons.prems(2,3) f by auto
  from Cons.IH [OF out(2) _ _ out(3)] Cons.prems(2,3) out(1) f show ?case by (auto simp: Let_def)
qed simp

section \<open>Properties\<close>

text \<open>
  C35: a record climbs its whole ladder. However often its handler fails, a record of an ordinary topic
  is on retry topic n after its n-th failure and on the dead-letter topic after the failure that
  follows the last tier; it keeps its key, its value and the application's headers, and its envelope
  says how often it failed and where it came from.
\<close>

theorem record_climbs_its_ladder:
  assumes "dlq_policy_ok p" "dp_tiers p < 2 ^ 62" "iso_lib lib" "fresh_record lib p m" "topics_ok b"
    and "\<forall>f\<in>set fs. ordinary_failure p non_retryable f" "fs \<noteq> []" "int (length fs) \<le> dp_tiers p + 1"
  shows "\<exists>m' b' e. ride lib p non_retryable fs m b = Inr (m', b') \<and>
    ptopic (msg_partition m') =
      (if int (length fs) \<le> dp_tiers p then retry_topic p (ptopic (msg_partition m)) (int (length fs))
       else dead_letter_topic p (ptopic (msg_partition m))) \<and>
    msg_key m' = msg_key m \<and> msg_value m' = msg_value m \<and> strip_headers (msg_headers m') = strip_headers (msg_headers m) \<and>
    read_envelope lib m' = Inr (Some e) \<and> attempts e = int (length fs) \<and> origin_topic e = ptopic (msg_partition m) \<and>
    origin_offset e = msg_offset m"
proof -
  have "failed_times lib p m 0 m" by (simp add: failed_times_def rung_def)
  from ride_climbs [OF assms(1-6) _ this] assms(8)
  obtain m' b' where m': "ride lib p non_retryable fs m b = Inr (m', b')" "failed_times lib p m (length fs) m'" by auto
  from failed_times_envelope [OF assms(3,4) m'(2)] assms(7)
  obtain e where "read_envelope lib m' = Inr (Some e)" "attempts e = int (length fs)" "origin_topic e = ptopic (msg_partition m)"
      "origin_offset e = msg_offset m" by (auto simp: envelope_after_def)
  with m' assms(7) show ?thesis by (auto simp: failed_times_def rung_def)
qed

text \<open>An instance of the library arguments, with timestamps written as plain numbers.\<close>

definition plain_lib :: pylib where
  "plain_lib = \<lparr>isoformat = (\<lambda>t. decimal (nat t)),
     fromisoformat = (\<lambda>s. case py_int s of Some n \<Rightarrow> AwareTime n | None \<Rightarrow> NotIso),
     wide_int = (\<lambda>_. None), wide_isdigit = (\<lambda>_. False), explain = (\<lambda>_. ''unreadable'')\<rparr>"

definition order_record :: consumed_message where
  "order_record = \<lparr>msg_partition = \<lparr>ptopic = ''orders'', pnumber = 0\<rparr>, msg_offset = 7, msg_key = Some ''k'', msg_value = Some ''v'',
     msg_headers = [(''trace'', ''t'')], msg_timestamp = 0\<rparr>"

definition broken :: exn where
  "broken = \<lparr>exc_name = ''KeyError'', exc_text = ''x''\<rparr>"

lemma plain_lib_iso: "iso_lib plain_lib"
  unfolding iso_lib_def
proof (intro allI impI)
  fix t :: int assume t: "0 \<le> t \<and> t \<le> MAX_TIME"
  then have "int64 t" by (simp add: int64_def MAX_TIME_def)
  from py_int_decimal [OF int64_small [OF this]] t
  show "ascii_text (isoformat plain_lib t) \<and> fromisoformat plain_lib (isoformat plain_lib t) = AwareTime t"
    by (simp add: plain_lib_def)
qed

lemma default_dlq_policy_ok: "dlq_policy_ok default_dlq_policy" "dp_tiers default_dlq_policy = 3"
  by (simp_all add: dlq_policy_error_def default_dlq_policy_def)

lemma order_fresh: "fresh_record plain_lib default_dlq_policy order_record"
proof -
  have "\<not> is_ladder_topic plain_lib default_dlq_policy ''orders''" "utf8_valid ''orders''" by code_simp+
  then show ?thesis
    by (simp add: fresh_record_def order_record_def msg_header_def HEADER_ATTEMPTS_def HEADER_REPLAYS_def int64_def)
qed

lemma broken_ordinary: "ordinary_failure default_dlq_policy (\<lambda>_. False) (0, 1000, broken)"
proof -
  have "utf8_valid (exn_line broken)" by code_simp
  then show ?thesis by (simp add: ordinary_failure_def default_dlq_policy_def MAX_TIME_def)
qed

lemma new_broker_ok: "topics_ok (new_broker 1)"
  by (simp add: topics_ok_def new_broker_def)

theorem record_climbs_its_ladder_witness:
  "\<exists>m' b'. ride plain_lib default_dlq_policy (\<lambda>_. False) (replicate 4 (0, 1000, broken)) order_record (new_broker 1) = Inr (m', b') \<and>
     ptopic (msg_partition m') = ''orders.dlt'' \<and> msg_value m' = Some ''v''"
proof -
  have t: "dp_tiers default_dlq_policy < 2 ^ 62" by (simp add: default_dlq_policy_ok)
  have fs: "\<forall>f\<in>set (replicate 4 (0, 1000, broken)). ordinary_failure default_dlq_policy (\<lambda>_. False) f"
    by (simp add: broken_ordinary)
  have dlt: "dead_letter_topic default_dlq_policy (ptopic (msg_partition order_record)) = ''orders.dlt''" "msg_value order_record = Some ''v''"
    by code_simp+
  from record_climbs_its_ladder [OF default_dlq_policy_ok(1) t plain_lib_iso order_fresh new_broker_ok fs]
  show ?thesis unfolding dlt default_dlq_policy_ok(2) length_replicate by auto
qed



text \<open>
  C36: envelopes survive the headers. Reading the headers that a stamp has written gives back the
  envelope, whatever other headers follow, and the application's headers are kept in order.
\<close>

theorem envelope_survives_headers:
  assumes "iso_lib lib" "envelope_ok e" "msg_headers m = stamp lib hs e @ rest"
  shows "read_envelope lib m = Inr (Some e) \<and> read_replays lib m = Inr (replays e) \<and>
    strip_headers (msg_headers m) = strip_headers hs @ strip_headers rest"
  using read_stamped [OF assms] assms(3) by simp

theorem envelope_survives_headers_witness:
  "\<exists>e. attempts e = 2 \<and> read_envelope plain_lib (order_record\<lparr>msg_headers := stamp plain_lib [(''trace'', ''t'')] e @ []\<rparr>) = Inr (Some e)"
proof -
  let ?e = "\<lparr>origin_topic = ''orders'', origin_partition = 0, origin_offset = 7, attempts = 2, first_failed_at = 5, not_before = 9,
    error_text = ''E'', replays = 1\<rparr>"
  have "utf8_valid ''orders''" "short_text ''E''" by code_simp+
  then have "envelope_ok ?e" by (simp add: envelope_ok_def int64_def time_ok_def MAX_TIME_def)
  from envelope_survives_headers [OF plain_lib_iso this, of "order_record\<lparr>msg_headers := stamp plain_lib [(''trace'', ''t'')] ?e @ []\<rparr>"
      "[(''trace'', ''t'')]" "[]"]
  show ?thesis by (intro exI [of _ ?e]) simp
qed

text \<open>
  the mark of an invented key is lost. A record with neither key nor value is given a key made
  from its position and is marked; at its next hop the mark is removed with the other headers of the
  package, and since the record now has a key it is not marked again, so that a replay puts it back on
  its origin topic under the invented key.
\<close>

theorem synthetic_key_mark_is_lost:
  assumes "iso_lib lib" "envelope_ok e2" "origin_topic e2 \<noteq> []" "\<not> is_ladder_topic lib p (origin_topic e2)"
    and "replays e2 < max_replays" "msg_key m = None" "msg_value m = None"
    and m1: "(msg_key m1, msg_headers m1) = republish_key lib m e1" "msg_value m1 = None"
    and m2: "(msg_key m2, msg_headers m2) = republish_key lib m1 e2" "msg_value m2 = None"
  shows "msg_header HEADER_SYNTHETIC_KEY m1 = Some ''1'' \<and> msg_key m2 = Some (synthetic_key e1) \<and>
    (\<exists>out b'. replay lib p max_replays (broker_publisher ts) m2 b = (Inr out, b') \<and> rep_topic out = origin_topic e2)"
proof -
  from m1 assms(6,7) have k1: "msg_key m1 = Some (synthetic_key e1)"
      "msg_headers m1 = stamp lib (msg_headers m) e1 @ [(HEADER_SYNTHETIC_KEY, ''1'')]"
    by (auto simp: republish_key_def Let_def)
  then have k2: "msg_key m2 = Some (synthetic_key e1)" "msg_headers m2 = stamp lib (msg_headers m1) e2 @ []"
    using m2 by (auto simp: republish_key_def Let_def)
  have mark: "msg_header HEADER_SYNTHETIC_KEY m1 = Some ''1''" "msg_header HEADER_SYNTHETIC_KEY m2 = None"
    using header_lookup(9) [OF k1(2)] header_lookup(9) [OF k2(2)] by simp_all
  obtain ack b' where "broker_publisher ts (origin_topic e2) (msg_value m2) (msg_key m2)
      (strip_headers (msg_headers m2) @ replay_headers (e2\<lparr>replays := replays e2 + 1\<rparr>)) b = (Inr ack, b')"
    using publish_total [OF assms(3), of "msg_key m2" "msg_value m2" ts] k2(1) by fastforce
  with read_stamped(1) [OF assms(1,2) k2(2)] mark assms(4,5)
  have "\<exists>out b'. replay lib p max_replays (broker_publisher ts) m2 b = (Inr out, b') \<and> rep_topic out = origin_topic e2"
    by (simp add: replay_def Let_def)
  with mark k2 show ?thesis by blast
qed

theorem synthetic_key_mark_is_lost_witness:
  "\<exists>m2 out b'. msg_key m2 = Some ''orders:0:7'' \<and> replay plain_lib default_dlq_policy 3 (broker_publisher 0) m2 (new_broker 1) = (Inr out, b')"
proof -
  define m where "m = order_record\<lparr>msg_key := None, msg_value := None\<rparr>"
  define e where "e = \<lparr>origin_topic = ''orders'', origin_partition = 0, origin_offset = 7, attempts = 2, first_failed_at = 5,
    not_before = 9, error_text = ''E'', replays = 0\<rparr>"
  obtain k1 hs1 where r1: "republish_key plain_lib m e = (k1, hs1)" by fastforce
  define m1 where "m1 = m\<lparr>msg_key := k1, msg_headers := hs1\<rparr>"
  obtain k2 hs2 where r2: "republish_key plain_lib m1 e = (k2, hs2)" by fastforce
  define m2 where "m2 = m\<lparr>msg_key := k2, msg_headers := hs2\<rparr>"
  have "utf8_valid ''orders''" "short_text ''E''" by code_simp+
  then have e: "envelope_ok e" "origin_topic e \<noteq> []" "replays e < 3"
    by (simp_all add: e_def envelope_ok_def int64_def time_ok_def MAX_TIME_def)
  have ladder: "\<not> is_ladder_topic plain_lib default_dlq_policy (origin_topic e)" unfolding e_def by code_simp
  have key: "synthetic_key e = ''orders:0:7''" unfolding e_def by code_simp
  have "msg_key m = None" "msg_value m = None" "(msg_key m1, msg_headers m1) = republish_key plain_lib m e" "msg_value m1 = None"
    "(msg_key m2, msg_headers m2) = republish_key plain_lib m1 e" "msg_value m2 = None"
    by (simp_all add: r1 r2) (simp_all add: m_def m1_def m2_def)
  from synthetic_key_mark_is_lost [OF plain_lib_iso e(1,2) ladder e(3) this] key show ?thesis by metis
qed

text \<open>
  A replayed record that carries a negative count of replays cannot be routed: the constructor's
  \<open>ValueError\<close> leaves \<open>route\<close>, so the record stalls its partition.
\<close>

lemma negative_replays_cannot_be_routed:
  assumes "msg_header HEADER_ATTEMPTS m = None" "read_replays lib m = Inr laps" "laps < 0"
  shows "\<exists>err. route lib p non_retryable pub now m exc s = (Inl err, s)"
proof -
  have "read_envelope lib m = Inr None" using assms(1) by (simp add: read_envelope_def)
  moreover have fails: "\<exists>x. advance None m now delay err laps origin = Inl x" for delay err origin
    using assms(3) by (cases "due_at now delay") (auto simp: advance_def new_envelope_def)
  have bind: "\<exists>x. bind_err y f = Inl x" if "\<And>z. \<exists>x. f z = Inl x" for y :: "dlq_error + 'y" and f :: "'y \<Rightarrow> dlq_error + 'z"
    using that by (cases y) auto
  have "\<exists>err. plan_route lib p non_retryable now m exc None laps = Inl err"
    unfolding plan_route_def by (rule bind, rule bind) (metis fails bind_err.simps(1))
  ultimately show ?thesis using assms(2) by (auto simp: route_def)
qed

end
