(* ===== verification/Redis_Streams.thy ===== *)
theory Redis_Streams
  imports Py_Text Retry_Loops "HOL-Library.AList"
begin

text \<open>
  Redis Streams consumer groups (\<open>src/src/redis_streams\<close>: \<open>base.py\<close>, \<open>memory.py\<close>, \<open>consumer.py\<close>).

  A stream is a list of entries with growing identifiers. A group remembers how far it has read and,
  per entry handed out and not acknowledged, the consumer, the time and the number of deliveries: the
  pending entries list. The in-process server is a map from names to streams; every method without an
  \<open>await\<close> in it is one step, and the clock reading is an argument. A dict is a list of pairs in
  insertion order.

  One cycle of a consumer scans for stalled entries, claims them, reads new ones, handles each and
  acknowledges. Other consumers act between those calls, so the cycle's locals are part of the
  consumer's state, and \<open>stream_step\<close> interleaves any number of consumers with publishers and with
  deletion.
\<close>

section \<open>Definitions\<close>

subsection \<open>Entry identifiers\<close>

datatype entry_id = EntryId (eid_ms: int) (eid_seq: int)

instantiation entry_id :: linorder
begin

definition less_eq_entry_id :: "entry_id \<Rightarrow> entry_id \<Rightarrow> bool" where
  "a \<le> b \<longleftrightarrow> eid_ms a < eid_ms b \<or> eid_ms a = eid_ms b \<and> eid_seq a \<le> eid_seq b"

definition less_entry_id :: "entry_id \<Rightarrow> entry_id \<Rightarrow> bool" where
  "a < b \<longleftrightarrow> eid_ms a < eid_ms b \<or> eid_ms a = eid_ms b \<and> eid_seq a < eid_seq b"

instance
  by standard (auto simp: less_eq_entry_id_def less_entry_id_def entry_id.expand)

end

datatype stream_error = StreamValueError | StreamLifecycleError | StreamGroupError | StreamUnavailableError

definition new_entry_id :: "int \<Rightarrow> int \<Rightarrow> stream_error + entry_id" where
  "new_entry_id ms seq = (if ms < 0 \<or> seq < 0 then Inl StreamValueError else Inr (EntryId ms seq))"

text \<open>\<open>str.partition\<close> at the first hyphen; without one the tail is empty.\<close>

definition parse_entry_id :: "string \<Rightarrow> stream_error + entry_id" where
  "parse_entry_id t =
     (let before = takeWhile (\<lambda>c. c \<noteq> CHR ''-'') t; after = drop (Suc (length before)) t in
      if after = [] then Inl StreamValueError
      else case (py_int before, py_int after) of
        (Some ms, Some seq) \<Rightarrow> new_entry_id ms seq
      | _ \<Rightarrow> Inl StreamValueError)"

definition entry_id_str :: "entry_id \<Rightarrow> string" where
  "entry_id_str i = decimal (nat (eid_ms i)) @ ''-'' @ decimal (nat (eid_seq i))"

definition exclusive_start :: "entry_id \<Rightarrow> string" where
  "exclusive_start i = ''('' @ entry_id_str i"

subsection \<open>The in-process server\<close>

type_synonym fields = "(string \<times> string) list"

record stream_message =
  sm_stream :: string
  sm_id :: entry_id
  sm_fields :: fields
  delivery_count :: int
  sm_claimed :: bool

record pending_entry =
  pe_id :: entry_id
  pe_consumer :: string
  pe_idle :: seconds
  pe_count :: int

definition validate_fields :: "fields \<Rightarrow> stream_error option" where
  "validate_fields f = (if f = [] then Some StreamValueError else None)"

record pending_row =
  row_consumer :: string
  delivered_at :: seconds
  row_count :: int

record sgroup =
  last_delivered :: entry_id
  pel :: "(entry_id \<times> pending_row) list"

record stream =
  stream_entries :: "(entry_id \<times> fields) list"
  sgroups :: "string \<Rightarrow> sgroup option"
  last_id :: entry_id

type_synonym server = "string \<Rightarrow> stream option"

definition new_stream :: stream where
  "new_stream = \<lparr>stream_entries = [], sgroups = Map.empty, last_id = EntryId 0 0\<rparr>"

definition stream_for :: "string \<Rightarrow> server \<Rightarrow> stream" where
  "stream_for name srv = (case srv name of Some s \<Rightarrow> s | None \<Rightarrow> new_stream)"

definition py_trunc :: "rat \<Rightarrow> int" where
  "py_trunc x = (if x \<ge> 0 then \<lfloor>x\<rfloor> else \<lceil>x\<rceil>)"

definition next_id :: "seconds \<Rightarrow> stream \<Rightarrow> entry_id" where
  "next_id now s =
     (let ms = py_trunc (now * 1000) in
      if ms > eid_ms (last_id s) then EntryId ms 0 else EntryId (eid_ms (last_id s)) (eid_seq (last_id s) + 1))"

definition sorted_entries :: "stream \<Rightarrow> (entry_id \<times> fields) list" where
  "sorted_entries s = sort_key fst (stream_entries s)"

definition trim :: "int \<Rightarrow> stream \<Rightarrow> stream" where
  "trim maxlen s =
     (let excess = int (length (stream_entries s)) - maxlen in
      if excess \<le> 0 then s
      else (let gone = set (map fst (take (nat excess) (sorted_entries s))) in
            s\<lparr>stream_entries := filter (\<lambda>(i, _). i \<notin> gone) (stream_entries s)\<rparr>))"

definition server_append :: "seconds \<Rightarrow> string \<Rightarrow> fields \<Rightarrow> int \<Rightarrow> server \<Rightarrow> (stream_error + entry_id) \<times> server" where
  "server_append now name f maxlen srv =
     (case validate_fields f of
        Some e \<Rightarrow> (Inl e, srv)
      | None \<Rightarrow>
          (let s = stream_for name srv;
               i = next_id now s;
               s1 = s\<lparr>stream_entries := AList.update i f (stream_entries s), last_id := i\<rparr>;
               s2 = (if maxlen \<noteq> 0 then trim maxlen s1 else s1)
           in (Inr i, srv(name \<mapsto> s2))))"

definition server_delete :: "string \<Rightarrow> entry_id \<Rightarrow> server \<Rightarrow> int \<times> server" where
  "server_delete name i srv =
     (let s = stream_for name srv in
      (if map_of (stream_entries s) i \<noteq> None then 1 else 0,
       srv(name \<mapsto> s\<lparr>stream_entries := AList.delete i (stream_entries s)\<rparr>)))"

definition entry_count :: "string \<Rightarrow> server \<Rightarrow> int" where
  "entry_count name srv = int (length (stream_entries (stream_for name srv)))"

subsection \<open>The client of one group\<close>

record stream_client =
  k_stream :: string
  k_group :: string
  k_consumer :: string
  k_maxlen :: int
  k_started :: bool

definition new_client :: "string \<Rightarrow> string \<Rightarrow> string \<Rightarrow> int \<Rightarrow> stream_error + stream_client" where
  "new_client name grp consumer maxlen =
     (if name = [] \<or> grp = [] \<or> consumer = [] \<or> maxlen < 0 then Inl StreamValueError
      else Inr \<lparr>k_stream = name, k_group = grp, k_consumer = consumer, k_maxlen = maxlen, k_started = False\<rparr>)"

definition client_start :: "stream_client \<Rightarrow> server \<Rightarrow> stream_client \<times> server" where
  "client_start k srv =
     (let s = stream_for (k_stream k) srv;
          s1 = (if sgroups s (k_group k) = None
                then s\<lparr>sgroups := (sgroups s)(k_group k \<mapsto> \<lparr>last_delivered = last_id s, pel = []\<rparr>)\<rparr> else s)
      in (k\<lparr>k_started := True\<rparr>, srv(k_stream k \<mapsto> s1)))"

definition client_stop :: "stream_client \<Rightarrow> stream_client" where
  "client_stop k = k\<lparr>k_started := False\<rparr>"

definition require_started :: "stream_client \<Rightarrow> server \<Rightarrow> stream_error + sgroup" where
  "require_started k srv =
     (if \<not> k_started k then Inl StreamLifecycleError
      else case sgroups (stream_for (k_stream k) srv) (k_group k) of
        None \<Rightarrow> Inl StreamGroupError
      | Some g \<Rightarrow> Inr g)"

definition set_sgroup :: "stream_client \<Rightarrow> sgroup \<Rightarrow> server \<Rightarrow> server" where
  "set_sgroup k g srv =
     (let s = stream_for (k_stream k) srv in srv(k_stream k \<mapsto> s\<lparr>sgroups := (sgroups s)(k_group k \<mapsto> g)\<rparr>))"

definition client_publish ::
    "seconds \<Rightarrow> stream_client \<Rightarrow> fields \<Rightarrow> string option \<Rightarrow> server \<Rightarrow> (stream_error + entry_id) \<times> server" where
  "client_publish now k f target srv =
     server_append now (case target of Some name \<Rightarrow> name | None \<Rightarrow> k_stream k) f (k_maxlen k) srv"

text \<open>The loop of \<open>_read_now\<close> over the sorted entries, with the number of messages still wanted.\<close>

fun read_from :: "string \<Rightarrow> string \<Rightarrow> seconds \<Rightarrow> nat \<Rightarrow> (entry_id \<times> fields) list \<Rightarrow> sgroup \<Rightarrow> stream_message list \<times> sgroup" where
  "read_from name consumer now n [] g = ([], g)"
| "read_from name consumer now n ((i, f) # es) g =
     (if i \<le> last_delivered g then read_from name consumer now n es g
      else
        (let g1 = g\<lparr>last_delivered := i,
                    pel := AList.update i \<lparr>row_consumer = consumer, delivered_at = now, row_count = 1\<rparr> (pel g)\<rparr>;
             m = \<lparr>sm_stream = name, sm_id = i, sm_fields = f, delivery_count = 1, sm_claimed = False\<rparr>
         in if n \<le> 1 then ([m], g1)
            else case read_from name consumer now (n - 1) es g1 of (ms, g2) \<Rightarrow> (m # ms, g2)))"

text \<open>\<open>read\<close> without its blocking wait, which repeats the same look later.\<close>

definition client_read :: "seconds \<Rightarrow> int \<Rightarrow> stream_client \<Rightarrow> server \<Rightarrow> (stream_error + stream_message list) \<times> server" where
  "client_read now cnt k srv =
     (if cnt < 1 then (Inl StreamValueError, srv)
      else case require_started k srv of
        Inl e \<Rightarrow> (Inl e, srv)
      | Inr g \<Rightarrow>
          (case read_from (k_stream k) (k_consumer k) now (nat cnt) (sorted_entries (stream_for (k_stream k) srv)) g of
             (ms, g1) \<Rightarrow> (Inr ms, set_sgroup k g1 srv)))"

definition client_stalled ::
    "seconds \<Rightarrow> seconds \<Rightarrow> int \<Rightarrow> entry_id option \<Rightarrow> stream_client \<Rightarrow> server \<Rightarrow> stream_error + pending_entry list" where
  "client_stalled now min_idle cnt start k srv =
     (if cnt < 1 then Inl StreamValueError
      else case require_started k srv of
        Inl e \<Rightarrow> Inl e
      | Inr g \<Rightarrow>
          Inr (take (nat cnt) (map (\<lambda>(i, row). \<lparr>pe_id = i, pe_consumer = row_consumer row, pe_idle = now - delivered_at row,
                 pe_count = row_count row\<rparr>)
               (filter (\<lambda>(i, row). (case start of Some s \<Rightarrow> s < i | None \<Rightarrow> True) \<and> \<not> now - delivered_at row < min_idle)
                 (sort_key fst (pel g))))))"

text \<open>The loop of \<open>claim\<close>: messages taken and identifiers that could not be.\<close>

fun claim_from :: "string \<Rightarrow> string \<Rightarrow> seconds \<Rightarrow> seconds \<Rightarrow> (entry_id \<Rightarrow> fields option) \<Rightarrow> entry_id list \<Rightarrow> sgroup \<Rightarrow>
    stream_message list \<times> entry_id list \<times> sgroup" where
  "claim_from name consumer now min_idle content [] g = ([], [], g)"
| "claim_from name consumer now min_idle content (i # ids) g =
     (case map_of (pel g) i of
        None \<Rightarrow> (case claim_from name consumer now min_idle content ids g of (ms, missing, g1) \<Rightarrow> (ms, i # missing, g1))
      | Some row \<Rightarrow>
          if now - delivered_at row < min_idle
          then (case claim_from name consumer now min_idle content ids g of (ms, missing, g1) \<Rightarrow> (ms, i # missing, g1))
          else (case content i of
             None \<Rightarrow>
               (case claim_from name consumer now min_idle content ids (g\<lparr>pel := AList.delete i (pel g)\<rparr>) of
                  (ms, missing, g1) \<Rightarrow> (ms, i # missing, g1))
           | Some f \<Rightarrow>
               (let row1 = \<lparr>row_consumer = consumer, delivered_at = now, row_count = row_count row + 1\<rparr>;
                    m = \<lparr>sm_stream = name, sm_id = i, sm_fields = f, delivery_count = row_count row + 1, sm_claimed = True\<rparr>
                in case claim_from name consumer now min_idle content ids (g\<lparr>pel := AList.update i row1 (pel g)\<rparr>) of
                     (ms, missing, g1) \<Rightarrow> (m # ms, missing, g1))))"

definition client_claim ::
    "seconds \<Rightarrow> seconds \<Rightarrow> pending_entry list \<Rightarrow> stream_client \<Rightarrow> server \<Rightarrow>
     (stream_error + (stream_message list \<times> entry_id list)) \<times> server" where
  "client_claim now min_idle es k srv =
     (case require_started k srv of
        Inl e \<Rightarrow> (Inl e, srv)
      | Inr g \<Rightarrow>
          if es = [] then (Inr ([], []), srv)
          else (case claim_from (k_stream k) (k_consumer k) now min_idle (map_of (stream_entries (stream_for (k_stream k) srv)))
                       (map pe_id es) g of
                  (ms, missing, g1) \<Rightarrow> (Inr (ms, missing), set_sgroup k g1 srv)))"

fun ack_from :: "entry_id list \<Rightarrow> sgroup \<Rightarrow> int \<times> sgroup" where
  "ack_from [] g = (0, g)"
| "ack_from (i # ids) g =
     (case ack_from ids (g\<lparr>pel := AList.delete i (pel g)\<rparr>) of
        (n, g1) \<Rightarrow> ((if map_of (pel g) i \<noteq> None then n + 1 else n), g1))"

definition client_ack :: "entry_id list \<Rightarrow> stream_client \<Rightarrow> server \<Rightarrow> (stream_error + int) \<times> server" where
  "client_ack ids k srv =
     (if ids = [] then (Inr 0, srv)
      else case require_started k srv of
        Inl e \<Rightarrow> (Inl e, srv)
      | Inr g \<Rightarrow> (case ack_from ids g of (n, g1) \<Rightarrow> (Inr n, set_sgroup k g1 srv)))"

definition pending_count :: "string option \<Rightarrow> stream_client \<Rightarrow> server \<Rightarrow> stream_error + int" where
  "pending_count consumer k srv =
     (case require_started k srv of
        Inl e \<Rightarrow> Inl e
      | Inr g \<Rightarrow>
          (case consumer of
             None \<Rightarrow> Inr (int (length (pel g)))
           | Some c \<Rightarrow> Inr (int (length (filter (\<lambda>(_, row). row_consumer row = c) (pel g))))))"

subsection \<open>The consume policy\<close>

record stream_config =
  batch_size :: int
  block_timeout :: seconds
  min_idle_time :: seconds
  claim_batch :: int
  max_deliveries :: int
  sc_handler_timeout :: seconds
  sc_base_delay :: seconds
  sc_max_delay :: seconds
  sc_jitter :: bool
  sc_shutdown_timeout :: seconds
  dead_suffix :: string

definition default_stream_config :: stream_config where
  "default_stream_config =
     \<lparr>batch_size = 50, block_timeout = 2, min_idle_time = 60, claim_batch = 20, max_deliveries = 5, sc_handler_timeout = 30,
      sc_base_delay = 1, sc_max_delay = 60, sc_jitter = True, sc_shutdown_timeout = 10, dead_suffix = ''.dead''\<rparr>"

definition stream_config_error :: "stream_config \<Rightarrow> string option" where
  "stream_config_error c =
     (if batch_size c < 1 then Some ''batch_size must be at least 1.''
      else if block_timeout c \<le> 0 then Some ''block_timeout must be positive.''
      else if min_idle_time c \<le> 0 then Some ''min_idle must be positive.''
      else if claim_batch c < 1 then Some ''claim_batch must be at least 1.''
      else if max_deliveries c < 1 then Some ''max_deliveries must be at least 1.''
      else if sc_handler_timeout c \<le> 0 then Some ''handler_timeout must be positive.''
      else if sc_base_delay c \<le> 0 then Some ''retry_base_delay must be positive.''
      else if sc_max_delay c < sc_base_delay c then Some ''retry_max_delay cannot be below retry_base_delay.''
      else if sc_shutdown_timeout c \<le> 0 then Some ''shutdown_timeout must be positive.''
      else if dead_suffix c = [] then Some ''dead_letter_suffix must not be empty.''
      else None)"

abbreviation stream_config_ok :: "stream_config \<Rightarrow> bool" where
  "stream_config_ok c \<equiv> stream_config_error c = None"

record stream_result =
  n_read :: int
  n_claimed :: int
  n_delivered :: int
  n_failed :: int
  n_dead_lettered :: int
  n_vanished :: int

definition no_result :: stream_result where
  "no_result = \<lparr>n_read = 0, n_claimed = 0, n_delivered = 0, n_failed = 0, n_dead_lettered = 0, n_vanished = 0\<rparr>"

definition result_handled :: "stream_result \<Rightarrow> int" where
  "result_handled r = n_delivered r + n_failed r + n_dead_lettered r"

text \<open>The locals of \<open>consume_once\<close>, and how far it has come.\<close>

datatype phase = Idle | Scanned | Claimed | Handling

record cycle =
  cy_phase :: phase
  cy_scanned :: "pending_entry list"
  cy_batch :: "stream_message list"
  cy_acked :: "entry_id list"
  cy_result :: stream_result

definition idle_cycle :: cycle where
  "idle_cycle = \<lparr>cy_phase = Idle, cy_scanned = [], cy_batch = [], cy_acked = [], cy_result = no_result\<rparr>"

definition cycle_scan :: "stream_config \<Rightarrow> seconds \<Rightarrow> stream_client \<Rightarrow> server \<Rightarrow> stream_error + cycle" where
  "cycle_scan c now k srv =
     (case client_stalled now (min_idle_time c) (claim_batch c) None k srv of
        Inl e \<Rightarrow> Inl e
      | Inr es \<Rightarrow> Inr (idle_cycle\<lparr>cy_phase := Scanned, cy_scanned := es\<rparr>))"

definition cycle_claim :: "stream_config \<Rightarrow> seconds \<Rightarrow> stream_client \<Rightarrow> cycle \<Rightarrow> server \<Rightarrow> (stream_error + cycle) \<times> server" where
  "cycle_claim c now k cy srv =
     (if cy_scanned cy = [] then (Inr (cy\<lparr>cy_phase := Claimed\<rparr>), srv)
      else case client_claim now (min_idle_time c) (cy_scanned cy) k srv of
        (Inl e, srv1) \<Rightarrow> (Inl e, srv1)
      | (Inr (ms, missing), srv1) \<Rightarrow>
          (Inr (cy\<lparr>cy_phase := Claimed, cy_batch := ms,
                   cy_result := (cy_result cy)\<lparr>n_claimed := int (length ms), n_vanished := int (length missing)\<rparr>\<rparr>), srv1))"

definition cycle_read :: "stream_config \<Rightarrow> seconds \<Rightarrow> stream_client \<Rightarrow> cycle \<Rightarrow> server \<Rightarrow> (stream_error + cycle) \<times> server" where
  "cycle_read c now k cy srv =
     (let budget = batch_size c - int (length (cy_batch cy)) in
      if budget > 0 then
        (case client_read now budget k srv of
           (Inl e, srv1) \<Rightarrow> (Inl e, srv1)
         | (Inr ms, srv1) \<Rightarrow>
             (Inr (cy\<lparr>cy_phase := Handling, cy_batch := cy_batch cy @ ms,
                      cy_result := (cy_result cy)\<lparr>n_read := int (length ms)\<rparr>\<rparr>), srv1))
      else (Inr (cy\<lparr>cy_phase := Handling\<rparr>), srv))"

definition DEAD_LETTER_PREFIX :: string where
  "DEAD_LETTER_PREFIX = ''x-dead-''"

definition dead_letter_stream :: "stream_config \<Rightarrow> stream_client \<Rightarrow> string" where
  "dead_letter_stream c k = k_stream k @ dead_suffix c"

definition dead_fields :: "stream_client \<Rightarrow> stream_message \<Rightarrow> fields" where
  "dead_fields k m =
     AList.update (DEAD_LETTER_PREFIX @ ''deliveries'') (decimal (nat (delivery_count m)))
     (AList.update (DEAD_LETTER_PREFIX @ ''consumer'') (utf8 (k_consumer k))
     (AList.update (DEAD_LETTER_PREFIX @ ''group'') (utf8 (k_group k))
     (AList.update (DEAD_LETTER_PREFIX @ ''id'') (entry_id_str (sm_id m))
     (AList.update (DEAD_LETTER_PREFIX @ ''stream'') (utf8 (sm_stream m)) (sm_fields m)))))"

text \<open>\<open>_dead_letter\<close>; with \<open>up\<close> false the server does not answer and \<open>publish\<close> raises a \<open>StreamError\<close>.\<close>

definition dead_letter :: "stream_config \<Rightarrow> seconds \<Rightarrow> bool \<Rightarrow> stream_client \<Rightarrow> stream_message \<Rightarrow> server \<Rightarrow> bool \<times> server" where
  "dead_letter c now up k m srv =
     (if \<not> up then (False, srv)
      else case client_publish now k (dead_fields k m) (Some (dead_letter_stream c k)) srv of
        (Inl e, srv1) \<Rightarrow> (False, srv1)
      | (Inr i, srv1) \<Rightarrow> (True, srv1))"

text \<open>
  The body of the loop over the batch. \<open>ok\<close> is whether the handler returns in time; it is not called
  for a message over its cap.
\<close>

definition cycle_handle ::
    "stream_config \<Rightarrow> seconds \<Rightarrow> bool \<Rightarrow> bool \<Rightarrow> stream_client \<Rightarrow> cycle \<Rightarrow> server \<Rightarrow> cycle \<times> server" where
  "cycle_handle c now up ok k cy srv =
     (case cy_batch cy of
        [] \<Rightarrow> (cy, srv)
      | m # ms \<Rightarrow>
          (let r = cy_result cy; cy1 = cy\<lparr>cy_batch := ms\<rparr> in
           if delivery_count m > max_deliveries c then
             (case dead_letter c now up k m srv of
                (True, srv1) \<Rightarrow>
                  (cy1\<lparr>cy_acked := cy_acked cy @ [sm_id m], cy_result := r\<lparr>n_dead_lettered := n_dead_lettered r + 1\<rparr>\<rparr>, srv1)
              | (False, srv1) \<Rightarrow> (cy1\<lparr>cy_result := r\<lparr>n_failed := n_failed r + 1\<rparr>\<rparr>, srv1))
           else if ok then
             (cy1\<lparr>cy_acked := cy_acked cy @ [sm_id m], cy_result := r\<lparr>n_delivered := n_delivered r + 1\<rparr>\<rparr>, srv)
           else (cy1\<lparr>cy_result := r\<lparr>n_failed := n_failed r + 1\<rparr>\<rparr>, srv)))"

text \<open>\<open>_ack\<close> and the end of the cycle: a \<open>StreamError\<close> of the acknowledgement is swallowed.\<close>

definition cycle_ack :: "bool \<Rightarrow> stream_client \<Rightarrow> cycle \<Rightarrow> server \<Rightarrow> stream_result \<times> server" where
  "cycle_ack up k cy srv =
     (if cy_acked cy = [] \<or> \<not> up then (cy_result cy, srv)
      else (cy_result cy, snd (client_ack (cy_acked cy) k srv)))"

fun handle_batch ::
    "stream_config \<Rightarrow> seconds \<Rightarrow> (stream_message \<Rightarrow> bool) \<Rightarrow> stream_client \<Rightarrow> nat \<Rightarrow> cycle \<Rightarrow> server \<Rightarrow> cycle \<times> server" where
  "handle_batch c now handler k 0 cy srv = (cy, srv)"
| "handle_batch c now handler k (Suc n) cy srv =
     (case cy_batch cy of
        [] \<Rightarrow> (cy, srv)
      | m # _ \<Rightarrow> (case cycle_handle c now True (handler m) k cy srv of (cy1, srv1) \<Rightarrow> handle_batch c now handler k n cy1 srv1))"

text \<open>\<open>consume_once\<close> with nobody else acting and one clock reading.\<close>

definition stream_consume_once ::
    "stream_config \<Rightarrow> seconds \<Rightarrow> (stream_message \<Rightarrow> bool) \<Rightarrow> stream_client \<Rightarrow> server \<Rightarrow> (stream_error + stream_result) \<times> server" where
  "stream_consume_once c now handler k srv =
     (case cycle_scan c now k srv of
        Inl e \<Rightarrow> (Inl e, srv)
      | Inr cy \<Rightarrow>
          (case cycle_claim c now k cy srv of
             (Inl e, srv1) \<Rightarrow> (Inl e, srv1)
           | (Inr cy1, srv1) \<Rightarrow>
               (case cycle_read c now k cy1 srv1 of
                  (Inl e, srv2) \<Rightarrow> (Inl e, srv2)
                | (Inr cy2, srv2) \<Rightarrow>
                    (case handle_batch c now handler k (length (cy_batch cy2)) cy2 srv2 of
                       (cy3, srv3) \<Rightarrow> (case cycle_ack True k cy3 srv3 of (r, srv4) \<Rightarrow> (Inr r, srv4))))))"

text \<open>One round of \<open>_loop\<close>: the number of consecutive failures and the wait.\<close>

definition stream_loop_round :: "stream_config \<Rightarrow> rat \<Rightarrow> int \<Rightarrow> stream_error + stream_result \<Rightarrow> int \<times> seconds option" where
  "stream_loop_round c u consecutive res =
     (case res of
        Inl _ \<Rightarrow>
          (consecutive + 1, Some (backoff_delay (consecutive + 1) (sc_base_delay c) (sc_max_delay c) (sc_jitter c) u))
      | Inr _ \<Rightarrow> (0, None))"

subsection \<open>Consumers together\<close>

text \<open>
  The consumers of group \<open>G\<close> on stream \<open>S\<close>. The last four components observe the run: which entries were
  appended while the group existed, for which the handler returned, which were copied to the
  dead-letter stream, and every call of the handler with the delivery count of its message.
\<close>

record stream_world =
  w_server :: server
  w_clients :: "nat \<Rightarrow> stream_client option"
  w_cycles :: "nat \<Rightarrow> cycle"
  w_owed :: "entry_id set"
  w_done :: "entry_id set"
  w_dead :: "entry_id set"
  w_calls :: "(entry_id \<times> int) list"

definition new_stream_world :: stream_world where
  "new_stream_world = \<lparr>w_server = Map.empty, w_clients = Map.empty, w_cycles = (\<lambda>_. idle_cycle), w_owed = {}, w_done = {},
     w_dead = {}, w_calls = []\<rparr>"

definition group_exists :: "string \<Rightarrow> string \<Rightarrow> server \<Rightarrow> bool" where
  "group_exists S G srv \<longleftrightarrow> sgroups (stream_for S srv) G \<noteq> None"

inductive stream_step :: "stream_config \<Rightarrow> string \<Rightarrow> string \<Rightarrow> stream_world \<Rightarrow> stream_world \<Rightarrow> bool" for c S G where
  append: "server_append now name f maxlen (w_server w) = (res, srv) \<Longrightarrow>
     stream_step c S G w (w\<lparr>w_server := srv,
       w_owed := (case res of Inr i \<Rightarrow> if name = S \<and> group_exists S G (w_server w) then insert i (w_owed w) else w_owed w
                  | Inl _ \<Rightarrow> w_owed w)\<rparr>)"
| delete: "stream_step c S G w (w\<lparr>w_server := snd (server_delete name i (w_server w))\<rparr>)"
| connect: "w_clients w m = None \<Longrightarrow> new_client S G consumer maxlen = Inr k \<Longrightarrow>
     stream_step c S G w (w\<lparr>w_clients := (w_clients w)(m \<mapsto> k), w_cycles := (w_cycles w)(m := idle_cycle)\<rparr>)"
| start: "w_clients w m = Some k \<Longrightarrow> client_start k (w_server w) = (k', srv) \<Longrightarrow>
     stream_step c S G w (w\<lparr>w_server := srv, w_clients := (w_clients w)(m \<mapsto> k')\<rparr>)"
| stop: "w_clients w m = Some k \<Longrightarrow>
     stream_step c S G w (w\<lparr>w_clients := (w_clients w)(m \<mapsto> client_stop k), w_cycles := (w_cycles w)(m := idle_cycle)\<rparr>)"
| crash: "stream_step c S G w (w\<lparr>w_cycles := (w_cycles w)(m := idle_cycle)\<rparr>)"
| scan: "w_clients w m = Some k \<Longrightarrow> cy_phase (w_cycles w m) = Idle \<Longrightarrow> cycle_scan c now k (w_server w) = Inr cy \<Longrightarrow>
     stream_step c S G w (w\<lparr>w_cycles := (w_cycles w)(m := cy)\<rparr>)"
| claim: "w_clients w m = Some k \<Longrightarrow> cy_phase (w_cycles w m) = Scanned \<Longrightarrow>
     cycle_claim c now k (w_cycles w m) (w_server w) = (Inr cy, srv) \<Longrightarrow>
     stream_step c S G w (w\<lparr>w_server := srv, w_cycles := (w_cycles w)(m := cy)\<rparr>)"
| read: "w_clients w m = Some k \<Longrightarrow> cy_phase (w_cycles w m) = Claimed \<Longrightarrow>
     cycle_read c now k (w_cycles w m) (w_server w) = (Inr cy, srv) \<Longrightarrow>
     stream_step c S G w (w\<lparr>w_server := srv, w_cycles := (w_cycles w)(m := cy)\<rparr>)"
| handle: "w_clients w m = Some k \<Longrightarrow> cy_phase (w_cycles w m) = Handling \<Longrightarrow> cy_batch (w_cycles w m) = msg # ms \<Longrightarrow>
     cycle_handle c now up ok k (w_cycles w m) (w_server w) = (cy, srv) \<Longrightarrow>
     stream_step c S G w (w\<lparr>w_server := srv, w_cycles := (w_cycles w)(m := cy),
       w_calls := (if delivery_count msg > max_deliveries c then w_calls w else w_calls w @ [(sm_id msg, delivery_count msg)]),
       w_done := (if \<not> delivery_count msg > max_deliveries c \<and> ok then insert (sm_id msg) (w_done w) else w_done w),
       w_dead := (if delivery_count msg > max_deliveries c \<and> fst (dead_letter c now up k msg (w_server w))
                  then insert (sm_id msg) (w_dead w) else w_dead w)\<rparr>)"
| ack: "w_clients w m = Some k \<Longrightarrow> cy_phase (w_cycles w m) = Handling \<Longrightarrow> cy_batch (w_cycles w m) = [] \<Longrightarrow>
     cycle_ack up k (w_cycles w m) (w_server w) = (r, srv) \<Longrightarrow>
     stream_step c S G w (w\<lparr>w_server := srv, w_cycles := (w_cycles w)(m := idle_cycle)\<rparr>)"

abbreviation stream_reachable :: "stream_config \<Rightarrow> string \<Rightarrow> string \<Rightarrow> stream_world \<Rightarrow> bool" where
  "stream_reachable c S G \<equiv> reach (\<lambda>w. w = new_stream_world) (stream_step c S G)"

section \<open>Lemmas\<close>

subsection \<open>Deliveries are counted\<close>

text \<open>
  A delivery is an entry with its count. It has been issued when the entry was read and, while the
  entry is pending, its count is not above the row's. Reading and claiming issue deliveries that were
  not issued before.
\<close>

definition issued :: "sgroup \<Rightarrow> entry_id \<times> int \<Rightarrow> bool" where
  "issued g x \<longleftrightarrow> (case x of (i, n) \<Rightarrow> i \<le> last_delivered g \<and> (\<forall>row. map_of (pel g) i = Some row \<longrightarrow> n \<le> row_count row))"

definition delivery :: "stream_message \<Rightarrow> entry_id \<times> int" where
  "delivery m = (sm_id m, delivery_count m)"

definition delivers :: "sgroup \<Rightarrow> (entry_id \<times> int) list \<Rightarrow> sgroup \<Rightarrow> bool" where
  "delivers g ds g' \<longleftrightarrow> (\<forall>x. issued g x \<longrightarrow> issued g' x) \<and> distinct ds \<and> (\<forall>x\<in>set ds. \<not> issued g x \<and> issued g' x \<and> 1 \<le> snd x)"

definition pel_ok :: "sgroup \<Rightarrow> bool" where
  "pel_ok g \<longleftrightarrow> (\<forall>i row. map_of (pel g) i = Some row \<longrightarrow> i \<le> last_delivered g \<and> 1 \<le> row_count row)"

lemma delivers_Nil: "delivers g [] g"
  by (simp add: delivers_def)

lemma delivers_mono: "(\<And>x. issued g x \<Longrightarrow> issued g1 x) \<Longrightarrow> delivers g1 ds g' \<Longrightarrow> delivers g ds g'"
  unfolding delivers_def by blast

lemma delivers_Cons:
  assumes "\<And>x. issued g x \<Longrightarrow> issued g1 x" "\<not> issued g x" "issued g1 x" "1 \<le> snd x" "delivers g1 ds g'"
  shows "delivers g (x # ds) g'"
proof -
  have "x \<notin> set ds" "issued g' x" using assms(3,5) unfolding delivers_def by blast+
  with assms show ?thesis unfolding delivers_def by auto
qed

lemma pel_okD: "pel_ok g \<Longrightarrow> map_of (pel g) i = Some row \<Longrightarrow> i \<le> last_delivered g \<and> 1 \<le> row_count row"
  by (simp add: pel_ok_def)

text \<open>Adding a row for the next entry, replacing a row by one with a larger count, and dropping a row.\<close>

lemma issue_new:
  assumes "pel_ok g" "last_delivered g < i" "row_count row = 1"
  defines "g1 \<equiv> g\<lparr>last_delivered := i, pel := AList.update i row (pel g)\<rparr>"
  shows "pel_ok g1" "issued g x \<Longrightarrow> issued g1 x" "\<not> issued g (i, 1)" "issued g1 (i, 1)"
  using assms by (fastforce simp: pel_ok_def issued_def update_conv' split: if_splits)+

lemma issue_again:
  assumes "pel_ok g" "map_of (pel g) i = Some row" "row_count row1 = row_count row + 1"
  defines "g1 \<equiv> g\<lparr>pel := AList.update i row1 (pel g)\<rparr>"
  shows "pel_ok g1" "issued g x \<Longrightarrow> issued g1 x" "\<not> issued g (i, row_count row + 1)" "issued g1 (i, row_count row + 1)"
  using assms by (fastforce simp: pel_ok_def issued_def update_conv' split: if_splits)+

lemma issue_drop:
  assumes "pel_ok g"
  shows "pel_ok (g\<lparr>pel := AList.delete i (pel g)\<rparr>)" "issued g x \<Longrightarrow> issued (g\<lparr>pel := AList.delete i (pel g)\<rparr>) x"
  using assms by (auto simp: pel_ok_def issued_def delete_conv' split: if_splits)

text \<open>
  Reading hands out the entries after the last delivered one in order, without a gap, and makes each
  of them pending.
\<close>

lemma read_from_spec:
  assumes "pel_ok g" "sorted (map fst es)" "distinct (map fst es)" "read_from name consumer now n es g = (ms, g')"
  shows "pel_ok g' \<and> delivers g (map delivery ms) g' \<and>
    last_delivered g \<le> last_delivered g' \<and> last_delivered g' \<in> insert (last_delivered g) (fst ` set es) \<and>
    (\<forall>i. map_of (pel g) i \<noteq> None \<longrightarrow> map_of (pel g') i \<noteq> None) \<and>
    (\<forall>i\<in>fst ` set es. last_delivered g < i \<and> i \<le> last_delivered g' \<longrightarrow> map_of (pel g') i \<noteq> None)"
  using assms
proof (induction es arbitrary: n g ms)
  case Nil
  then show ?case by (simp add: delivers_Nil)
next
  case (Cons e es)
  obtain i f where e: "e = (i, f)" by fastforce
  have later: "\<forall>j\<in>fst ` set es. i < j" using Cons.prems(2,3) e by (auto simp: less_le)
  show ?case
  proof (cases "i \<le> last_delivered g")
    case True
    with Cons.prems e have "read_from name consumer now n es g = (ms, g')" by simp
    from Cons.IH [OF Cons.prems(1) _ _ this] Cons.prems(2,3) True e show ?thesis by auto
  next
    case False
    define row where "row = \<lparr>row_consumer = consumer, delivered_at = now, row_count = 1\<rparr>"
    define g1 where "g1 = g\<lparr>last_delivered := i, pel := AList.update i row (pel g)\<rparr>"
    define m where "m = \<lparr>sm_stream = name, sm_id = i, sm_fields = f, delivery_count = 1, sm_claimed = False\<rparr>"
    have new: "pel_ok g1" "\<And>x. issued g x \<Longrightarrow> issued g1 x" "\<not> issued g (delivery m)" "issued g1 (delivery m)" "1 \<le> snd (delivery m)"
      using issue_new [OF Cons.prems(1), of i row] False by (auto simp: g1_def m_def delivery_def row_def)
    have g1: "last_delivered g1 = i" "map_of (pel g1) i \<noteq> None" "\<And>j. map_of (pel g) j \<noteq> None \<Longrightarrow> map_of (pel g1) j \<noteq> None"
      by (auto simp: g1_def update_conv')
    show ?thesis
    proof (cases "n \<le> 1")
      case True
      with Cons.prems(4) False e have "ms = [m]" "g' = g1" by (auto simp: g1_def m_def row_def Let_def)
      then show ?thesis
        using new g1 False e later delivers_Cons [OF new(2-5) delivers_Nil] by (auto simp: not_le)
    next
      case False': False
      then obtain ms1 where rest: "read_from name consumer now (n - 1) es g1 = (ms1, g')" "ms = m # ms1"
        using Cons.prems(4) False e by (auto simp: g1_def m_def row_def Let_def split: prod.splits)
      have "sorted (map fst es)" "distinct (map fst es)" using Cons.prems(2,3) by auto
      note ih = Cons.IH [OF new(1) this rest(1)]
      have "delivers g (map delivery ms) g'"
        using delivers_Cons [OF new(2-5)] ih rest(2) by simp
      moreover have "last_delivered g \<le> last_delivered g'" using ih g1(1) False by auto
      moreover have "map_of (pel g') i \<noteq> None" using ih g1(2) by blast
      ultimately show ?thesis using ih g1 e later by auto
    qed
  qed
qed

text \<open>Claiming delivers again what is pending, stalled and still in the stream; only vanished entries leave the list.\<close>

lemma claim_from_spec:
  assumes "pel_ok g" "claim_from name consumer now idle content ids g = (ms, missing, g')"
  shows "pel_ok g' \<and> delivers g (map delivery ms) g' \<and> last_delivered g' = last_delivered g \<and>
    (\<forall>i. map_of (pel g) i \<noteq> None \<longrightarrow> map_of (pel g') i \<noteq> None \<or> content i = None) \<and> length ms \<le> length ids"
  using assms
proof (induction ids arbitrary: g ms missing)
  case Nil
  then show ?case by (simp add: delivers_Nil)
next
  case (Cons i ids)
  show ?case
  proof (cases "\<exists>row. map_of (pel g) i = Some row \<and> \<not> now - delivered_at row < idle")
    case False
    then obtain missing1 where "claim_from name consumer now idle content ids g = (ms, missing1, g')"
      using Cons.prems(2) by (auto split: option.splits prod.splits if_splits)
    from Cons.IH [OF Cons.prems(1) this] show ?thesis by auto
  next
    case True
    then obtain row where row: "map_of (pel g) i = Some row" "\<not> now - delivered_at row < idle" by blast
    show ?thesis
    proof (cases "content i")
      case None
      with row Cons.prems(2) obtain missing1
        where "claim_from name consumer now idle content ids (g\<lparr>pel := AList.delete i (pel g)\<rparr>) = (ms, missing1, g')"
        by (auto split: prod.splits)
      note ih = Cons.IH [OF issue_drop(1) [OF Cons.prems(1)] this]
      have "delivers g (map delivery ms) g'" using delivers_mono [OF issue_drop(2) [OF Cons.prems(1)]] ih by blast
      moreover have "map_of (pel g') j \<noteq> None \<or> content j = None" if "map_of (pel g) j \<noteq> None" for j
        using ih that None by (cases "j = i") (simp_all add: delete_conv')
      ultimately show ?thesis using ih by auto
    next
      case (Some f)
      define row1 where "row1 = \<lparr>row_consumer = consumer, delivered_at = now, row_count = row_count row + 1\<rparr>"
      define g1 where "g1 = g\<lparr>pel := AList.update i row1 (pel g)\<rparr>"
      define m where "m = \<lparr>sm_stream = name, sm_id = i, sm_fields = f, delivery_count = row_count row + 1, sm_claimed = True\<rparr>"
      have new: "pel_ok g1" "\<And>x. issued g x \<Longrightarrow> issued g1 x" "\<not> issued g (delivery m)" "issued g1 (delivery m)" "1 \<le> snd (delivery m)"
        using issue_again [OF Cons.prems(1) row(1), of row1] pel_okD [OF Cons.prems(1) row(1)]
        by (auto simp: g1_def m_def delivery_def row1_def)
      obtain ms1 where rest: "claim_from name consumer now idle content ids g1 = (ms1, missing, g')" "ms = m # ms1"
        using Cons.prems(2) row Some by (auto simp: g1_def m_def row1_def Let_def split: prod.splits)
      note ih = Cons.IH [OF new(1) rest(1)]
      have "delivers g (map delivery ms) g'" using delivers_Cons [OF new(2-5)] ih rest(2) by simp
      moreover have "last_delivered g1 = last_delivered g" "\<And>j. map_of (pel g) j \<noteq> None \<Longrightarrow> map_of (pel g1) j \<noteq> None"
        by (auto simp: g1_def update_conv')
      ultimately show ?thesis using ih rest(2) by auto
    qed
  qed
qed

lemma ack_from_spec:
  assumes "pel_ok g" "ack_from ids g = (n, g')"
  shows "pel_ok g' \<and> delivers g [] g' \<and> last_delivered g' = last_delivered g \<and>
    (\<forall>i. map_of (pel g) i \<noteq> None \<longrightarrow> map_of (pel g') i \<noteq> None \<or> i \<in> set ids)"
  using assms
proof (induction ids arbitrary: g n)
  case Nil
  then show ?case by (simp add: delivers_Nil)
next
  case (Cons i ids)
  let ?g = "g\<lparr>pel := AList.delete i (pel g)\<rparr>"
  obtain n1 where "ack_from ids ?g = (n1, g')" using Cons.prems(2) by (auto split: prod.splits)
  note ih = Cons.IH [OF issue_drop(1) [OF Cons.prems(1)] this]
  have "delivers g [] g'" using delivers_mono [OF issue_drop(2) [OF Cons.prems(1)]] ih by blast
  moreover have "map_of (pel g') j \<noteq> None \<or> j \<in> set (i # ids)" if "map_of (pel g) j \<noteq> None" for j
    using ih that by (cases "j = i") (simp_all add: delete_conv')
  ultimately show ?case using ih by auto
qed

subsection \<open>The ledger of deliveries\<close>

text \<open>
  \<open>bs m\<close> are the deliveries in the hands of consumer \<open>m\<close>. No delivery is in two hands, none is both in hand
  and already handed to a handler, and every one was issued.
\<close>

definition ledger :: "int \<Rightarrow> sgroup \<Rightarrow> (nat \<Rightarrow> (entry_id \<times> int) list) \<Rightarrow> (entry_id \<times> int) list \<Rightarrow> bool" where
  "ledger cap g bs calls \<longleftrightarrow>
     (\<forall>m. distinct (bs m)) \<and> (\<forall>m x. x \<in> set (bs m) \<longrightarrow> x \<notin> set calls \<and> issued g x \<and> 1 \<le> snd x) \<and>
     (\<forall>m m' x. x \<in> set (bs m) \<longrightarrow> x \<in> set (bs m') \<longrightarrow> m = m') \<and>
     distinct calls \<and> (\<forall>x\<in>set calls. issued g x \<and> 1 \<le> snd x \<and> snd x \<le> cap)"

lemma ledger_refill:
  assumes l: "ledger cap g bs calls" and d: "delivers g ds g'"
  shows "ledger cap g' (bs(m := bs m @ ds)) calls"
proof -
  have fresh: "x \<notin> set (bs m')" "x \<notin> set calls" if "x \<in> set ds" for x m'
    using l d that unfolding ledger_def delivers_def by blast+
  show ?thesis
    using l d fresh unfolding ledger_def delivers_def by (auto split: if_splits)
qed

lemma ledger_mono: "ledger cap g bs calls \<Longrightarrow> delivers g [] g' \<Longrightarrow> ledger cap g' bs calls"
  unfolding ledger_def delivers_def by blast

lemma ledger_shrink:
  assumes "ledger cap g bs calls" "set ds \<subseteq> set (bs m)" "distinct ds"
  shows "ledger cap g (bs(m := ds)) calls"
proof -
  have "set ((bs(m := ds)) m') \<subseteq> set (bs m')" "distinct ((bs(m := ds)) m')" for m'
    using assms by (auto simp: ledger_def)
  then show ?thesis using assms(1) unfolding ledger_def by blast
qed

lemma ledger_note:
  assumes "ledger cap g bs calls" "\<And>m. x \<notin> set (bs m)" "x \<notin> set calls" "issued g x" "1 \<le> snd x" "snd x \<le> cap"
  shows "ledger cap g bs (calls @ [x])"
  using assms by (simp add: ledger_def) metis

lemma ledger_call:
  assumes l: "ledger cap g bs calls" and m: "bs m = x # xs" and cap: "snd x \<le> cap"
  shows "ledger cap g (bs(m := xs)) (calls @ [x])"
proof -
  have x: "x \<in> set (bs m)" "distinct (x # xs)" using l m unfolding ledger_def by (metis list.set_intros(1))+
  then have "x \<notin> set calls" "issued g x" "1 \<le> snd x" "\<And>m'. x \<in> set (bs m') \<Longrightarrow> m' = m"
    using l unfolding ledger_def by blast+
  moreover have "x \<notin> set ((bs(m := xs)) m')" for m' using calculation(4) x(2) by auto
  moreover have "ledger cap g (bs(m := xs)) calls" using ledger_shrink [OF l, of xs m] m x(2) by auto
  ultimately show ?thesis using cap by (intro ledger_note)
qed

text \<open>A handler is called at most \<open>cap\<close> times for one entry.\<close>

lemma ledger_calls:
  assumes "ledger cap g bs calls" "0 \<le> cap"
  shows "int (length (filter (\<lambda>(j, _). j = i) calls)) \<le> cap"
proof -
  let ?xs = "filter (\<lambda>(j, _). j = i) calls"
  have d: "distinct ?xs" and r: "\<forall>x\<in>set ?xs. fst x = i \<and> 1 \<le> snd x \<and> snd x \<le> cap"
    using assms(1) by (auto simp: ledger_def)
  have "inj_on snd (set ?xs)" using r by (auto simp: inj_on_def)
  then have "length ?xs = card (snd ` set ?xs)" using distinct_card [OF d] by (simp add: card_image)
  also have "\<dots> \<le> card {1..cap}" using r by (intro card_mono) auto
  finally show ?thesis using assms(2) by simp
qed

subsection \<open>The stream and its group\<close>

definition the_group :: "string \<Rightarrow> string \<Rightarrow> server \<Rightarrow> sgroup" where
  "the_group S G srv =
     (let s = stream_for S srv in case sgroups s G of Some g \<Rightarrow> g | None \<Rightarrow> \<lparr>last_delivered = last_id s, pel = []\<rparr>)"

definition entry_ids :: "stream \<Rightarrow> entry_id set" where
  "entry_ids s = fst ` set (stream_entries s)"

text \<open>An entry that the group owes is unread, pending, dealt with, or no longer in the stream.\<close>

definition covered :: "stream \<Rightarrow> sgroup \<Rightarrow> entry_id set \<Rightarrow> entry_id \<Rightarrow> bool" where
  "covered s g settled i \<longleftrightarrow> i \<le> last_id s \<and>
     (last_delivered g < i \<or> map_of (pel g) i \<noteq> None \<or> i \<in> settled \<or> i \<notin> entry_ids s)"

definition store_ok :: "string \<Rightarrow> string \<Rightarrow> server \<Rightarrow> entry_id set \<Rightarrow> entry_id set \<Rightarrow> bool" where
  "store_ok S G srv owed settled \<longleftrightarrow>
     (let s = stream_for S srv; g = the_group S G srv in
      distinct (map fst (stream_entries s)) \<and> (\<forall>i\<in>entry_ids s. i \<le> last_id s) \<and>
      last_delivered g \<le> last_id s \<and> pel_ok g \<and> (\<forall>i\<in>owed. covered s g settled i) \<and> (\<not> group_exists S G srv \<longrightarrow> owed = {}))"

lemma store_okD:
  assumes "store_ok S G srv owed settled"
  shows "distinct (map fst (stream_entries (stream_for S srv)))" "i \<in> entry_ids (stream_for S srv) \<Longrightarrow> i \<le> last_id (stream_for S srv)"
    "last_delivered (the_group S G srv) \<le> last_id (stream_for S srv)" "pel_ok (the_group S G srv)"
    "i \<in> owed \<Longrightarrow> covered (stream_for S srv) (the_group S G srv) settled i" "\<not> group_exists S G srv \<Longrightarrow> owed = {}"
  using assms by (auto simp: store_ok_def Let_def)

lemma store_okI:
  assumes "distinct (map fst (stream_entries (stream_for S srv)))" "\<And>i. i \<in> entry_ids (stream_for S srv) \<Longrightarrow> i \<le> last_id (stream_for S srv)"
    "last_delivered (the_group S G srv) \<le> last_id (stream_for S srv)" "pel_ok (the_group S G srv)"
    "\<And>i. i \<in> owed \<Longrightarrow> covered (stream_for S srv) (the_group S G srv) settled i" "\<not> group_exists S G srv \<Longrightarrow> owed = {}"
  shows "store_ok S G srv owed settled"
  using assms by (auto simp: store_ok_def Let_def)

lemma store_ok_settle: "store_ok S G srv owed settled \<Longrightarrow> settled \<subseteq> settled' \<Longrightarrow> store_ok S G srv owed settled'"
  by (auto simp: store_ok_def covered_def Let_def)

lemma stream_for_upd: "stream_for S (srv(name \<mapsto> s)) = (if name = S then s else stream_for S srv)"
  by (simp add: stream_for_def)

lemma the_group_Some: "sgroups (stream_for S srv) G = Some g \<Longrightarrow> the_group S G srv = g"
  by (simp add: the_group_def Let_def)

lemma next_id_larger: "last_id s < next_id now s"
  by (auto simp: next_id_def less_entry_id_def Let_def)

lemma trim_spec:
  "last_id (trim n s) = last_id s" "sgroups (trim n s) = sgroups s" "set (stream_entries (trim n s)) \<subseteq> set (stream_entries s)"
  "distinct (map fst (stream_entries s)) \<Longrightarrow> distinct (map fst (stream_entries (trim n s)))"
  by (auto simp: trim_def Let_def distinct_map_filter)

text \<open>Appending: the new identifier is larger than all others, so the group has not read it.\<close>

lemma append_spec:
  assumes "server_append now name f maxlen srv = (Inr i, srv')"
  shows "\<exists>s'. srv' = srv(name \<mapsto> s') \<and> last_id s' = i \<and> last_id (stream_for name srv) < i \<and>
    sgroups s' = sgroups (stream_for name srv) \<and> entry_ids s' \<subseteq> insert i (entry_ids (stream_for name srv)) \<and>
    (distinct (map fst (stream_entries (stream_for name srv))) \<longrightarrow> distinct (map fst (stream_entries s')))"
proof -
  let ?s = "stream_for name srv"
  let ?s1 = "?s\<lparr>stream_entries := AList.update (next_id now ?s) f (stream_entries ?s), last_id := next_id now ?s\<rparr>"
  let ?s2 = "if maxlen \<noteq> 0 then trim maxlen ?s1 else ?s1"
  have srv': "srv' = srv(name \<mapsto> ?s2)" "i = next_id now ?s"
    using assms by (auto simp: server_append_def Let_def split: option.splits)
  have "entry_ids ?s1 \<subseteq> insert i (entry_ids ?s)" by (simp add: entry_ids_def dom_update srv'(2))
  moreover have "entry_ids ?s2 \<subseteq> entry_ids ?s1" using trim_spec(3) [of maxlen ?s1] by (auto simp: entry_ids_def)
  ultimately show ?thesis
    using srv' next_id_larger [of ?s now] trim_spec(1,2) [of maxlen ?s1] trim_spec(4) [of ?s1 maxlen]
    by (intro exI [of _ ?s2]) (auto simp: distinct_update)
qed

lemma append_error: "server_append now name f maxlen srv = (Inl e, srv') \<Longrightarrow> srv' = srv"
  by (auto simp: server_append_def Let_def split: option.splits)

lemma store_ok_append:
  assumes ok: "store_ok S G srv owed settled" and a: "server_append now name f maxlen srv = (res, srv')"
  shows "store_ok S G srv'
      (case res of Inr i \<Rightarrow> if name = S \<and> group_exists S G srv then insert i owed else owed | Inl _ \<Rightarrow> owed) settled \<and>
    delivers (the_group S G srv) [] (the_group S G srv')"
proof (cases res)
  case (Inl e)
  with a append_error have "srv' = srv" by simp
  with ok Inl show ?thesis by (simp add: delivers_Nil)
next
  case (Inr i)
  with a append_spec obtain s' where s': "srv' = srv(name \<mapsto> s')" "last_id s' = i" "last_id (stream_for name srv) < i"
      "sgroups s' = sgroups (stream_for name srv)" "entry_ids s' \<subseteq> insert i (entry_ids (stream_for name srv))"
      "distinct (map fst (stream_entries (stream_for name srv))) \<Longrightarrow> distinct (map fst (stream_entries s'))"
    by blast
  show ?thesis
  proof (cases "name = S")
    case False
    with s'(1) have same: "stream_for S srv' = stream_for S srv" by (simp add: stream_for_upd)
    then have "the_group S G srv' = the_group S G srv" "group_exists S G srv' = group_exists S G srv"
      by (simp_all add: the_group_def group_exists_def)
    with ok False Inr same show ?thesis by (simp add: store_ok_def delivers_Nil)
  next
    case True
    note k = store_okD [OF ok]
    have s: "stream_for S srv' = s'" using s'(1) True by (simp add: stream_for_upd)
    have ex: "group_exists S G srv' = group_exists S G srv" using s s'(4) True by (simp add: group_exists_def)
    let ?g = "the_group S G srv" and ?g' = "the_group S G srv'"
    have g': "pel ?g' = pel ?g" "last_delivered ?g \<le> last_delivered ?g'" "last_delivered ?g' \<le> i" "group_exists S G srv \<Longrightarrow> ?g' = ?g"
      using k(3) s s'(2-4) True by (auto simp: the_group_def group_exists_def Let_def split: option.split)
    have d: "delivers ?g [] ?g'" using g'(1,2) by (auto simp: delivers_def issued_def)
    have pok: "pel_ok ?g'" using k(4) g'(1,2) by (fastforce simp: pel_ok_def)
    have new: "covered s' ?g' settled j" if "j = i" "group_exists S G srv" for j
      using that g' k(3) s'(2,3) True by (auto simp: covered_def)
    have old: "covered s' ?g' settled j" if "j \<in> owed" for j
    proof -
      have "group_exists S G srv" using k(6) that by blast
      then have "?g' = ?g" by (rule g'(4))
      with k(5) [OF that] s'(2,3,5) True show ?thesis by (auto simp: covered_def)
    qed
    have "store_ok S G srv' (if group_exists S G srv then insert i owed else owed) settled"
    proof (rule store_okI)
      show "j \<le> last_id (stream_for S srv')" if "j \<in> entry_ids (stream_for S srv')" for j
        using that k(2) [of j] s s'(2,3,5) True by fastforce
      show "covered (stream_for S srv') ?g' settled j" if "j \<in> (if group_exists S G srv then insert i owed else owed)" for j
        using that new old s by (auto split: if_splits)
    qed (use k(1,6) s s'(2,6) True g'(3) pok ex in auto)
    with d True Inr show ?thesis by simp
  qed
qed

text \<open>Deleting an entry and starting a client do not change what the group owes.\<close>

lemma store_ok_delete:
  assumes ok: "store_ok S G srv owed settled"
  shows "store_ok S G (snd (server_delete name i srv)) owed settled"
    "the_group S G (snd (server_delete name i srv)) = the_group S G srv"
proof -
  let ?srv = "snd (server_delete name i srv)"
  have s: "stream_for S ?srv = (if name = S then (stream_for S srv)\<lparr>stream_entries := AList.delete i (stream_entries (stream_for S srv))\<rparr>
      else stream_for S srv)"
    by (simp add: server_delete_def stream_for_upd Let_def)
  show g: "the_group S G ?srv = the_group S G srv" by (simp add: the_group_def s Let_def split: option.split)
  have ids: "entry_ids (stream_for S ?srv) \<subseteq> entry_ids (stream_for S srv)"
    using dom_delete_subset [of i "stream_entries (stream_for S srv)"] by (auto simp: s entry_ids_def)
  have "distinct (map fst (stream_entries (stream_for S ?srv)))"
    using store_okD(1) [OF ok] by (simp add: s distinct_delete)
  moreover have "last_id (stream_for S ?srv) = last_id (stream_for S srv)" "group_exists S G ?srv = group_exists S G srv"
    by (simp_all add: s group_exists_def)
  ultimately show "store_ok S G ?srv owed settled"
    using store_okD [OF ok] ids by (intro store_okI) (auto simp: g covered_def)
qed

lemma store_ok_start:
  assumes ok: "store_ok S G srv owed settled" and k: "k_stream k = S" "k_group k = G"
  shows "store_ok S G (snd (client_start k srv)) owed settled" "the_group S G (snd (client_start k srv)) = the_group S G srv"
proof -
  let ?srv = "snd (client_start k srv)" and ?s = "stream_for S srv"
  have s: "stream_for S ?srv = (if sgroups ?s G = None then ?s\<lparr>sgroups := (sgroups ?s)(G \<mapsto> \<lparr>last_delivered = last_id ?s, pel = []\<rparr>)\<rparr> else ?s)"
    using k by (simp add: client_start_def stream_for_upd Let_def)
  show g: "the_group S G ?srv = the_group S G srv" by (simp add: the_group_def s Let_def split: option.split)
  have "entry_ids (stream_for S ?srv) = entry_ids ?s" "last_id (stream_for S ?srv) = last_id ?s"
    "stream_entries (stream_for S ?srv) = stream_entries ?s" "group_exists S G ?srv"
    by (auto simp: s entry_ids_def group_exists_def)
  then show "store_ok S G ?srv owed settled"
    using store_okD [OF ok] by (intro store_okI) (auto simp: g covered_def)
qed

text \<open>Replacing the group by one that covers what the old one covered.\<close>

lemma store_ok_group:
  assumes ok: "store_ok S G srv owed settled" and k: "k_stream k = S" "k_group k = G" and "group_exists S G srv"
    and g': "pel_ok g'" "last_delivered g' \<le> last_id (stream_for S srv)"
    and cov: "\<And>i. i \<in> entry_ids (stream_for S srv) \<Longrightarrow> covered (stream_for S srv) (the_group S G srv) settled i \<Longrightarrow>
      covered (stream_for S srv) g' settled i"
  shows "store_ok S G (set_sgroup k g' srv) owed settled" "the_group S G (set_sgroup k g' srv) = g'"
proof -
  let ?s = "stream_for S srv"
  have s: "stream_for S (set_sgroup k g' srv) = ?s\<lparr>sgroups := (sgroups ?s)(G \<mapsto> g')\<rparr>"
    using k by (simp add: set_sgroup_def stream_for_upd Let_def)
  show g: "the_group S G (set_sgroup k g' srv) = g'" by (simp add: the_group_def s)
  have "covered (?s\<lparr>sgroups := (sgroups ?s)(G \<mapsto> g')\<rparr>) g' settled i" if "i \<in> owed" for i
    using cov [of i] store_okD(5) [OF ok that] by (cases "i \<in> entry_ids ?s") (auto simp: covered_def entry_ids_def)
  then show "store_ok S G (set_sgroup k g' srv) owed settled"
    using store_okD(1,2) [OF ok] g' by (intro store_okI) (auto simp: s g entry_ids_def group_exists_def)
qed

lemma require_startedD:
  assumes "require_started k srv = Inr g" "k_stream k = S" "k_group k = G"
  shows "group_exists S G srv" "the_group S G srv = g"
  using assms by (auto simp: require_started_def group_exists_def the_group_def Let_def split: if_splits option.splits)

lemma sorted_entries_spec:
  "sorted (map fst (sorted_entries s))" "distinct (map fst (stream_entries s)) \<Longrightarrow> distinct (map fst (sorted_entries s))"
  "fst ` set (sorted_entries s) = entry_ids s"
  by (simp_all add: sorted_entries_def entry_ids_def distinct_map)

lemma store_ok_read:
  assumes ok: "store_ok S G srv owed settled" and k: "k_stream k = S" "k_group k = G"
    and r: "client_read now cnt k srv = (Inr ms, srv')"
  shows "store_ok S G srv' owed settled \<and> delivers (the_group S G srv) (map delivery ms) (the_group S G srv')"
proof -
  let ?s = "stream_for S srv"
  from r k obtain g g' where g: "require_started k srv = Inr g"
      "read_from (k_stream k) (k_consumer k) now (nat cnt) (sorted_entries ?s) g = (ms, g')" "srv' = set_sgroup k g' srv"
    by (auto simp: client_read_def split: if_splits sum.splits prod.splits)
  note started = require_startedD [OF g(1) k] and st = store_okD [OF ok]
  note spec = read_from_spec [OF st(4) [unfolded started(2)] sorted_entries_spec(1) sorted_entries_spec(2) [OF st(1)] g(2), unfolded sorted_entries_spec(3)]
  have facts: "pel_ok g'" "last_delivered g' \<le> last_id ?s" using spec st(2,3) started(2) by auto
  have cov: "covered ?s g' settled i" if "i \<in> entry_ids ?s" "covered ?s (the_group S G srv) settled i" for i
    using that spec unfolding covered_def started(2) by (meson not_le)
  from store_ok_group [OF ok k started(1) facts cov] spec started(2) g(3) show ?thesis by simp
qed

lemma store_ok_claim:
  assumes ok: "store_ok S G srv owed settled" and k: "k_stream k = S" "k_group k = G"
    and r: "client_claim now idle es k srv = (Inr (ms, missing), srv')"
  shows "store_ok S G srv' owed settled \<and> delivers (the_group S G srv) (map delivery ms) (the_group S G srv') \<and> length ms \<le> length es"
proof (cases "es = []")
  case True
  with r ok show ?thesis by (auto simp: client_claim_def delivers_Nil split: sum.splits)
next
  case False
  let ?s = "stream_for S srv"
  from r k False obtain g g' where g: "require_started k srv = Inr g"
      "claim_from (k_stream k) (k_consumer k) now idle (map_of (stream_entries ?s)) (map pe_id es) g = (ms, missing, g')"
      "srv' = set_sgroup k g' srv"
    by (auto simp: client_claim_def split: if_splits sum.splits prod.splits)
  note started = require_startedD [OF g(1) k] and st = store_okD [OF ok]
  note spec = claim_from_spec [OF st(4) [unfolded started(2)] g(2)]
  have facts: "pel_ok g'" "last_delivered g' \<le> last_id ?s" using spec st(3) started(2) by auto
  have cov: "covered ?s g' settled i" if "i \<in> entry_ids ?s" "covered ?s (the_group S G srv) settled i" for i
  proof -
    have "map_of (stream_entries ?s) i \<noteq> None" using that(1) by (simp add: entry_ids_def map_of_eq_None_iff)
    then show ?thesis using that(2) spec unfolding covered_def started(2) by auto
  qed
  from store_ok_group [OF ok k started(1) facts cov] spec started(2) g(3) show ?thesis by simp
qed

lemma store_ok_ack:
  assumes ok: "store_ok S G srv owed settled" and k: "k_stream k = S" "k_group k = G" and "set ids \<subseteq> settled"
    and r: "client_ack ids k srv = (res, srv')"
  shows "store_ok S G srv' owed settled \<and> delivers (the_group S G srv) [] (the_group S G srv')"
proof (cases "srv' = srv")
  case True
  with ok show ?thesis by (simp add: delivers_Nil)
next
  case False
  with r k obtain g g' n where g: "require_started k srv = Inr g" "ack_from ids g = (n, g')" "srv' = set_sgroup k g' srv"
    by (auto simp: client_ack_def split: if_splits sum.splits prod.splits)
  note started = require_startedD [OF g(1) k] and st = store_okD [OF ok]
  note spec = ack_from_spec [OF st(4) [unfolded started(2)] g(2)]
  have facts: "pel_ok g'" "last_delivered g' \<le> last_id (stream_for S srv)" using spec st(3) started(2) by auto
  have cov: "covered (stream_for S srv) g' settled i"
    if "i \<in> entry_ids (stream_for S srv)" "covered (stream_for S srv) (the_group S G srv) settled i" for i
    using that spec assms(4) unfolding covered_def started(2) by auto
  from store_ok_group [OF ok k started(1) facts cov] spec started(2) g(3) show ?thesis by simp
qed

subsection \<open>Every step keeps the invariant\<close>

definition batches :: "(nat \<Rightarrow> cycle) \<Rightarrow> nat \<Rightarrow> (entry_id \<times> int) list" where
  "batches cys m = map delivery (cy_batch (cys m))"

definition cycles_ok :: "stream_config \<Rightarrow> string \<Rightarrow> string \<Rightarrow> server \<Rightarrow> (nat \<Rightarrow> cycle) \<Rightarrow> (entry_id \<times> int) list \<Rightarrow> entry_id set \<Rightarrow> bool" where
  "cycles_ok c S G srv cys calls settled \<longleftrightarrow>
     ledger (max_deliveries c) (the_group S G srv) (batches cys) calls \<and> (\<forall>m. set (cy_acked (cys m)) \<subseteq> settled)"

definition clients_ok :: "string \<Rightarrow> string \<Rightarrow> (nat \<Rightarrow> stream_client option) \<Rightarrow> bool" where
  "clients_ok S G ks \<longleftrightarrow> (\<forall>m k. ks m = Some k \<longrightarrow> k_stream k = S \<and> k_group k = G)"

definition stream_world_ok :: "stream_config \<Rightarrow> string \<Rightarrow> string \<Rightarrow> stream_world \<Rightarrow> bool" where
  "stream_world_ok c S G w \<longleftrightarrow> clients_ok S G (w_clients w) \<and>
     store_ok S G (w_server w) (w_owed w) (w_done w \<union> w_dead w) \<and>
     cycles_ok c S G (w_server w) (w_cycles w) (w_calls w) (w_done w \<union> w_dead w)"

lemma batches_upd: "batches (cys(m := cy)) = (batches cys)(m := map delivery (cy_batch cy))"
  by (auto simp: batches_def)

lemma cycles_ok_mono:
  "cycles_ok c S G srv cys calls settled \<Longrightarrow> delivers (the_group S G srv) [] (the_group S G srv') \<Longrightarrow> cycles_ok c S G srv' cys calls settled"
  by (auto simp: cycles_ok_def intro: ledger_mono)

text \<open>A cycle that holds fewer deliveries, or the same ones and new ones.\<close>

lemma cycles_ok_shrink:
  assumes "cycles_ok c S G srv cys calls settled" "set (cy_batch cy) \<subseteq> set (cy_batch (cys m))" "distinct (map delivery (cy_batch cy))"
    and "settled \<subseteq> settled'" "set (cy_acked cy) \<subseteq> settled'"
  shows "cycles_ok c S G srv (cys(m := cy)) calls settled'"
proof -
  have "set (map delivery (cy_batch cy)) \<subseteq> set (batches cys m)" using assms(2) by (auto simp: batches_def)
  with assms(1,3) have "ledger (max_deliveries c) (the_group S G srv) (batches (cys(m := cy))) calls"
    unfolding cycles_ok_def batches_upd by (blast intro: ledger_shrink)
  moreover have "set (cy_acked ((cys(m := cy)) m')) \<subseteq> settled'" for m'
    using assms(1,4,5) unfolding cycles_ok_def by (cases "m' = m") auto
  ultimately show ?thesis by (simp add: cycles_ok_def)
qed

lemma cycles_ok_idle: "cycles_ok c S G srv cys calls settled \<Longrightarrow> cycles_ok c S G srv (cys(m := idle_cycle)) calls settled"
  by (rule cycles_ok_shrink) (auto simp: idle_cycle_def)

lemma cycles_ok_refill:
  assumes "cycles_ok c S G srv cys calls settled" "delivers (the_group S G srv) (map delivery ms) (the_group S G srv')"
    and "cy_batch cy = cy_batch (cys m) @ ms" "cy_acked cy = cy_acked (cys m)"
  shows "cycles_ok c S G srv' (cys(m := cy)) calls settled"
proof -
  have "batches (cys(m := cy)) = (batches cys)(m := batches cys m @ map delivery ms)"
    using assms(3) by (simp add: batches_upd) (simp add: batches_def)
  with assms ledger_refill show ?thesis by (auto simp: cycles_ok_def)
qed

lemma cycles_ok_distinct: "cycles_ok c S G srv cys calls settled \<Longrightarrow> distinct (map delivery (cy_batch (cys m)))"
  by (auto simp: cycles_ok_def ledger_def batches_def)

lemma handle_spec:
  assumes h: "cycle_handle c now up ok k cy srv = (cy', srv')" and b: "cy_batch cy = msg # ms"
  shows "cy_batch cy' = ms"
    "\<not> delivery_count msg > max_deliveries c \<Longrightarrow> srv' = srv \<and> cy_acked cy' = (if ok then cy_acked cy @ [sm_id msg] else cy_acked cy)"
    "delivery_count msg > max_deliveries c \<Longrightarrow> dead_letter c now up k msg srv = (fst (dead_letter c now up k msg srv), srv') \<and>
       cy_acked cy' = (if fst (dead_letter c now up k msg srv) then cy_acked cy @ [sm_id msg] else cy_acked cy)"
  using assms by (auto simp: cycle_handle_def Let_def split: if_splits prod.splits bool.splits)

lemma store_ok_dead_letter:
  assumes ok: "store_ok S G srv owed settled" and c: "stream_config_ok c" and k: "k_stream k = S"
    and d: "dead_letter c now up k msg srv = (b, srv')"
  shows "store_ok S G srv' owed settled \<and> delivers (the_group S G srv) [] (the_group S G srv')"
proof (cases up)
  case False
  with d ok show ?thesis by (auto simp: dead_letter_def delivers_Nil)
next
  case True
  let ?name = "dead_letter_stream c k"
  have "?name \<noteq> S" using c k by (auto simp: dead_letter_stream_def stream_config_error_def split: if_splits)
  moreover obtain res where a: "server_append now ?name (dead_fields k msg) (k_maxlen k) srv = (res, srv')"
    using d True by (auto simp: dead_letter_def client_publish_def split: prod.splits sum.splits)
  ultimately show ?thesis using store_ok_append [OF ok a] by (auto split: sum.splits)
qed

lemma cycles_ok_handle:
  assumes st: "store_ok S G srv owed (dn \<union> dd)" and cy: "cycles_ok c S G srv cys calls (dn \<union> dd)"
    and c: "stream_config_ok c" and k: "k_stream k = S" and b: "cy_batch (cys m) = msg # ms"
    and h: "cycle_handle c now up ok k (cys m) srv = (cy', srv')"
  defines "over \<equiv> delivery_count msg > max_deliveries c"
  defines "dn' \<equiv> if \<not> over \<and> ok then insert (sm_id msg) dn else dn"
    and "dd' \<equiv> if over \<and> fst (dead_letter c now up k msg srv) then insert (sm_id msg) dd else dd"
  shows "store_ok S G srv' owed (dn' \<union> dd')"
    "cycles_ok c S G srv' (cys(m := cy')) (if over then calls else calls @ [(sm_id msg, delivery_count msg)]) (dn' \<union> dd')"
proof -
  note spec = handle_spec [OF h b]
  have grow: "dn \<union> dd \<subseteq> dn' \<union> dd'" by (auto simp: dn'_def dd'_def)
  have acked: "set (cy_acked cy') \<subseteq> dn' \<union> dd'"
  proof -
    have "set (cy_acked (cys m)) \<subseteq> dn \<union> dd" using cy by (simp add: cycles_ok_def)
    then show ?thesis using grow spec(2,3) by (cases over) (auto simp: over_def dn'_def dd'_def split: if_splits)
  qed
  have dist: "distinct (map delivery ms)" using cycles_ok_distinct [OF cy, of m] b by simp
  have srv': "store_ok S G srv' owed (dn \<union> dd) \<and> delivers (the_group S G srv) [] (the_group S G srv')"
  proof (cases over)
    case True
    with spec(3) store_ok_dead_letter [OF st c k] show ?thesis unfolding over_def by blast
  next
    case False
    with spec(2) st show ?thesis by (simp add: over_def delivers_Nil)
  qed
  with grow store_ok_settle show "store_ok S G srv' owed (dn' \<union> dd')" by blast
  have cy1: "cycles_ok c S G srv' (cys(m := cy')) calls (dn' \<union> dd')"
    by (rule cycles_ok_shrink [OF cycles_ok_mono [OF cy] _ _ grow acked]) (use srv' spec(1) b dist in auto)
  show "cycles_ok c S G srv' (cys(m := cy')) (if over then calls else calls @ [(sm_id msg, delivery_count msg)]) (dn' \<union> dd')"
  proof (cases over)
    case False
    have "ledger (max_deliveries c) (the_group S G srv') ((batches cys)(m := map delivery ms)) (calls @ [delivery msg])"
    proof (rule ledger_call)
      show "ledger (max_deliveries c) (the_group S G srv') (batches cys) calls"
        using cycles_ok_mono [OF cy] srv' by (auto simp: cycles_ok_def)
      show "batches cys m = delivery msg # map delivery ms" using b by (simp add: batches_def)
    qed (use False in \<open>simp add: over_def delivery_def\<close>)
    with False cy1 spec(1) show ?thesis by (simp add: cycles_ok_def batches_upd delivery_def)
  qed (use cy1 in simp)
qed

lemma stream_world_ok_refill:
  assumes w: "stream_world_ok c S G w" and cy: "cy_batch cy = held @ ms" "cy_acked cy = cy_acked (w_cycles w m)"
    and held: "held = [] \<or> held = cy_batch (w_cycles w m)"
    and srv: "store_ok S G srv (w_owed w) (w_done w \<union> w_dead w)" "delivers (the_group S G (w_server w)) (map delivery ms) (the_group S G srv)"
  shows "stream_world_ok c S G (w\<lparr>w_server := srv, w_cycles := (w_cycles w)(m := cy)\<rparr>)"
proof -
  let ?cy0 = "(w_cycles w m)\<lparr>cy_batch := held\<rparr>"
  from w have ok: "cycles_ok c S G (w_server w) (w_cycles w) (w_calls w) (w_done w \<union> w_dead w)" by (simp add: stream_world_ok_def)
  have "distinct (map delivery held)" using held cycles_ok_distinct [OF ok, of m] by auto
  moreover have "set (cy_acked ?cy0) \<subseteq> w_done w \<union> w_dead w" using ok by (simp add: cycles_ok_def)
  ultimately have "cycles_ok c S G (w_server w) ((w_cycles w)(m := ?cy0)) (w_calls w) (w_done w \<union> w_dead w)"
    using held by (intro cycles_ok_shrink [OF ok]) auto
  from cycles_ok_refill [OF this srv(2), of cy m] cy w srv(1) show ?thesis by (simp add: stream_world_ok_def)
qed

lemma stream_world_ok_claim:
  assumes w: "stream_world_ok c S G w" and m: "w_clients w m = Some k"
    and cl: "cycle_claim c now k (w_cycles w m) (w_server w) = (Inr cy, srv)"
  shows "stream_world_ok c S G (w\<lparr>w_server := srv, w_cycles := (w_cycles w)(m := cy)\<rparr>)"
proof (cases "cy_scanned (w_cycles w m) = []")
  case True
  with cl have "srv = w_server w" "cy = (w_cycles w m)\<lparr>cy_phase := Claimed\<rparr>" by (auto simp: cycle_claim_def)
  with w show ?thesis
    by (intro stream_world_ok_refill [where held = "cy_batch (w_cycles w m)" and ms = "[]"]) (simp_all add: stream_world_ok_def delivers_Nil)
next
  case False
  then obtain ms missing where ms: "client_claim now (min_idle_time c) (cy_scanned (w_cycles w m)) k (w_server w) = (Inr (ms, missing), srv)"
      "cy_batch cy = ms" "cy_acked cy = cy_acked (w_cycles w m)"
    using cl by (auto simp: cycle_claim_def split: prod.splits sum.splits)
  have k: "k_stream k = S" "k_group k = G" and st: "store_ok S G (w_server w) (w_owed w) (w_done w \<union> w_dead w)"
    using w m(1) by (auto simp: stream_world_ok_def clients_ok_def)
  with store_ok_claim [OF st k ms(1)] ms show ?thesis
    by (intro stream_world_ok_refill [OF w, where held = "[]" and ms = ms]) simp_all
qed

lemma stream_world_ok_read:
  assumes w: "stream_world_ok c S G w" and m: "w_clients w m = Some k"
    and cl: "cycle_read c now k (w_cycles w m) (w_server w) = (Inr cy, srv)"
  shows "stream_world_ok c S G (w\<lparr>w_server := srv, w_cycles := (w_cycles w)(m := cy)\<rparr>)"
proof (cases "batch_size c - int (length (cy_batch (w_cycles w m))) > 0")
  case True
  then obtain ms where ms: "client_read now (batch_size c - int (length (cy_batch (w_cycles w m)))) k (w_server w) = (Inr ms, srv)"
      "cy_batch cy = cy_batch (w_cycles w m) @ ms" "cy_acked cy = cy_acked (w_cycles w m)"
    using cl by (auto simp: cycle_read_def Let_def split: prod.splits sum.splits)
  have k: "k_stream k = S" "k_group k = G" and st: "store_ok S G (w_server w) (w_owed w) (w_done w \<union> w_dead w)"
    using w m(1) by (auto simp: stream_world_ok_def clients_ok_def)
  with store_ok_read [OF st k ms(1)] ms show ?thesis by (intro stream_world_ok_refill [OF w ms(2,3)]) simp_all
next
  case False
  with cl have "srv = w_server w" "cy = (w_cycles w m)\<lparr>cy_phase := Handling\<rparr>" by (auto simp: cycle_read_def Let_def)
  with w show ?thesis
    by (intro stream_world_ok_refill [where held = "cy_batch (w_cycles w m)" and ms = "[]"]) (simp_all add: stream_world_ok_def delivers_Nil)
qed

lemma stream_world_ok_ack:
  assumes w: "stream_world_ok c S G w" and m: "w_clients w m = Some k" and a: "cycle_ack up k (w_cycles w m) (w_server w) = (r, srv)"
  shows "stream_world_ok c S G (w\<lparr>w_server := srv, w_cycles := (w_cycles w)(m := idle_cycle)\<rparr>)"
proof -
  have k: "k_stream k = S" "k_group k = G" and st: "store_ok S G (w_server w) (w_owed w) (w_done w \<union> w_dead w)"
    and cy: "cycles_ok c S G (w_server w) (w_cycles w) (w_calls w) (w_done w \<union> w_dead w)"
    using w m(1) by (auto simp: stream_world_ok_def clients_ok_def)
  have sub: "set (cy_acked (w_cycles w m)) \<subseteq> w_done w \<union> w_dead w" using cy by (simp add: cycles_ok_def)
  have "store_ok S G srv (w_owed w) (w_done w \<union> w_dead w) \<and> delivers (the_group S G (w_server w)) [] (the_group S G srv)"
  proof (cases "cy_acked (w_cycles w m) = [] \<or> \<not> up")
    case True
    with a have "srv = w_server w" by (auto simp: cycle_ack_def)
    with st show ?thesis by (simp add: delivers_Nil)
  next
    case False
    then have "client_ack (cy_acked (w_cycles w m)) k (w_server w) = (fst (client_ack (cy_acked (w_cycles w m)) k (w_server w)), srv)"
      using a by (auto simp: cycle_ack_def)
    then show ?thesis by (rule store_ok_ack [OF st k sub])
  qed
  with cycles_ok_idle [OF cycles_ok_mono [OF cy]] w show ?thesis by (simp add: stream_world_ok_def)
qed

lemma stream_world_ok_init: "stream_world_ok c S G new_stream_world"
  by (simp add: stream_world_ok_def new_stream_world_def clients_ok_def cycles_ok_def store_ok_def ledger_def batches_def idle_cycle_def
      stream_for_def new_stream_def the_group_def entry_ids_def pel_ok_def)

lemma stream_world_ok_step:
  assumes "stream_step c S G w w'" and c: "stream_config_ok c" and "stream_world_ok c S G w"
  shows "stream_world_ok c S G w'"
  using assms(1,3)
proof induction
  case (append now name f maxlen w res srv)
  then have st: "store_ok S G (w_server w) (w_owed w) (w_done w \<union> w_dead w)" by (simp add: stream_world_ok_def)
  from store_ok_append [OF st append(1)] append(2) show ?case by (auto simp: stream_world_ok_def intro: cycles_ok_mono)
next
  case (delete w name i)
  then have st: "store_ok S G (w_server w) (w_owed w) (w_done w \<union> w_dead w)" by (simp add: stream_world_ok_def)
  from store_ok_delete [OF st] delete show ?case by (simp add: stream_world_ok_def cycles_ok_def)
next
  case (connect w m consumer maxlen k)
  then have "k_stream k = S" "k_group k = G" by (auto simp: new_client_def split: if_splits)
  with connect show ?case by (simp add: stream_world_ok_def clients_ok_def cycles_ok_idle)
next
  case (start w m k k' srv)
  then have st: "store_ok S G (w_server w) (w_owed w) (w_done w \<union> w_dead w)" and k: "k_stream k = S" "k_group k = G"
    by (auto simp: stream_world_ok_def clients_ok_def)
  have "k_stream k' = S" "k_group k' = G" using start(2) k by (auto simp: client_start_def Let_def split: if_splits)
  with store_ok_start [OF st k] start show ?case by (simp add: stream_world_ok_def clients_ok_def cycles_ok_def)
next
  case (stop w m k)
  then show ?case by (simp add: stream_world_ok_def clients_ok_def client_stop_def cycles_ok_idle)
next
  case (crash w m)
  then show ?case by (simp add: stream_world_ok_def cycles_ok_idle)
next
  case (scan w m k now cy)
  then have cy: "cy_batch cy = []" "cy_acked cy = []" by (auto simp: cycle_scan_def idle_cycle_def split: sum.splits)
  from scan have "cycles_ok c S G (w_server w) ((w_cycles w)(m := cy)) (w_calls w) (w_done w \<union> w_dead w)"
    by (intro cycles_ok_shrink [where settled = "w_done w \<union> w_dead w"]) (simp_all add: stream_world_ok_def cy)
  with scan show ?case by (simp add: stream_world_ok_def)
next
  case (handle w m k msg ms now up ok cy srv)
  then have k: "k_stream k = S" and st: "store_ok S G (w_server w) (w_owed w) (w_done w \<union> w_dead w)"
    and cy: "cycles_ok c S G (w_server w) (w_cycles w) (w_calls w) (w_done w \<union> w_dead w)"
    by (auto simp: stream_world_ok_def clients_ok_def)
  from cycles_ok_handle [OF st cy c k handle(3,4)] handle(5) show ?case by (simp add: stream_world_ok_def)
qed (auto intro: stream_world_ok_claim stream_world_ok_read stream_world_ok_ack)

interpretation streams: transitions "\<lambda>w. w = new_stream_world" "stream_step c S G"
    "\<lambda>w. stream_config_ok c \<longrightarrow> stream_world_ok c S G w" for c S G
  by unfold_locales (auto intro: stream_world_ok_init stream_world_ok_step)

subsection \<open>An example\<close>

text \<open>One started consumer, a configuration with a small batch, and a server where two entries were read long ago.\<close>

definition example_config :: stream_config where
  "example_config = default_stream_config\<lparr>batch_size := 1, claim_batch := 2\<rparr>"

definition example_client :: stream_client where
  "example_client = \<lparr>k_stream = ''s'', k_group = ''g'', k_consumer = ''me'', k_maxlen = 0, k_started = True\<rparr>"

definition two_stalled :: server where
  "two_stalled =
     (let srv1 = snd (client_start example_client Map.empty);
          srv2 = snd (server_append 1 ''s'' [(''f'', ''a'')] 0 srv1);
          srv3 = snd (server_append 2 ''s'' [(''f'', ''b'')] 0 srv2) in
      snd (client_read 3 10 example_client srv3))"

definition one_entry :: server where
  "one_entry = snd (server_append 1 ''s'' [(''f'', ''a'')] 0 (snd (client_start example_client Map.empty)))"

definition one_read :: server where
  "one_read = snd (client_read 2 1 example_client one_entry)"

definition first_message :: stream_message where
  "first_message = \<lparr>sm_stream = ''s'', sm_id = EntryId 1000 0, sm_fields = [(''f'', ''a'')], delivery_count = 1, sm_claimed = False\<rparr>"

text \<open>The world after the only consumer failed on the first entry.\<close>

lemma failed_once:
  "\<exists>w. stream_reachable example_config ''s'' ''g'' w \<and> w_server w = one_read \<and> w_owed w = {sm_id first_message} \<and>
     w_calls w = [(sm_id first_message, 1)] \<and> w_done w = {} \<and> w_dead w = {}"
proof -
  let ?k = "client_stop example_client" and ?step = "stream_step example_config ''s'' ''g''"
  let ?srv0 = "snd (client_start example_client Map.empty)"
  let ?w1 = "new_stream_world\<lparr>w_clients := [0 \<mapsto> ?k]\<rparr>"
  let ?w2 = "?w1\<lparr>w_server := ?srv0, w_clients := [0 \<mapsto> example_client]\<rparr>"
  let ?w3 = "?w2\<lparr>w_server := one_entry, w_owed := {sm_id first_message}\<rparr>"
  let ?cy1 = "idle_cycle\<lparr>cy_phase := Scanned\<rparr>"
  let ?cy2 = "idle_cycle\<lparr>cy_phase := Claimed\<rparr>"
  let ?cy3 = "idle_cycle\<lparr>cy_phase := Handling, cy_batch := [first_message], cy_result := no_result\<lparr>n_read := 1\<rparr>\<rparr>"
  let ?cy4 = "?cy3\<lparr>cy_batch := [], cy_result := no_result\<lparr>n_read := 1, n_failed := 1\<rparr>\<rparr>"
  let ?w4 = "?w3\<lparr>w_cycles := (\<lambda>_. idle_cycle)(0 := ?cy1)\<rparr>"
  let ?w5 = "?w3\<lparr>w_cycles := (\<lambda>_. idle_cycle)(0 := ?cy2)\<rparr>"
  let ?w6 = "?w3\<lparr>w_server := one_read, w_cycles := (\<lambda>_. idle_cycle)(0 := ?cy3)\<rparr>"
  let ?w7 = "?w6\<lparr>w_cycles := (\<lambda>_. idle_cycle)(0 := ?cy4), w_calls := [(sm_id first_message, 1)]\<rparr>"
  have 1: "?step new_stream_world ?w1"
    using stream_step.connect [of new_stream_world 0 "''s''" "''g''" "''me''" 0 ?k example_config]
    by (simp add: new_stream_world_def new_client_def example_client_def client_stop_def fun_upd_idem)
  have 2: "?step ?w1 ?w2"
    using stream_step.start [of ?w1 0 ?k example_client ?srv0 example_config "''s''" "''g''"]
    by (simp add: new_stream_world_def example_client_def client_stop_def client_start_def Let_def)
  have app: "server_append 1 ''s'' [(''f'', ''a'')] 0 ?srv0 = (Inr (sm_id first_message), one_entry)"
    unfolding one_entry_def by (rule prod_eqI) (simp_all only: fst_conv snd_conv, code_simp)
  have grp: "group_exists ''s'' ''g'' ?srv0"
    by (simp add: group_exists_def client_start_def example_client_def stream_for_def new_stream_def Let_def)
  have 3: "?step ?w2 ?w3"
    using stream_step.append [of 1 "''s''" "[(''f'', ''a'')]" 0 ?w2 "Inr (sm_id first_message)" one_entry example_config "''s''" "''g''"] app grp
    by (simp add: new_stream_world_def)
  have "cycle_scan example_config 2 example_client one_entry = Inr ?cy1" by code_simp
  then have 4: "?step ?w3 ?w4"
    using stream_step.scan [of ?w3 0 example_client example_config 2 ?cy1 "''s''" "''g''"] by (simp add: new_stream_world_def idle_cycle_def)
  have 5: "?step ?w4 ?w5"
    using stream_step.claim [of ?w4 0 example_client example_config 2 ?cy2 one_entry "''s''" "''g''"]
    by (simp add: new_stream_world_def idle_cycle_def cycle_claim_def)
  have "client_read 2 1 example_client one_entry = (Inr [first_message], one_read)"
    unfolding one_read_def by (rule prod_eqI) (simp_all only: fst_conv snd_conv, code_simp)
  then have "cycle_read example_config 2 example_client ?cy2 one_entry = (Inr ?cy3, one_read)"
    by (simp add: cycle_read_def idle_cycle_def example_config_def no_result_def)
  then have 6: "?step ?w5 ?w6"
    using stream_step.read [of ?w5 0 example_client example_config 2 ?cy3 one_read "''s''" "''g''"] by (simp add: new_stream_world_def idle_cycle_def)
  have 7: "?step ?w6 ?w7"
    using stream_step.handle [of ?w6 0 example_client first_message "[]" example_config 3 True False ?cy4 one_read "''s''" "''g''"]
    by (simp add: new_stream_world_def idle_cycle_def cycle_handle_def first_message_def example_config_def default_stream_config_def no_result_def)
  have 0: "stream_reachable example_config ''s'' ''g'' new_stream_world" by (rule reach_init) (rule refl)
  note go = reach_step [of "\<lambda>w. w = new_stream_world" "stream_step example_config ''s'' ''g''"]
  note r = go [OF go [OF go [OF go [OF go [OF go [OF go [OF 0 1] 2] 3] 4] 5] 6] 7]
  show ?thesis by (rule exI [of _ ?w7]) (intro conjI r, simp_all add: new_stream_world_def)
qed

lemma example_config_ok: "stream_config_ok example_config"
  by (simp add: stream_config_error_def example_config_def default_stream_config_def)

section \<open>Properties\<close>

text \<open>
  C6: no message is lost. However the consumers of a group crash, stall, claim each other's messages
  and lose their acknowledgements, an entry that was appended after the group was made and is still in
  the stream has not been read yet, or is pending, or was handled, or is in the dead-letter stream.
\<close>

theorem stream_message_never_lost:
  assumes "stream_config_ok c" "stream_reachable c S G w" "i \<in> w_owed w" "i \<in> fst ` set (stream_entries (stream_for S (w_server w)))"
  shows "\<exists>g. sgroups (stream_for S (w_server w)) G = Some g \<and>
    (last_delivered g < i \<or> map_of (pel g) i \<noteq> None \<or> i \<in> w_done w \<or> i \<in> w_dead w)"
proof -
  have "stream_world_ok c S G w" using streams.reach_ok [OF assms(2)] assms(1) by simp
  then have st: "store_ok S G (w_server w) (w_owed w) (w_done w \<union> w_dead w)" by (simp add: stream_world_ok_def)
  then have "group_exists S G (w_server w)" using store_okD(6) assms(3) by blast
  then obtain g where g: "sgroups (stream_for S (w_server w)) G = Some g" by (auto simp: group_exists_def)
  with store_okD(5) [OF st assms(3)] assms(4) the_group_Some [OF g] show ?thesis
    by (auto simp: covered_def entry_ids_def)
qed

theorem stream_message_never_lost_witness:
  "\<exists>w. stream_reachable example_config ''s'' ''g'' w \<and> sm_id first_message \<in> w_owed w \<and>
     sm_id first_message \<notin> w_done w \<union> w_dead w \<and>
     (\<exists>g. sgroups (stream_for ''s'' (w_server w)) ''g'' = Some g \<and>
       (last_delivered g < sm_id first_message \<or> map_of (pel g) (sm_id first_message) \<noteq> None))"
proof -
  obtain w where w: "stream_reachable example_config ''s'' ''g'' w" "w_server w = one_read" "w_owed w = {sm_id first_message}"
      "w_done w = {}" "w_dead w = {}"
    using failed_once by blast
  have "sm_id first_message \<in> fst ` set (stream_entries (stream_for ''s'' one_read))" by code_simp
  with stream_message_never_lost [OF example_config_ok w(1), of "sm_id first_message"] w show ?thesis by auto
qed

text \<open>
  C37: the handler is called at most \<open>max_deliveries\<close> times for an entry, by all consumers of the group
  together.
\<close>

theorem handler_calls_bounded:
  assumes "stream_config_ok c" "stream_reachable c S G w"
  shows "int (length (filter (\<lambda>(j, _). j = i) (w_calls w))) \<le> max_deliveries c"
proof -
  have "stream_world_ok c S G w" using streams.reach_ok [OF assms(2)] assms(1) by simp
  then have "ledger (max_deliveries c) (the_group S G (w_server w)) (batches (w_cycles w)) (w_calls w)"
    by (simp add: stream_world_ok_def cycles_ok_def)
  moreover have "0 \<le> max_deliveries c" using assms(1) by (auto simp: stream_config_error_def split: if_splits)
  ultimately show ?thesis by (rule ledger_calls)
qed

theorem handler_calls_bounded_witness:
  "\<exists>w. stream_reachable example_config ''s'' ''g'' w \<and> w_calls w = [(sm_id first_message, 1)] \<and>
     int (length (filter (\<lambda>(j, _). j = sm_id first_message) (w_calls w))) \<le> max_deliveries example_config"
  using failed_once handler_calls_bounded [OF example_config_ok] by blast

text \<open>
  a cycle may handle more messages than \<open>batch_size\<close>. Claims are limited by \<open>claim_batch\<close> alone,
  which nothing keeps below \<open>batch_size\<close>.
\<close>

theorem cycle_may_exceed_batch_size:
  "stream_config_ok example_config \<and> batch_size example_config = 1 \<and>
   map_sum id (\<lambda>r. (n_claimed r, result_handled r)) (fst (stream_consume_once example_config 100 (\<lambda>_. True) example_client two_stalled)) =
     Inr (2, 2)"
  by code_simp

end
