(* ===== verification/Py_Json.thy ===== *)
theory Py_Json
  imports Py_Text "HOL-Library.AList"
begin

text \<open>
  JSON values as Python's \<open>json\<close> module reads and writes them, and floats where infinities matter.
  The text syntax itself is not modelled: components that read or write JSON text take the reader or
  the writer as an argument. What is modelled is which values \<open>json.dumps(..., allow_nan=False)\<close>
  refuses and what \<open>json.loads\<close> may end with.
\<close>

section \<open>Floats\<close>

datatype pyfloat = Fin rat | PInf | NInf | NaN

fun finite_float :: "pyfloat \<Rightarrow> bool" where
  "finite_float (Fin _) = True"
| "finite_float _ = False"

text \<open>\<open>round(x, 3)\<close>: to the nearest multiple of a thousandth, ties to the even one.\<close>

definition round_even :: "rat \<Rightarrow> int" where
  "round_even x =
     (let f = \<lfloor>x\<rfloor>; d = x - of_int f in
      if d < 1 / 2 then f else if 1 / 2 < d then f + 1 else if even f then f else f + 1)"

fun round3 :: "pyfloat \<Rightarrow> pyfloat" where
  "round3 (Fin x) = Fin (of_int (round_even (1000 * x)) / 1000)"
| "round3 x = x"

lemma finite_round3 [simp]: "finite_float (round3 x) = finite_float x"
  by (cases x) simp_all

lemma round_even_close: "\<bar>x - of_int (round_even x)\<bar> \<le> 1 / 2"
proof -
  have "of_int \<lfloor>x\<rfloor> \<le> x" "x < of_int \<lfloor>x\<rfloor> + 1" by linarith+
  then show ?thesis by (simp add: round_even_def Let_def abs_le_iff)
qed

section \<open>Values\<close>

text \<open>An object is a dict: its keys are distinct and in order of insertion.\<close>

datatype json = JNull | JBool bool | JInt int | JFloat pyfloat | JStr string | JList "json list" | JObj "(string \<times> json) list"

text \<open>\<open>type(value).__name__\<close>.\<close>

fun type_name :: "json \<Rightarrow> string" where
  "type_name JNull = ''NoneType''"
| "type_name (JBool _) = ''bool''"
| "type_name (JInt _) = ''int''"
| "type_name (JFloat _) = ''float''"
| "type_name (JStr _) = ''str''"
| "type_name (JList _) = ''list''"
| "type_name (JObj _) = ''dict''"

text \<open>What \<open>json.dumps(value, allow_nan=False)\<close> accepts.\<close>

fun finite_json :: "json \<Rightarrow> bool" where
  "finite_json (JFloat x) = finite_float x"
| "finite_json (JList vs) = list_all finite_json vs"
| "finite_json (JObj kvs) = list_all (\<lambda>kv. finite_json (snd kv)) kvs"
| "finite_json _ = True"

text \<open>
  How \<open>json.loads\<close> ends: with a value, with the constant that \<open>parse_constant\<close> was called for, with a
  \<open>ValueError\<close> and its message, or, on input nested too deeply, with a \<open>RecursionError\<close>.
\<close>

datatype loaded = Loaded json | ConstantRead string | LoadsValueError string | LoadsRecursionError

end
