(* ===== verification/Ws_Limits.thy ===== *)
theory Ws_Limits
  imports Py_Prelude Py_Json
begin

text \<open>
  The inbound budget of a WebSocket connection (\<open>ws/ratelimit.py\<close>): a token bucket, and the limiter
  that charges one bucket for messages and one for bytes. A method reads the clock as often as the code
  does; every reading is an argument. The lemmas bound what a bucket gives out over any stretch of
  time and show that the limiter spends from both buckets or from none.
\<close>

section \<open>Definitions\<close>

record bucket =
  capacity :: rat
  rate :: rat
  tokens :: rat
  updated :: seconds

definition new_bucket :: "rat \<Rightarrow> rat \<Rightarrow> seconds \<Rightarrow> bucket option" where
  "new_bucket cap r now =
     (if cap \<le> 0 then None else if r \<le> 0 then None
      else Some \<lparr>capacity = cap, rate = r, tokens = cap, updated = now\<rparr>)"

definition refill :: "seconds \<Rightarrow> bucket \<Rightarrow> bucket" where
  "refill now b =
     (let elapsed = max 0 (now - updated b); b1 = b\<lparr>updated := now\<rparr> in
      if elapsed \<noteq> 0 then b1\<lparr>tokens := min (capacity b) (tokens b + elapsed * rate b)\<rparr> else b1)"

definition bucket_tokens :: "seconds \<Rightarrow> bucket \<Rightarrow> rat \<times> bucket" where
  "bucket_tokens now b = (let b1 = refill now b in (tokens b1, b1))"

definition bucket_take :: "seconds \<Rightarrow> rat \<Rightarrow> bucket \<Rightarrow> bool \<times> bucket" where
  "bucket_take now cost b =
     (let b1 = refill now b in
      if cost > tokens b1 then (False, b1) else (True, b1\<lparr>tokens := tokens b1 - cost\<rparr>))"

definition retry_after :: "seconds \<Rightarrow> rat \<Rightarrow> bucket \<Rightarrow> pyfloat \<times> bucket" where
  "retry_after now cost b =
     (if cost > capacity b then (PInf, b)
      else
        (let b1 = refill now b in
         if cost \<le> tokens b1 then (Fin 0, b1) else (Fin ((cost - tokens b1) / rate b1), b1)))"

record decision =
  allowed :: bool
  wait :: pyfloat
  disconnect :: bool

record limiter =
  messages :: bucket
  volume :: bucket
  max_violations :: int
  violations :: int

definition new_limiter :: "rat \<Rightarrow> int \<Rightarrow> rat \<Rightarrow> int \<Rightarrow> int \<Rightarrow> seconds \<Rightarrow> seconds \<Rightarrow> limiter option" where
  "new_limiter messages_per_second message_burst bytes_per_second byte_burst max_consecutive now1 now2 =
     (if max_consecutive < 1 then None
      else case new_bucket (of_int message_burst) messages_per_second now1 of
        None \<Rightarrow> None
      | Some ms \<Rightarrow>
          (case new_bucket (of_int byte_burst) bytes_per_second now2 of
             None \<Rightarrow> None
           | Some bs \<Rightarrow> Some \<lparr>messages = ms, volume = bs, max_violations = max_consecutive, violations = 0\<rparr>))"

definition byte_capacity :: "limiter \<Rightarrow> rat" where
  "byte_capacity l = capacity (volume l)"

text \<open>\<open>max\<close> of two waits, neither of which is negative or not a number.\<close>

fun longer_wait :: "pyfloat \<Rightarrow> pyfloat \<Rightarrow> pyfloat" where
  "longer_wait (Fin x) (Fin y) = Fin (max x y)"
| "longer_wait _ _ = PInf"

fun positive_wait :: "pyfloat \<Rightarrow> bool" where
  "positive_wait (Fin x) = (x > 0)"
| "positive_wait w = (w = PInf)"

text \<open>The clock is read by each of the four calls of \<open>offer\<close>.\<close>

record clock4 =
  at1 :: seconds
  at2 :: seconds
  at3 :: seconds
  at4 :: seconds

definition limiter_offer :: "clock4 \<Rightarrow> int \<Rightarrow> limiter \<Rightarrow> decision \<times> limiter" where
  "limiter_offer t size_bytes l =
     (let (w1, ms1) = retry_after (at1 t) 1 (messages l);
          (w2, bs1) = retry_after (at2 t) (of_int size_bytes) (volume l);
          w = longer_wait w1 w2 in
      if positive_wait w then
        (let n = violations l + 1 in
         (\<lparr>allowed = False, wait = w, disconnect = n \<ge> max_violations l\<rparr>,
          l\<lparr>messages := ms1, volume := bs1, violations := n\<rparr>))
      else
        (\<lparr>allowed = True, wait = Fin 0, disconnect = False\<rparr>,
         l\<lparr>messages := snd (bucket_take (at3 t) 1 ms1), volume := snd (bucket_take (at4 t) (of_int size_bytes) bs1),
           violations := 0\<rparr>))"

text \<open>A run of offers, and what was admitted of it: the times of the last clock reading and the sizes.\<close>

fun offers :: "(clock4 \<times> int) list \<Rightarrow> limiter \<Rightarrow> (clock4 \<times> int) list \<times> limiter" where
  "offers [] l = ([], l)"
| "offers ((t, n) # ms) l =
     (let (d, l1) = limiter_offer t n l; (adm, l2) = offers ms l1 in
      (if allowed d then (t, n) # adm else adm, l2))"

section \<open>Lemmas\<close>

subsection \<open>One bucket\<close>

definition bucket_ok :: "bucket \<Rightarrow> bool" where
  "bucket_ok b \<longleftrightarrow> 0 < rate b \<and> 0 < capacity b \<and> 0 \<le> tokens b \<and> tokens b \<le> capacity b"

lemma refill_fields [simp]: "rate (refill now b) = rate b" "capacity (refill now b) = capacity b" "updated (refill now b) = now"
    "bucket.more (refill now b) = bucket.more b"
  by (simp_all add: refill_def Let_def)

lemma refill_tokens:
  assumes "bucket_ok b" "updated b \<le> now"
  shows "tokens (refill now b) = min (capacity b) (tokens b + (now - updated b) * rate b)"
  using assms by (auto simp: refill_def Let_def bucket_ok_def max_def min_def)

lemma refill_ok [simp]: "bucket_ok b \<Longrightarrow> bucket_ok (refill now b)"
  by (auto simp: refill_def Let_def bucket_ok_def max_def)

lemma refill_refill:
  assumes "bucket_ok b" "updated b \<le> now" "now \<le> later"
  shows "refill later (refill now b) = refill later b"
proof -
  have r: "0 \<le> (later - now) * rate b" using assms by (simp add: bucket_ok_def)
  have m: "min c (min c x + z) = min c (x + z)" if "0 \<le> z" for c x z :: rat using that by (simp add: min_def)
  have d: "tokens b + (now - updated b) * rate b + (later - now) * rate b = tokens b + (later - updated b) * rate b"
    by (simp add: algebra_simps)
  have "tokens (refill later (refill now b)) = min (capacity b) (min (capacity b) (tokens b + (now - updated b) * rate b) + (later - now) * rate b)"
    using assms by (simp add: refill_tokens)
  also have "\<dots> = min (capacity b) (tokens b + (later - updated b) * rate b)"
    by (simp only: m [OF r] d)
  also have "\<dots> = tokens (refill later b)" using assms by (simp add: refill_tokens)
  finally show ?thesis by (intro bucket.equality) simp_all
qed

text \<open>
  The credit of a bucket at a time: what it holds and what it will have gained. Refilling never raises
  it, and taking lowers it by the cost.
\<close>

definition credit :: "seconds \<Rightarrow> bucket \<Rightarrow> rat" where
  "credit T b = tokens b + (T - updated b) * rate b"

lemma credit_refill: "bucket_ok b \<Longrightarrow> updated b \<le> now \<Longrightarrow> credit T (refill now b) \<le> credit T b"
proof -
  assume "bucket_ok b" "updated b \<le> now"
  then have "tokens (refill now b) \<le> tokens b + (now - updated b) * rate b" by (simp add: refill_tokens)
  moreover have "(now - updated b) * rate b + (T - now) * rate b = (T - updated b) * rate b" by (simp add: algebra_simps)
  ultimately show ?thesis by (simp add: credit_def)
qed

lemma credit_le: "bucket_ok b \<Longrightarrow> credit T b \<le> capacity b + (T - updated b) * rate b"
  by (simp add: credit_def bucket_ok_def)

lemma tokens_le_credit: "bucket_ok b \<Longrightarrow> updated b \<le> T \<Longrightarrow> 0 \<le> credit T b"
  by (simp add: credit_def bucket_ok_def)

lemma retry_after_spec:
  assumes "bucket_ok b" "retry_after now cost b = (w, b')"
  shows "b' = (if cost > capacity b then b else refill now b)"
    "\<not> positive_wait w \<longleftrightarrow> cost \<le> capacity b \<and> cost \<le> tokens (refill now b)"
    "w = PInf \<or> (\<exists>x\<ge>0. w = Fin x)" "w = PInf \<longleftrightarrow> cost > capacity b"
  using assms by (auto simp: retry_after_def Let_def bucket_ok_def divide_nonneg_pos split: if_splits)

text \<open>A message that was affordable at one reading is affordable at every later one.\<close>

lemma refill_later: "bucket_ok b \<Longrightarrow> updated b \<le> now \<Longrightarrow> tokens b \<le> tokens (refill now b)"
  by (simp add: refill_tokens bucket_ok_def)

lemma take_after:
  assumes "bucket_ok b" "updated b \<le> now" "now \<le> later" "0 \<le> cost" "cost \<le> tokens (refill now b)"
  shows "bucket_take later cost (refill now b) = (True, (refill later b)\<lparr>tokens := tokens (refill later b) - cost\<rparr>)"
  using assms refill_later [of "refill now b" later] by (simp add: bucket_take_def Let_def refill_refill)

lemma take_ok: "bucket_ok b \<Longrightarrow> 0 \<le> cost \<Longrightarrow> cost \<le> tokens b \<Longrightarrow> bucket_ok (b\<lparr>tokens := tokens b - cost\<rparr>)"
  by (simp add: bucket_ok_def)

subsection \<open>Both buckets\<close>

definition limiter_ok :: "limiter \<Rightarrow> bool" where
  "limiter_ok l \<longleftrightarrow> bucket_ok (messages l) \<and> bucket_ok (volume l)"

text \<open>Readings in order, none before the limiter's last one.\<close>

definition ticks :: "clock4 \<Rightarrow> limiter \<Rightarrow> bool" where
  "ticks t l \<longleftrightarrow> updated (messages l) \<le> at1 t \<and> updated (volume l) \<le> at1 t \<and> at1 t \<le> at2 t \<and> at2 t \<le> at3 t \<and> at3 t \<le> at4 t"

text \<open>What one offer does: the message fits both buckets and both are charged, or neither is.\<close>

lemma offer_admits:
  assumes l: "limiter_ok l" and t: "ticks t l" and n: "0 \<le> n" and o: "limiter_offer t n l = (d, l')"
  shows "allowed d \<longleftrightarrow> 1 \<le> tokens (refill (at1 t) (messages l)) \<and> of_int n \<le> tokens (refill (at2 t) (volume l))"
    and "allowed d \<Longrightarrow> messages l' = (refill (at3 t) (messages l))\<lparr>tokens := tokens (refill (at3 t) (messages l)) - 1\<rparr> \<and>
      volume l' = (refill (at4 t) (volume l))\<lparr>tokens := tokens (refill (at4 t) (volume l)) - of_int n\<rparr> \<and> violations l' = 0"
    and "\<not> allowed d \<Longrightarrow> messages l' \<in> {messages l, refill (at1 t) (messages l)} \<and>
      volume l' \<in> {volume l, refill (at2 t) (volume l)} \<and> violations l' = violations l + 1 \<and> positive_wait (wait d) \<and>
      disconnect d = (violations l + 1 \<ge> max_violations l)"
    and "max_violations l' = max_violations l"
proof -
  have ok: "bucket_ok (messages l)" "bucket_ok (volume l)" using l by (simp_all add: limiter_ok_def)
  obtain w1 ms1 where r1: "retry_after (at1 t) 1 (messages l) = (w1, ms1)" by fastforce
  obtain w2 bs1 where r2: "retry_after (at2 t) (of_int n) (volume l) = (w2, bs1)" by fastforce
  note s1 = retry_after_spec [OF ok(1) r1] and s2 = retry_after_spec [OF ok(2) r2]
  have pw: "positive_wait (longer_wait w1 w2) \<longleftrightarrow> positive_wait w1 \<or> positive_wait w2"
    using s1(3) s2(3) by auto
  have cap: "tokens (refill (at1 t) (messages l)) \<le> capacity (messages l)" "tokens (refill (at2 t) (volume l)) \<le> capacity (volume l)"
    using refill_ok [OF ok(1)] refill_ok [OF ok(2)] by (simp_all add: bucket_ok_def)
  show "allowed d \<longleftrightarrow> 1 \<le> tokens (refill (at1 t) (messages l)) \<and> of_int n \<le> tokens (refill (at2 t) (volume l))"
    using o pw s1(2) s2(2) cap by (auto simp: limiter_offer_def r1 r2 Let_def split: if_splits)
  show "messages l' = (refill (at3 t) (messages l))\<lparr>tokens := tokens (refill (at3 t) (messages l)) - 1\<rparr> \<and>
      volume l' = (refill (at4 t) (volume l))\<lparr>tokens := tokens (refill (at4 t) (volume l)) - of_int n\<rparr> \<and> violations l' = 0"
    if "allowed d"
  proof -
    have np: "\<not> positive_wait w1" "\<not> positive_wait w2" using o pw that by (auto simp: limiter_offer_def r1 r2 Let_def split: if_splits)
    then have b: "ms1 = refill (at1 t) (messages l)" "bs1 = refill (at2 t) (volume l)" using s1 s2 by auto
    have "bucket_take (at3 t) 1 ms1 = (True, (refill (at3 t) (messages l))\<lparr>tokens := tokens (refill (at3 t) (messages l)) - 1\<rparr>)"
      unfolding b using ok t np s1(2) by (intro take_after) (auto simp: ticks_def)
    moreover have "bucket_take (at4 t) (of_int n) bs1 =
        (True, (refill (at4 t) (volume l))\<lparr>tokens := tokens (refill (at4 t) (volume l)) - of_int n\<rparr>)"
      unfolding b using ok t n np s2(2) by (intro take_after) (auto simp: ticks_def)
    ultimately show ?thesis using o pw np by (auto simp: limiter_offer_def r1 r2 Let_def)
  qed
  show "messages l' \<in> {messages l, refill (at1 t) (messages l)} \<and>
      volume l' \<in> {volume l, refill (at2 t) (volume l)} \<and> violations l' = violations l + 1 \<and> positive_wait (wait d) \<and>
      disconnect d = (violations l + 1 \<ge> max_violations l)"
    if "\<not> allowed d"
    using o that s1(1) s2(1) by (auto simp: limiter_offer_def r1 r2 Let_def split: if_splits)
  show "max_violations l' = max_violations l"
    using o by (auto simp: limiter_offer_def r1 r2 Let_def split: if_splits)
qed

text \<open>Offers in the order of their readings, from a time on and until a time.\<close>

fun in_order :: "seconds \<Rightarrow> (clock4 \<times> int) list \<Rightarrow> bool" where
  "in_order T [] = True"
| "in_order T ((t, n) # ms) \<longleftrightarrow> 0 \<le> n \<and> T \<le> at1 t \<and> at1 t \<le> at2 t \<and> at2 t \<le> at3 t \<and> at3 t \<le> at4 t \<and> in_order (at4 t) ms"

definition over_by :: "seconds \<Rightarrow> (clock4 \<times> int) list \<Rightarrow> bool" where
  "over_by T ms \<longleftrightarrow> (\<forall>(t, n) \<in> set ms. at4 t \<le> T)"

text \<open>What is left of a bucket's credit after one offer that charged \<open>cost\<close>, or nothing.\<close>

lemma spend:
  assumes b: "bucket_ok b" "updated b \<le> T0" and t: "T0 \<le> t1" "t1 \<le> t2" "t2 \<le> t3"
    and b': "b' \<in> {b, refill t1 b} \<and> c = 0 \<or> b' = (refill t2 b)\<lparr>tokens := tokens (refill t2 b) - c\<rparr> \<and> 0 \<le> c \<and> c \<le> tokens (refill t2 b)"
  shows "bucket_ok b'" "updated b' \<le> t3" "credit T (refill t3 b') + c \<le> credit T (refill T0 b)" "rate b' = rate b" "capacity b' = capacity b"
proof -
  have r0: "credit T (refill t b) \<le> credit T (refill T0 b)" if "T0 \<le> t" for t
    using credit_refill [of "refill T0 b" t T] refill_refill [OF b that] b that by simp
  show ok: "bucket_ok b'" using b' b refill_ok [OF b(1)] take_ok [of "refill t2 b" c] by auto
  show up: "updated b' \<le> t3" using b' b t by auto
  show "rate b' = rate b" "capacity b' = capacity b" using b' by auto
  show "credit T (refill t3 b') + c \<le> credit T (refill T0 b)"
  proof (cases "b' \<in> {b, refill t1 b} \<and> c = 0")
    case True
    then have "refill t3 b' = refill t3 b" using b t refill_refill [of b t1 t3] by auto
    with True r0 [of t3] t show ?thesis by simp
  next
    case False
    with b' have b'': "b' = (refill t2 b)\<lparr>tokens := tokens (refill t2 b) - c\<rparr>" by blast
    have "credit T (refill t3 b') \<le> credit T b'" by (rule credit_refill [OF ok up])
    also have "\<dots> = credit T (refill t2 b) - c" by (simp add: b'' credit_def)
    also have "\<dots> \<le> credit T (refill T0 b) - c" using r0 [of t2] t by simp
    finally show ?thesis by simp
  qed
qed

lemma offers_spend:
  assumes "limiter_ok l" "updated (messages l) \<le> T0" "updated (volume l) \<le> T0" "in_order T0 ms" "over_by T ms" "T0 \<le> T"
    and "offers ms l = (adm, l')"
  shows "limiter_ok l' \<and> updated (messages l') \<le> T \<and> updated (volume l') \<le> T \<and>
    rate (messages l') = rate (messages l) \<and> rate (volume l') = rate (volume l) \<and>
    capacity (messages l') = capacity (messages l) \<and> capacity (volume l') = capacity (volume l) \<and>
    of_nat (length adm) \<le> credit T (refill T0 (messages l)) \<and> of_int (sum_list (map snd adm)) \<le> credit T (refill T0 (volume l))"
  using assms
proof (induction ms arbitrary: l T0 adm)
  case Nil
  then have "0 \<le> credit T (refill T0 (messages l))" "0 \<le> credit T (refill T0 (volume l))"
    by (auto intro!: tokens_le_credit simp: limiter_ok_def)
  with Nil show ?case by simp
next
  case (Cons m ms)
  obtain t n where m: "m = (t, n)" by (cases m)
  obtain d l1 where o: "limiter_offer t n l = (d, l1)" by fastforce
  obtain adm1 l2 where rest: "offers ms l1 = (adm1, l2)" by fastforce
  have res: "adm = (if allowed d then (t, n) # adm1 else adm1)" "l' = l2" using Cons.prems(7) by (auto simp: m o rest)
  have ok: "bucket_ok (messages l)" "bucket_ok (volume l)" using Cons.prems(1) by (simp_all add: limiter_ok_def)
  have t: "0 \<le> n" "T0 \<le> at1 t" "at1 t \<le> at2 t" "at2 t \<le> at3 t" "at3 t \<le> at4 t" "in_order (at4 t) ms" "at4 t \<le> T" "over_by T ms"
    using Cons.prems(4,5) by (auto simp: m over_by_def)
  then have ticks: "ticks t l" using Cons.prems by (auto simp: ticks_def)
  note spec = offer_admits [OF Cons.prems(1) ticks t(1) o]
  let ?cm = "if allowed d then 1 else 0 :: rat" and ?cv = "if allowed d then of_int n else 0 :: rat"
  have later: "tokens (refill (at1 t) (messages l)) \<le> tokens (refill (at3 t) (messages l))"
      "tokens (refill (at2 t) (volume l)) \<le> tokens (refill (at4 t) (volume l))"
    using refill_later [of "refill (at1 t) (messages l)" "at3 t"] refill_later [of "refill (at2 t) (volume l)" "at4 t"]
      refill_refill [OF ok(1), of "at1 t" "at3 t"] refill_refill [OF ok(2), of "at2 t" "at4 t"] ok Cons.prems(2,3) t by simp_all
  have "messages l1 \<in> {messages l, refill (at1 t) (messages l)} \<and> ?cm = 0 \<or>
      messages l1 = (refill (at3 t) (messages l))\<lparr>tokens := tokens (refill (at3 t) (messages l)) - ?cm\<rparr> \<and> 0 \<le> ?cm \<and> ?cm \<le> tokens (refill (at3 t) (messages l))"
    using spec(1-3) later by (cases "allowed d") auto
  note sm = spend [OF ok(1) Cons.prems(2) t(2) _ t(5) this]
  have "volume l1 \<in> {volume l, refill (at2 t) (volume l)} \<and> ?cv = 0 \<or>
      volume l1 = (refill (at4 t) (volume l))\<lparr>tokens := tokens (refill (at4 t) (volume l)) - ?cv\<rparr> \<and> 0 \<le> ?cv \<and> ?cv \<le> tokens (refill (at4 t) (volume l))"
    using spec(1-3) later t(1) by (cases "allowed d") auto
  note sv = spend [OF ok(2) Cons.prems(3) _ _ _ this]
  have l1: "limiter_ok l1" using sm(1) sv(1) t by (auto simp: limiter_ok_def)
  have "updated (messages l1) \<le> at4 t" "updated (volume l1) \<le> at4 t" using sm(2) sv(2) t by auto
  note ih = Cons.IH [OF l1 this t(6,8,7) rest [folded res(2)]]
  have c: "credit T (refill (at4 t) (messages l1)) + ?cm \<le> credit T (refill T0 (messages l))"
      "credit T (refill (at4 t) (volume l1)) + ?cv \<le> credit T (refill T0 (volume l))"
    using sm(3) sv(3) t by auto
  have f: "rate (messages l1) = rate (messages l)" "rate (volume l1) = rate (volume l)"
      "capacity (messages l1) = capacity (messages l)" "capacity (volume l1) = capacity (volume l)"
    using sm(4,5) sv(4,5) t by auto
  show ?case using ih c f res by (auto split: if_splits)
qed

text \<open>A refused message that may ever fit is admitted once it has waited as long as it was told.\<close>

lemma retry_after_suffices:
  assumes "bucket_ok b" "updated b \<le> now" "0 \<le> cost" "retry_after now cost b = (Fin x, b')" "now + x \<le> later"
  shows "fst (retry_after later cost b') = Fin 0"
proof -
  have b': "b' = refill now b" and cap: "cost \<le> capacity b" using assms(4) by (auto simp: retry_after_def Let_def split: if_splits)
  show ?thesis
  proof (cases "cost \<le> tokens b'")
    case True
    then have "x = 0" using assms(4) cap b' by (simp add: retry_after_def Let_def)
    with True assms refill_later [of b' later] cap show ?thesis by (simp add: retry_after_def Let_def b')
  next
    case False
    then have x: "x = (cost - tokens b') / rate b" using assms(4) cap b' by (simp add: retry_after_def Let_def)
    have r: "0 < rate b" using assms(1) by (simp add: bucket_ok_def)
    have "0 \<le> x" using x False r by simp
    have "cost - tokens b' = x * rate b" using x r by simp
    also have "\<dots> \<le> (later - now) * rate b" using assms(5) r by (simp add: mult_right_mono)
    finally have "cost \<le> tokens b' + (later - now) * rate b" by simp
    moreover have "tokens (refill later b') = min (capacity b) (tokens b' + (later - now) * rate b)"
      using refill_tokens [of b' later] assms \<open>0 \<le> x\<close> by (simp add: b')
    ultimately have "cost \<le> tokens (refill later b')" using cap by simp
    with cap show ?thesis by (simp add: retry_after_def Let_def b')
  qed
qed

section \<open>Properties\<close>

text \<open>
  C39: the inbound budget holds over every stretch of a connection. However a client spreads its
  messages and whatever happened before, the messages admitted between two times number at most the
  burst and the rate times the time between, and so do their bytes.
\<close>

theorem admitted_within_budget:
  assumes "new_limiter mps message_burst bps byte_burst k now1 now2 = Some l" "now1 \<le> T" "now2 \<le> T"
    and "in_order T earlier" "over_by T0 earlier" "T \<le> T0" "in_order T0 ms" "over_by T1 ms" "T0 \<le> T1"
  shows "case offers ms (snd (offers earlier l)) of (adm, _) \<Rightarrow>
    of_nat (length adm) \<le> of_int message_burst + (T1 - T0) * mps \<and>
    of_int (sum_list (map snd adm)) \<le> of_int byte_burst + (T1 - T0) * bps"
proof -
  from assms(1) have l: "limiter_ok l" "rate (messages l) = mps" "rate (volume l) = bps" "capacity (messages l) = of_int message_burst"
      "capacity (volume l) = of_int byte_burst" "updated (messages l) = now1" "updated (volume l) = now2"
    by (auto simp: new_limiter_def new_bucket_def limiter_ok_def bucket_ok_def split: if_splits option.splits)
  obtain adm0 l0 where e: "offers earlier l = (adm0, l0)" by fastforce
  obtain adm l1 where m: "offers ms l0 = (adm, l1)" by fastforce
  from offers_spend [OF l(1) _ _ assms(4,5,6) e] l assms(2,3)
  have l0: "limiter_ok l0" "updated (messages l0) \<le> T0" "updated (volume l0) \<le> T0" "rate (messages l0) = mps" "rate (volume l0) = bps"
      "capacity (messages l0) = of_int message_burst" "capacity (volume l0) = of_int byte_burst"
    by auto
  have "credit T1 (refill T0 (messages l0)) \<le> of_int message_burst + (T1 - T0) * mps"
      "credit T1 (refill T0 (volume l0)) \<le> of_int byte_burst + (T1 - T0) * bps"
    using credit_le [of "refill T0 (messages l0)" T1] credit_le [of "refill T0 (volume l0)" T1] l0 by (simp_all add: limiter_ok_def)
  with offers_spend [OF l0(1-3) assms(7-9) m] show ?thesis by (auto simp: e m)
qed

theorem admitted_within_budget_witness:
  "\<exists>l. new_limiter 10 2 100 50 3 0 0 = Some l \<and>
     (let ms = [(\<lparr>at1 = 1, at2 = 1, at3 = 1, at4 = 1\<rparr>, 20), (\<lparr>at1 = 1, at2 = 1, at3 = 1, at4 = 1\<rparr>, 20),
                (\<lparr>at1 = 1, at2 = 1, at3 = 1, at4 = 1\<rparr>, 1)] in
      length (fst (offers ms l)) = 2 \<and> of_nat (length (fst (offers ms l))) \<le> (2 :: rat))"
proof -
  let ?t = "\<lparr>at1 = 1, at2 = 1, at3 = 1, at4 = 1\<rparr>"
  let ?ms = "[(?t, 20), (?t, 20), (?t, 1)]"
  obtain l where l: "new_limiter 10 2 100 50 3 0 0 = Some l" by (simp add: new_limiter_def new_bucket_def)
  have "of_nat (length (fst (offers ?ms l))) \<le> (2 :: rat)"
    using admitted_within_budget [OF l, where T = 0 and earlier = "[]" and ms = ?ms and ?T0.0 = 1 and ?T1.0 = 1]
    by (auto simp: over_by_def split: prod.splits)
  moreover have "length (fst (offers ?ms (the (new_limiter 10 2 100 50 3 0 0)))) = 2" by code_simp
  ultimately show ?thesis using l by auto
qed

end
