(* ===== verification/Py_Index.thy ===== *)
theory Py_Index
  imports "HOL-Library.AList"
begin

text \<open>
  A Python dict whose values are lists, kept without empty lists: \<open>listed\<close> is \<open>d.get(k, ())\<close>,
  \<open>d.setdefault(k, []).append(x)\<close> is an update, and \<open>unlist\<close> removes one element and tidies an emptied
  entry. The room registry and the event hub are both such indexes.
\<close>

definition listed :: "('k \<times> 'v list) list \<Rightarrow> 'k \<Rightarrow> 'v list" where
  "listed al k = (case map_of al k of Some xs \<Rightarrow> xs | None \<Rightarrow> [])"

definition unlist :: "'k \<Rightarrow> 'v \<Rightarrow> ('k \<times> 'v list) list \<Rightarrow> ('k \<times> 'v list) list" where
  "unlist k x al =
     (case map_of al k of
        None \<Rightarrow> al
      | Some xs \<Rightarrow>
          (let ys = (if x \<in> set xs then remove1 x xs else xs) in
           if ys = [] then AList.delete k al else AList.update k ys al))"

definition index_ok :: "('k \<times> 'v list) list \<Rightarrow> bool" where
  "index_ok al \<longleftrightarrow> distinct (map fst al) \<and> (\<forall>k xs. map_of al k = Some xs \<longrightarrow> xs \<noteq> [] \<and> distinct xs)"

lemma index_okD:
  assumes "index_ok al"
  shows "distinct (map fst al)" "map_of al k = Some xs \<Longrightarrow> xs \<noteq> [] \<and> distinct xs" "distinct (listed al k)"
  using assms by (auto simp: index_ok_def listed_def split: option.split)

lemma index_ok_Nil [simp]: "index_ok []" "listed [] = (\<lambda>k. [])"
  by (simp_all add: index_ok_def listed_def [abs_def])

lemma listed_update: "listed (AList.update k xs al) = (listed al)(k := xs)"
  by (auto simp: listed_def fun_eq_iff update_conv')

lemma listed_delete: "listed (AList.delete k al) = (listed al)(k := [])"
  by (auto simp: listed_def fun_eq_iff delete_conv')

lemma index_ok_update: "index_ok al \<Longrightarrow> xs \<noteq> [] \<Longrightarrow> distinct xs \<Longrightarrow> index_ok (AList.update k xs al)"
  by (auto simp: index_ok_def distinct_update update_conv' split: if_splits)

lemma index_ok_delete: "index_ok al \<Longrightarrow> index_ok (AList.delete k al)"
  by (auto simp: index_ok_def distinct_delete delete_conv' split: if_splits)

lemma unlist_spec:
  assumes "index_ok al"
  shows "listed (unlist k x al) = (listed al)(k := removeAll x (listed al k))" "index_ok (unlist k x al)"
proof -
  have "listed (unlist k x al) = (listed al)(k := removeAll x (listed al k)) \<and> index_ok (unlist k x al)"
  proof (cases "map_of al k")
    case None
    then have "listed al k = []" "unlist k x al = al" by (simp_all add: listed_def unlist_def)
    with assms show ?thesis by (simp add: fun_upd_idem)
  next
    case (Some xs)
    then have xs: "listed al k = xs" "distinct xs" using index_okD(2) [OF assms Some] by (simp_all add: listed_def)
    then have "(if x \<in> set xs then remove1 x xs else xs) = removeAll x xs" by (simp add: distinct_remove1_removeAll removeAll_id)
    then have "unlist k x al = (if removeAll x xs = [] then AList.delete k al else AList.update k (removeAll x xs) al)"
      using Some by (simp add: unlist_def)
    with xs assms show ?thesis by (simp add: listed_delete listed_update index_ok_delete index_ok_update distinct_removeAll)
  qed
  then show "listed (unlist k x al) = (listed al)(k := removeAll x (listed al k))" "index_ok (unlist k x al)" by blast+
qed

lemma listed_keys:
  assumes "index_ok al"
  shows "k \<in> set (map fst al) \<longleftrightarrow> listed al k \<noteq> []"
proof (cases "map_of al k")
  case None
  then have "k \<notin> fst ` set al" by (simp add: map_of_eq_None_iff)
  with None show ?thesis by (simp add: listed_def)
next
  case (Some v)
  then have "k \<in> set (map fst al)" using map_of_SomeD by force
  with Some index_okD(2) [OF assms Some] show ?thesis by (simp add: listed_def)
qed

end
