(* ===== verification/Ws_Rooms.thy ===== *)
theory Ws_Rooms
  imports Py_Prelude Py_Index
begin

text \<open>
  The rooms of the WebSocket endpoint (\<open>ws/rooms.py\<close>). A member is known by its identity, here a
  number. The registry keeps a dict from rooms to members and a reverse index from members to rooms;
  both are association lists, a Python \<open>set\<close> of rooms is a list without repetitions. \<open>broadcast\<close> takes
  the \<open>offer\<close> of the members as an argument over the state \<open>'s\<close> of all of them.

  The lemmas show that the two dicts agree, that the registry refines a plain assignment of members to
  rooms, and what a broadcast does to the members; the locale \<open>room_members\<close> is the part of the
  \<open>RoomMember\<close> protocol that this rests on.
\<close>

section \<open>Definitions\<close>

subsection \<open>Room names\<close>

definition MAX_ROOM_NAME_LENGTH :: int where
  "MAX_ROOM_NAME_LENGTH = 64"

definition room_lead :: "char \<Rightarrow> bool" where
  "room_lead c = (let n = (of_char c :: nat) in 97 \<le> n \<and> n \<le> 122 \<or> 48 \<le> n \<and> n \<le> 57)"

definition room_char :: "char \<Rightarrow> bool" where
  "room_char c = (room_lead c \<or> c \<in> set ''._-'')"

text \<open>
  \<open>ROOM_NAME_PATTERN.match\<close>; in Python \<open>$\<close> matches at the end and also just before a newline that
  ends the string.
\<close>

definition room_name_re :: "string \<Rightarrow> bool" where
  "room_name_re s =
     (let body = (if s \<noteq> [] \<and> last s = CHR 10 then butlast s else s) in
      case body of [] \<Rightarrow> False | c # cs \<Rightarrow> room_lead c \<and> length cs \<le> 63 \<and> list_all room_char cs)"

definition quoted :: "string \<Rightarrow> string" where
  "quoted t = CHR 0x27 # t @ [CHR 0x27]"

definition room_name_error :: "string \<Rightarrow> string option" where
  "room_name_error name =
     (if name = [] then Some ''Room name must not be empty.''
      else if int (length name) > MAX_ROOM_NAME_LENGTH then
        Some (''Room name may be at most '' @ decimal (nat MAX_ROOM_NAME_LENGTH) @ '' characters, got '' @
          decimal (length name) @ ''.'')
      else if \<not> room_name_re name then
        Some (''Room name may contain only lowercase letters, digits, '' @ quoted ''.'' @ '', '' @ quoted ''-'' @ '' and '' @ quoted ''_'' @
          '', and must start with a letter or digit.'')
      else None)"

subsection \<open>The registry\<close>

type_synonym room_member = nat

record registry =
  rooms :: "(string \<times> room_member list) list"
  joined :: "(room_member \<times> string list) list"

definition new_registry :: registry where
  "new_registry = \<lparr>rooms = [], joined = []\<rparr>"

definition registry_rooms :: "registry \<Rightarrow> string list" where
  "registry_rooms reg = map fst (rooms reg)"

definition members_in :: "registry \<Rightarrow> string \<Rightarrow> room_member list" where
  "members_in reg room = listed (rooms reg) room"

definition member_count :: "registry \<Rightarrow> string \<Rightarrow> int" where
  "member_count reg room = int (length (members_in reg room))"

definition rooms_of :: "registry \<Rightarrow> room_member \<Rightarrow> string list" where
  "rooms_of reg m = listed (joined reg) m"

definition registry_contains :: "registry \<Rightarrow> string \<Rightarrow> room_member \<Rightarrow> bool" where
  "registry_contains reg room m \<longleftrightarrow> room \<in> set (rooms_of reg m)"

definition join :: "string \<Rightarrow> room_member \<Rightarrow> registry \<Rightarrow> int \<times> registry" where
  "join room m reg =
     (let mine = rooms_of reg m;
          reg1 = (if map_of (joined reg) m = None then reg\<lparr>joined := AList.update m [] (joined reg)\<rparr> else reg);
          reg2 = (if room \<notin> set mine
                  then reg1\<lparr>joined := AList.update m (mine @ [room]) (joined reg1),
                            rooms := AList.update room (members_in reg1 room @ [m]) (rooms reg1)\<rparr>
                  else reg1)
      in (member_count reg2 room, reg2))"

definition remove_from_room :: "string \<Rightarrow> room_member \<Rightarrow> registry \<Rightarrow> registry" where
  "remove_from_room room m reg = reg\<lparr>rooms := unlist room m (rooms reg)\<rparr>"

definition leave :: "string \<Rightarrow> room_member \<Rightarrow> registry \<Rightarrow> bool \<times> registry" where
  "leave room m reg =
     (case map_of (joined reg) m of
        None \<Rightarrow> (False, reg)
      | Some mine \<Rightarrow>
          if room \<notin> set mine then (False, reg)
          else
            (let rest = removeAll room mine;
                 reg1 = (if rest = [] then reg\<lparr>joined := AList.delete m (joined reg)\<rparr>
                         else reg\<lparr>joined := AList.update m rest (joined reg)\<rparr>)
             in (True, remove_from_room room m reg1)))"

definition leave_all :: "room_member \<Rightarrow> registry \<Rightarrow> string list \<times> registry" where
  "leave_all m reg =
     (let mine = rooms_of reg m; reg1 = reg\<lparr>joined := AList.delete m (joined reg)\<rparr> in
      (mine, fold (\<lambda>room. remove_from_room room m) mine reg1))"

definition registry_close :: "room_member list option \<Rightarrow> registry \<Rightarrow> int \<times> registry" where
  "registry_close members reg =
     (let targets = (case members of Some ms \<Rightarrow> ms | None \<Rightarrow> map fst (joined reg)) in
      (int (length targets), fold (\<lambda>m r. snd (leave_all m r)) targets reg))"

text \<open>The loop of \<open>broadcast\<close> over the copied member list.\<close>

fun broadcast_loop ::
    "(room_member \<Rightarrow> string \<Rightarrow> 's \<Rightarrow> bool \<times> 's) \<Rightarrow> string \<Rightarrow> room_member option \<Rightarrow> room_member list \<Rightarrow> registry \<Rightarrow> 's \<Rightarrow>
     int \<times> registry \<times> 's" where
  "broadcast_loop offer payload exclude [] reg s = (0, reg, s)"
| "broadcast_loop offer payload exclude (m # ms) reg s =
     (if exclude = Some m then broadcast_loop offer payload exclude ms reg s
      else
        (case offer m payload s of
           (True, s1) \<Rightarrow>
             (case broadcast_loop offer payload exclude ms reg s1 of (n, reg2, s2) \<Rightarrow> (n + 1, reg2, s2))
         | (False, s1) \<Rightarrow> broadcast_loop offer payload exclude ms (snd (leave_all m reg)) s1))"

definition broadcast ::
    "(room_member \<Rightarrow> string \<Rightarrow> 's \<Rightarrow> bool \<times> 's) \<Rightarrow> string \<Rightarrow> string \<Rightarrow> room_member option \<Rightarrow> registry \<Rightarrow> 's \<Rightarrow> int \<times> registry \<times> 's" where
  "broadcast offer room payload exclude reg s = broadcast_loop offer payload exclude (members_in reg room) reg s"

subsection \<open>What the registry promises\<close>

text \<open>
  A registry without dicts: for each room its members in the order in which they joined. \<open>rooms_spec\<close>
  is every operation on it, with the answer it gives; \<open>registry_step\<close> is the same operation of the code.
  The members that refuse an offer are part of a broadcast.
\<close>

datatype room_op =
    Join string room_member
  | Leave string room_member
  | LeaveAll room_member
  | Broadcast string "room_member option" "room_member \<Rightarrow> bool"
  | CloseAll
  | Count string
  | RoomsOf room_member
  | Contains string room_member
  | Rooms

datatype room_result = Number int | Truth bool | Names "string set"

fun registry_step :: "registry \<Rightarrow> room_op \<Rightarrow> room_result \<times> registry" where
  "registry_step reg (Join r m) = (case join r m reg of (n, reg1) \<Rightarrow> (Number n, reg1))"
| "registry_step reg (Leave r m) = (case leave r m reg of (b, reg1) \<Rightarrow> (Truth b, reg1))"
| "registry_step reg (LeaveAll m) = (case leave_all m reg of (rs, reg1) \<Rightarrow> (Names (set rs), reg1))"
| "registry_step reg (Broadcast r exclude refusing) =
     (case broadcast (\<lambda>m _ s. (\<not> refusing m, s)) r [] exclude reg () of (n, reg1, _) \<Rightarrow> (Number n, reg1))"
| "registry_step reg CloseAll = (case registry_close None reg of (n, reg1) \<Rightarrow> (Number n, reg1))"
| "registry_step reg (Count r) = (Number (member_count reg r), reg)"
| "registry_step reg (RoomsOf m) = (Names (set (rooms_of reg m)), reg)"
| "registry_step reg (Contains r m) = (Truth (registry_contains reg r m), reg)"
| "registry_step reg Rooms = (Names (set (registry_rooms reg)), reg)"

fun rooms_spec :: "(string \<Rightarrow> room_member list) \<Rightarrow> room_op \<Rightarrow> room_result \<times> (string \<Rightarrow> room_member list)" where
  "rooms_spec s (Join r m) =
     (let s1 = (if m \<in> set (s r) then s else s(r := s r @ [m])) in (Number (int (length (s1 r))), s1))"
| "rooms_spec s (Leave r m) = (Truth (m \<in> set (s r)), s(r := removeAll m (s r)))"
| "rooms_spec s (LeaveAll m) = (Names {r. m \<in> set (s r)}, (\<lambda>r. removeAll m (s r)))"
| "rooms_spec s (Broadcast r exclude refusing) =
     (let asked = filter (\<lambda>m. exclude \<noteq> Some m) (s r) in
      (Number (int (length (filter (\<lambda>m. \<not> refusing m) asked))), (\<lambda>r'. filter (\<lambda>m. m \<notin> set (filter refusing asked)) (s r'))))"
| "rooms_spec s CloseAll = (Number (int (card (\<Union>r. set (s r)))), (\<lambda>_. []))"
| "rooms_spec s (Count r) = (Number (int (length (s r))), s)"
| "rooms_spec s (RoomsOf m) = (Names {r. m \<in> set (s r)}, s)"
| "rooms_spec s (Contains r m) = (Truth (m \<in> set (s r)), s)"
| "rooms_spec s Rooms = (Names {r. s r \<noteq> []}, s)"

fun answers :: "('s \<Rightarrow> 'o \<Rightarrow> 'r \<times> 's) \<Rightarrow> 's \<Rightarrow> 'o list \<Rightarrow> 'r list \<times> 's" where
  "answers f s [] = ([], s)"
| "answers f s (x # xs) = (case f s x of (r, s1) \<Rightarrow> (case answers f s1 xs of (rs, s2) \<Rightarrow> (r # rs, s2)))"

section \<open>Lemmas\<close>

subsection \<open>The two dicts agree\<close>

definition registry_ok :: "registry \<Rightarrow> bool" where
  "registry_ok reg \<longleftrightarrow> index_ok (rooms reg) \<and> index_ok (joined reg) \<and> (\<forall>r m. m \<in> set (members_in reg r) \<longleftrightarrow> r \<in> set (rooms_of reg m))"

lemma registry_ok_new: "registry_ok new_registry"
  by (simp add: registry_ok_def new_registry_def members_in_def rooms_of_def)

lemma registry_okD:
  assumes "registry_ok reg"
  shows "index_ok (rooms reg)" "index_ok (joined reg)"
  using assms by (simp_all add: registry_ok_def)

lemma members_distinct: "registry_ok reg \<Longrightarrow> distinct (members_in reg r)"
  by (simp add: registry_ok_def members_in_def index_okD)

lemma rooms_distinct: "registry_ok reg \<Longrightarrow> distinct (rooms_of reg m)"
  by (simp add: registry_ok_def rooms_of_def index_okD)

lemma registry_agree: "registry_ok reg \<Longrightarrow> m \<in> set (members_in reg r) \<longleftrightarrow> r \<in> set (rooms_of reg m)"
  by (simp add: registry_ok_def)

text \<open>What \<open>_remove_from_room\<close> does to the two views.\<close>

lemma remove_from_room_spec:
  assumes "index_ok (rooms reg)"
  shows "joined (remove_from_room room m reg) = joined reg"
    "members_in (remove_from_room room m reg) = (members_in reg)(room := removeAll m (members_in reg room))"
    "index_ok (rooms (remove_from_room room m reg))"
  using unlist_spec [OF assms, of room m] by (auto simp: remove_from_room_def members_in_def fun_eq_iff)

lemma remove_from_rooms_spec:
  assumes "index_ok (rooms reg)"
  shows "index_ok (rooms (fold (\<lambda>r. remove_from_room r m) rs reg)) \<and>
    joined (fold (\<lambda>r. remove_from_room r m) rs reg) = joined reg \<and>
    members_in (fold (\<lambda>r. remove_from_room r m) rs reg) = (\<lambda>r. if r \<in> set rs then removeAll m (members_in reg r) else members_in reg r)"
  using assms
proof (induction rs arbitrary: reg)
  case (Cons r rs)
  note spec = remove_from_room_spec [OF Cons.prems]
  from Cons.IH [OF spec(3)] show ?case by (auto simp: spec(1,2) fun_eq_iff)
qed simp

lemma rooms_of_update: "joined reg' = AList.update m rs (joined reg) \<Longrightarrow> rooms_of reg' = (rooms_of reg)(m := rs)"
  by (simp add: rooms_of_def fun_eq_iff listed_update)

lemma rooms_of_delete: "joined reg' = AList.delete m (joined reg) \<Longrightarrow> rooms_of reg' = (rooms_of reg)(m := [])"
  by (simp add: rooms_of_def fun_eq_iff listed_delete)

lemma members_in_update: "rooms reg' = AList.update r ms (rooms reg) \<Longrightarrow> members_in reg' = (members_in reg)(r := ms)"
  by (simp add: members_in_def fun_eq_iff listed_update)

lemma registry_okI:
  assumes "index_ok (rooms reg)" "index_ok (joined reg)" "\<And>r m. m \<in> set (members_in reg r) \<longleftrightarrow> r \<in> set (rooms_of reg m)"
  shows "registry_ok reg"
  using assms by (simp add: registry_ok_def)

lemma join_spec:
  assumes ok: "registry_ok reg" and j: "join room m reg = (n, reg')"
  shows "registry_ok reg' \<and>
    members_in reg' = (if m \<in> set (members_in reg room) then members_in reg else (members_in reg)(room := members_in reg room @ [m])) \<and>
    rooms_of reg' = (if m \<in> set (members_in reg room) then rooms_of reg else (rooms_of reg)(m := rooms_of reg m @ [room])) \<and>
    n = int (length (members_in reg' room))"
proof (cases "room \<in> set (rooms_of reg m)")
  case True
  then have "map_of (joined reg) m \<noteq> None" by (cases "map_of (joined reg) m") (simp_all add: rooms_of_def listed_def)
  with True j have "reg' = reg" "n = member_count reg room" by (auto simp: join_def Let_def)
  with True ok registry_agree [OF ok] show ?thesis by (simp add: member_count_def)
next
  case False
  have j': "joined reg' = AList.update m (rooms_of reg m @ [room]) (joined reg)"
      "rooms reg' = AList.update room (members_in reg room @ [m]) (rooms reg)" "n = member_count reg' room"
    using False j by (auto simp: join_def Let_def members_in_def)
  have v: "members_in reg' = (members_in reg)(room := members_in reg room @ [m])" "rooms_of reg' = (rooms_of reg)(m := rooms_of reg m @ [room])"
    using members_in_update [OF j'(2)] rooms_of_update [OF j'(1)] by simp_all
  have nm: "m \<notin> set (members_in reg room)" using False registry_agree [OF ok] by simp
  have "registry_ok reg'"
  proof (rule registry_okI)
    show "index_ok (rooms reg')" using registry_okD(1) [OF ok] members_distinct [OF ok, of room] nm by (simp add: j' index_ok_update)
    show "index_ok (joined reg')" using registry_okD(2) [OF ok] rooms_distinct [OF ok, of m] False by (simp add: j' index_ok_update)
    show "m' \<in> set (members_in reg' r) \<longleftrightarrow> r \<in> set (rooms_of reg' m')" for m' r
      using registry_agree [OF ok] by (auto simp: v)
  qed
  with v nm j'(3) show ?thesis by (simp add: member_count_def)
qed

lemma leave_spec:
  assumes ok: "registry_ok reg" and l: "leave room m reg = (b, reg')"
  shows "registry_ok reg' \<and> members_in reg' = (members_in reg)(room := removeAll m (members_in reg room)) \<and>
    rooms_of reg' = (rooms_of reg)(m := removeAll room (rooms_of reg m)) \<and> b = (m \<in> set (members_in reg room))"
proof (cases "room \<in> set (rooms_of reg m)")
  case False
  then have "reg' = reg" "\<not> b" using l by (auto simp: leave_def rooms_of_def listed_def split: option.splits)
  with False ok registry_agree [OF ok] show ?thesis by (auto simp: fun_eq_iff removeAll_id)
next
  case True
  then obtain mine where mine: "map_of (joined reg) m = Some mine" "rooms_of reg m = mine"
    by (cases "map_of (joined reg) m") (simp_all add: rooms_of_def listed_def)
  define reg1 where "reg1 = (if removeAll room mine = [] then reg\<lparr>joined := AList.delete m (joined reg)\<rparr>
      else reg\<lparr>joined := AList.update m (removeAll room mine) (joined reg)\<rparr>)"
  have r': "reg' = remove_from_room room m reg1" b using l mine True by (auto simp: leave_def reg1_def Let_def)
  have r1: "rooms reg1 = rooms reg" by (simp add: reg1_def)
  have lists: "index_ok (rooms reg1)" using registry_okD(1) [OF ok] by (simp add: r1)
  note spec = remove_from_room_spec [OF lists, where room = room and m = m, folded r'(1)]
  have mem: "members_in reg' = (members_in reg)(room := removeAll m (members_in reg room))"
    using spec(2) r1 by (simp add: members_in_def fun_eq_iff)
  have ro: "rooms_of reg1 = (rooms_of reg)(m := removeAll room mine)"
    using rooms_of_delete [of reg1 m reg] rooms_of_update [of reg1 m "removeAll room mine" reg] by (auto simp: reg1_def)
  then have ro': "rooms_of reg' = (rooms_of reg)(m := removeAll room mine)" using spec(1) by (simp add: rooms_of_def fun_eq_iff)
  have "registry_ok reg'"
  proof (rule registry_okI)
    show "index_ok (rooms reg')" by (rule spec(3))
    show "index_ok (joined reg')"
      using registry_okD(2) [OF ok] rooms_distinct [OF ok, of m] mine by (simp add: spec(1) reg1_def index_ok_update index_ok_delete distinct_removeAll)
    show "m' \<in> set (members_in reg' r) \<longleftrightarrow> r \<in> set (rooms_of reg' m')" for m' r
      using registry_agree [OF ok] mine(2) by (auto simp: mem ro')
  qed
  with mem ro' r'(2) True registry_agree [OF ok] mine show ?thesis by simp
qed

lemma leave_all_spec:
  assumes ok: "registry_ok reg" and l: "leave_all m reg = (rs, reg')"
  shows "registry_ok reg' \<and> members_in reg' = (\<lambda>r. removeAll m (members_in reg r)) \<and> rooms_of reg' = (rooms_of reg)(m := []) \<and> rs = rooms_of reg m"
proof -
  define reg1 where "reg1 = reg\<lparr>joined := AList.delete m (joined reg)\<rparr>"
  have r': "reg' = fold (\<lambda>room. remove_from_room room m) (rooms_of reg m) reg1" "rs = rooms_of reg m"
    using l by (auto simp: leave_all_def reg1_def Let_def)
  have "index_ok (rooms reg1)" using registry_okD(1) [OF ok] by (simp add: reg1_def)
  note spec = remove_from_rooms_spec [OF this, of m "rooms_of reg m", folded r'(1)]
  have "removeAll m (members_in reg r) = members_in reg r" if "r \<notin> set (rooms_of reg m)" for r
    using that registry_agree [OF ok] by (simp add: removeAll_id)
  then have mem: "members_in reg' = (\<lambda>r. removeAll m (members_in reg r))" using spec by (auto simp: fun_eq_iff members_in_def reg1_def)
  have ro: "rooms_of reg' = (rooms_of reg)(m := [])" using spec rooms_of_delete [of reg' m reg] by (simp add: reg1_def)
  have "registry_ok reg'"
  proof (rule registry_okI)
    show "index_ok (rooms reg')" using spec by blast
    show "index_ok (joined reg')" using registry_okD(2) [OF ok] spec by (simp add: reg1_def index_ok_delete)
    show "m' \<in> set (members_in reg' r) \<longleftrightarrow> r \<in> set (rooms_of reg' m')" for m' r
      using registry_agree [OF ok] by (auto simp: mem ro)
  qed
  with mem ro r' show ?thesis by simp
qed

text \<open>Several members leave every room.\<close>

abbreviation leave_each :: "room_member list \<Rightarrow> registry \<Rightarrow> registry" where
  "leave_each ms \<equiv> fold (\<lambda>m r. snd (leave_all m r)) ms"

lemma leave_each_spec:
  assumes "registry_ok reg"
  shows "registry_ok (leave_each ms reg) \<and> members_in (leave_each ms reg) = (\<lambda>r. filter (\<lambda>m. m \<notin> set ms) (members_in reg r)) \<and>
    rooms_of (leave_each ms reg) = (\<lambda>m. if m \<in> set ms then [] else rooms_of reg m)"
  using assms
proof (induction ms arbitrary: reg)
  case (Cons m ms)
  from leave_all_spec [OF Cons.prems surjective_pairing]
  have spec: "registry_ok (snd (leave_all m reg))" "members_in (snd (leave_all m reg)) = (\<lambda>r. removeAll m (members_in reg r))"
      "rooms_of (snd (leave_all m reg)) = (rooms_of reg)(m := [])"
    by auto
  from Cons.IH [OF spec(1)] show ?case
    by (auto simp: spec(2,3) fun_eq_iff removeAll_filter_not_eq intro: filter_cong)
qed simp

subsection \<open>Broadcasts\<close>

lemma broadcast_refusing:
  "broadcast_loop (\<lambda>m _ s. (\<not> refusing m, s)) p exclude ms reg s =
     (int (length (filter (\<lambda>m. exclude \<noteq> Some m \<and> \<not> refusing m) ms)), leave_each (filter (\<lambda>m. exclude \<noteq> Some m \<and> refusing m) ms) reg, s)"
  by (induction ms arbitrary: reg) auto

text \<open>
  What the registry asks of its members: an offer that is taken goes to the end of what that member
  was given and nowhere else, and an offer that is refused ends that member and no other.
\<close>

locale room_members =
  fixes offer :: "room_member \<Rightarrow> string \<Rightarrow> 's \<Rightarrow> bool \<times> 's"
    and inbox :: "'s \<Rightarrow> room_member \<Rightarrow> string list"
    and ended :: "'s \<Rightarrow> room_member \<Rightarrow> bool"
  assumes taken: "offer m p s = (True, s') \<Longrightarrow> inbox s' = (inbox s)(m := inbox s m @ [p]) \<and> ended s' = ended s"
    and refused: "offer m p s = (False, s') \<Longrightarrow> inbox s' = inbox s \<and> ended s' = (ended s)(m := True)"
begin

lemma broadcast_loop_spec:
  assumes "broadcast_loop offer p exclude ms reg s = (n, reg', s')" "distinct ms"
  shows "\<exists>gone. set gone \<subseteq> set ms \<and> exclude \<notin> Some ` set gone \<and> reg' = leave_each gone reg \<and>
    inbox s' = (\<lambda>m. if m \<in> set ms \<and> exclude \<noteq> Some m \<and> m \<notin> set gone then inbox s m @ [p] else inbox s m) \<and>
    ended s' = (\<lambda>m. ended s m \<or> m \<in> set gone)"
  using assms
proof (induction ms arbitrary: reg s n)
  case Nil
  then show ?case by (auto intro: exI [of _ "[]"])
next
  case (Cons m ms)
  show ?case
  proof (cases "exclude = Some m")
    case True
    with Cons.prems have "broadcast_loop offer p exclude ms reg s = (n, reg', s')" by simp
    from Cons.IH [OF this] Cons.prems(2) obtain gone where "set gone \<subseteq> set ms" "exclude \<notin> Some ` set gone" "reg' = leave_each gone reg"
        "inbox s' = (\<lambda>m. if m \<in> set ms \<and> exclude \<noteq> Some m \<and> m \<notin> set gone then inbox s m @ [p] else inbox s m)"
        "ended s' = (\<lambda>m. ended s m \<or> m \<in> set gone)"
      by auto
    with True show ?thesis by (intro exI [of _ gone]) auto
  next
    case ex: False
    obtain b s1 where o: "offer m p s = (b, s1)" by fastforce
    show ?thesis
    proof (cases b)
      case True
      with Cons.prems ex o obtain n1 where "broadcast_loop offer p exclude ms reg s1 = (n1, reg', s')" by (auto split: prod.splits)
      from Cons.IH [OF this] Cons.prems(2) obtain gone where g: "set gone \<subseteq> set ms" "exclude \<notin> Some ` set gone" "reg' = leave_each gone reg"
          "inbox s' = (\<lambda>m. if m \<in> set ms \<and> exclude \<noteq> Some m \<and> m \<notin> set gone then inbox s1 m @ [p] else inbox s1 m)"
          "ended s' = (\<lambda>m. ended s1 m \<or> m \<in> set gone)"
        by auto
      moreover have "m \<notin> set ms" "m \<notin> set gone" using Cons.prems(2) g(1) by auto
      moreover have "inbox s1 = (inbox s)(m := inbox s m @ [p])" "ended s1 = ended s" using taken o True by auto
      ultimately show ?thesis using ex by (intro exI [of _ gone]) (auto simp: fun_eq_iff)
    next
      case False
      with Cons.prems ex o have "broadcast_loop offer p exclude ms (snd (leave_all m reg)) s1 = (n, reg', s')" by simp
      from Cons.IH [OF this] Cons.prems(2) obtain gone where g: "set gone \<subseteq> set ms" "exclude \<notin> Some ` set gone"
          "reg' = leave_each gone (snd (leave_all m reg))"
          "inbox s' = (\<lambda>m. if m \<in> set ms \<and> exclude \<noteq> Some m \<and> m \<notin> set gone then inbox s1 m @ [p] else inbox s1 m)"
          "ended s' = (\<lambda>m. ended s1 m \<or> m \<in> set gone)"
        by auto
      moreover have "m \<notin> set ms" using Cons.prems(2) by simp
      moreover have "inbox s1 = inbox s" "ended s1 = (ended s)(m := True)" using refused o False by auto
      ultimately show ?thesis using ex by (intro exI [of _ "m # gone"]) (auto simp: fun_eq_iff)
    qed
  qed
qed

end

subsection \<open>Refinement\<close>

lemma registry_rooms_set: "registry_ok reg \<Longrightarrow> set (registry_rooms reg) = {r. members_in reg r \<noteq> []}"
  using listed_keys [of "rooms reg"] by (auto simp: registry_rooms_def members_in_def registry_ok_def)

lemma joined_members:
  assumes "registry_ok reg"
  shows "set (map fst (joined reg)) = (\<Union>r. set (members_in reg r))"
proof -
  have "m \<in> set (map fst (joined reg)) \<longleftrightarrow> rooms_of reg m \<noteq> []" for m
    unfolding rooms_of_def by (rule listed_keys [OF registry_okD(2) [OF assms]])
  then have "m \<in> set (map fst (joined reg)) \<longleftrightarrow> (\<exists>r. m \<in> set (members_in reg r))" for m
    using registry_agree [OF assms] by (cases "rooms_of reg m") auto
  then show ?thesis by auto
qed

lemma registry_step_refines:
  assumes ok: "registry_ok reg" and x: "registry_step reg x = (a, reg')"
  shows "registry_ok reg' \<and> rooms_spec (members_in reg) x = (a, members_in reg')"
proof (cases x)
  case (Join r m)
  obtain n where j: "join r m reg = (n, reg')" "a = Number n" using x Join by (auto split: prod.splits)
  from join_spec [OF ok j(1)] j(2) Join show ?thesis by (simp add: Let_def)
next
  case (Leave r m)
  obtain b where j: "leave r m reg = (b, reg')" "a = Truth b" using x Leave by (auto split: prod.splits)
  from leave_spec [OF ok j(1)] j(2) Leave show ?thesis by simp
next
  case (LeaveAll m)
  obtain rs where j: "leave_all m reg = (rs, reg')" "a = Names (set rs)" using x LeaveAll by (auto split: prod.splits)
  from leave_all_spec [OF ok j(1)] j(2) LeaveAll registry_agree [OF ok, of m] show ?thesis by auto
next
  case (Broadcast r exclude refusing)
  then have "a = Number (int (length (filter (\<lambda>m. exclude \<noteq> Some m \<and> \<not> refusing m) (members_in reg r))))"
      "reg' = leave_each (filter (\<lambda>m. exclude \<noteq> Some m \<and> refusing m) (members_in reg r)) reg"
    using x by (auto simp: broadcast_def broadcast_refusing)
  with leave_each_spec [OF ok] Broadcast show ?thesis by (auto simp: Let_def conj_commute intro!: ext filter_cong)
next
  case CloseAll
  then have *: "a = Number (int (length (map fst (joined reg))))" "reg' = leave_each (map fst (joined reg)) reg"
    using x by (auto simp: registry_close_def)
  have "int (length (map fst (joined reg))) = int (card (\<Union>r. set (members_in reg r)))"
    using distinct_card [OF index_okD(1) [OF registry_okD(2) [OF ok]]] by (simp only: joined_members [OF ok])
  moreover have "members_in reg' = (\<lambda>r. [])"
    using leave_each_spec [OF ok, of "map fst (joined reg)"] *(2) joined_members [OF ok] by (auto simp: fun_eq_iff filter_empty_conv)
  ultimately show ?thesis using leave_each_spec [OF ok] * CloseAll by simp
next
  case (RoomsOf m)
  then show ?thesis using ok x registry_agree [OF ok, of m] by auto
next
  case (Contains r m)
  then show ?thesis using ok x registry_agree [OF ok, of m] by (auto simp: registry_contains_def)
qed (use ok x in \<open>auto simp: member_count_def registry_rooms_set\<close>)

section \<open>Properties\<close>

text \<open>
  C7: the room registry refines a plain assignment of members to rooms. For every sequence of
  operations on a new registry, its two dicts, their tidying and the order of a broadcast give the
  same answers as the members of each room in the order in which they joined, and the same members in
  the end.
\<close>

theorem registry_refines_membership:
  "fst (answers registry_step new_registry xs) = fst (answers rooms_spec (\<lambda>_. []) xs) \<and>
   members_in (snd (answers registry_step new_registry xs)) = snd (answers rooms_spec (\<lambda>_. []) xs)"
proof -
  have "fst (answers registry_step reg xs) = fst (answers rooms_spec (members_in reg) xs) \<and>
      members_in (snd (answers registry_step reg xs)) = snd (answers rooms_spec (members_in reg) xs)" if "registry_ok reg" for reg
    using that
  proof (induction xs arbitrary: reg)
    case (Cons x xs)
    obtain a reg1 where x: "registry_step reg x = (a, reg1)" by fastforce
    note spec = registry_step_refines [OF Cons.prems x]
    with Cons.IH [of reg1] x show ?case by (simp add: case_prod_beta)
  qed simp
  from this [OF registry_ok_new] show ?thesis by (simp add: new_registry_def members_in_def [abs_def])
qed

text \<open>
  a room name may end in a newline. Every valid name shorter than the limit stays valid with a
  newline appended, because \<open>$\<close> also matches before a final newline.
\<close>

theorem room_name_may_end_in_newline:
  assumes "room_name_error name = None" "last name \<noteq> CHR 10" "length name < 64"
  shows "room_name_error (name @ [CHR 10]) = None"
  using assms by (simp add: room_name_error_def room_name_re_def MAX_ROOM_NAME_LENGTH_def split: if_splits list.splits)

theorem room_name_may_end_in_newline_witness: "room_name_error ([CHR ''a''] @ [CHR 10]) = None"
proof (rule room_name_may_end_in_newline)
  show "room_name_error [CHR ''a''] = None" by code_simp
  show "last [CHR ''a''] \<noteq> CHR 10" by code_simp
  show "length [CHR ''a''] < 64" by simp
qed

end
