(* ===== verification/Ws_Connection.thy ===== *)
theory Ws_Connection
  imports Ws_Limits Ws_Rooms
begin

text \<open>
  The WebSocket protocol (\<open>ws/protocol.py\<close>) and one connection's life (\<open>ws/connection.py\<close>) among the
  others of its process. A connection's attributes are a record; the last two components observe the
  run: the frames its queue took and the frames its writer sent. The reader and writer of JSON text,
  \<open>repr\<close> and the \<open>g\<close> format are arguments, collected in \<open>ws_lib\<close>.

  Handling a message is one step, because it has no \<open>await\<close>. The other steps of \<open>ws_step\<close> are the
  writer's sends, the deadlines, the endings of the receive loop and the release of the rooms, in any
  order the code allows and for any number of connections.
\<close>

section \<open>Definitions\<close>

subsection \<open>The protocol\<close>

record ws_lib =
  lib_loads :: "string \<Rightarrow> loaded"
  lib_dumps :: "json \<Rightarrow> string"
  lib_repr :: "string \<Rightarrow> string"
  lib_general :: "rat \<Rightarrow> string"

definition MAX_CLOSE_REASON_BYTES :: nat where
  "MAX_CLOSE_REASON_BYTES = 123"

datatype close_code =
    GOING_AWAY | INTERNAL_ERROR | PROTOCOL_ERROR | TOKEN_EXPIRED | IDLE_TIMEOUT | CLOSE_RATE_LIMITED | OVERFLOW

fun close_number :: "close_code \<Rightarrow> int" where
  "close_number GOING_AWAY = 1001"
| "close_number INTERNAL_ERROR = 1011"
| "close_number PROTOCOL_ERROR = 4400"
| "close_number TOKEN_EXPIRED = 4401"
| "close_number IDLE_TIMEOUT = 4408"
| "close_number CLOSE_RATE_LIMITED = 4429"
| "close_number OVERFLOW = 4430"

datatype client_message_type = JOIN | LEAVE | PUBLISH | PING

definition client_types :: "(string \<times> client_message_type) list" where
  "client_types = [(''join'', JOIN), (''leave'', LEAVE), (''publish'', PUBLISH), (''ping'', PING)]"

definition type_value :: "client_message_type \<Rightarrow> string" where
  "type_value t = (case t of JOIN \<Rightarrow> ''join'' | LEAVE \<Rightarrow> ''leave'' | PUBLISH \<Rightarrow> ''publish'' | PING \<Rightarrow> ''ping'')"

datatype server_message_type = READY | JOINED | LEFT | MESSAGE | PONG | ERROR

fun server_type_value :: "server_message_type \<Rightarrow> string" where
  "server_type_value READY = ''ready''"
| "server_type_value JOINED = ''joined''"
| "server_type_value LEFT = ''left''"
| "server_type_value MESSAGE = ''message''"
| "server_type_value PONG = ''pong''"
| "server_type_value ERROR = ''error''"

datatype error_code =
    MALFORMED_MESSAGE | UNKNOWN_TYPE | INVALID_FIELD | INVALID_ROOM | NOT_IN_ROOM | ROOM_LIMIT_REACHED | RATE_LIMITED
  | MESSAGE_TOO_LARGE

fun error_value :: "error_code \<Rightarrow> string" where
  "error_value MALFORMED_MESSAGE = ''malformed_message''"
| "error_value UNKNOWN_TYPE = ''unknown_type''"
| "error_value INVALID_FIELD = ''invalid_field''"
| "error_value INVALID_ROOM = ''invalid_room''"
| "error_value NOT_IN_ROOM = ''not_in_room''"
| "error_value ROOM_LIMIT_REACHED = ''room_limit_reached''"
| "error_value RATE_LIMITED = ''rate_limited''"
| "error_value MESSAGE_TOO_LARGE = ''message_too_large''"

record client_message =
  cm_type :: client_message_type
  cm_room :: "string option"
  cm_data :: json

text \<open>What decoding and encoding raise: the answerable error, or an exception that nothing here catches.\<close>

datatype ws_exn = WsValueError | WsRecursionError

datatype decode_error = Malformed error_code string | DecodeRaises ws_exn

definition decode_client_message :: "ws_lib \<Rightarrow> string \<Rightarrow> int \<Rightarrow> decode_error + client_message" where
  "decode_client_message lib raw max_bytes =
     (if max_bytes \<le> 0 then Inl (DecodeRaises WsValueError)
      else
        (let size = length (utf8 raw) in
         if int size > max_bytes then
           Inl (Malformed MESSAGE_TOO_LARGE
             (''Message is '' @ decimal size @ '' bytes; the limit is '' @ decimal (nat max_bytes) @ ''.''))
         else case lib_loads lib raw of
           LoadsRecursionError \<Rightarrow> Inl (DecodeRaises WsRecursionError)
         | ConstantRead literal \<Rightarrow>
             Inl (Malformed MALFORMED_MESSAGE
               (literal @ '' is not accepted: it is not JSON any other language'' @ [CHR 0x27] @ ''s parser will read, so it is '' @
                ''refused here rather than re-emitted.''))
         | LoadsValueError text \<Rightarrow> Inl (Malformed MALFORMED_MESSAGE (''Message is not valid JSON: '' @ text))
         | Loaded (JObj payload) \<Rightarrow>
             (case map_of payload ''type'' of
                Some (JStr raw_type) \<Rightarrow>
                  (case map_of client_types raw_type of
                     None \<Rightarrow>
                       Inl (Malformed UNKNOWN_TYPE
                         (''Unknown type '' @ lib_repr lib raw_type @ ''; expected one of join, leave, ping, publish.''))
                   | Some PING \<Rightarrow> Inr \<lparr>cm_type = PING, cm_room = None, cm_data = JNull\<rparr>
                   | Some message_type \<Rightarrow>
                       (case map_of payload ''room'' of
                          Some (JStr room) \<Rightarrow>
                            if message_type \<noteq> PUBLISH then Inr \<lparr>cm_type = message_type, cm_room = Some room, cm_data = JNull\<rparr>
                            else (case map_of payload ''data'' of
                                    None \<Rightarrow> Inl (Malformed INVALID_FIELD (''publish requires a '' @ quoted ''data'' @ '' field.''))
                                  | Some v \<Rightarrow> Inr \<lparr>cm_type = PUBLISH, cm_room = Some room, cm_data = v\<rparr>)
                        | _ \<Rightarrow>
                            Inl (Malformed INVALID_FIELD (type_value message_type @ '' requires a string '' @ quoted ''room'' @ ''.''))))
              | _ \<Rightarrow> Inl (Malformed MALFORMED_MESSAGE (''Message is missing a string '' @ quoted ''type'' @ ''.'')))
         | Loaded v \<Rightarrow>
             Inl (Malformed MALFORMED_MESSAGE (''Message must be a JSON object, got '' @ type_name v @ ''.''))))"

definition encode_server_message :: "ws_lib \<Rightarrow> json \<Rightarrow> string option" where
  "encode_server_message lib v = (if finite_json v then Some (lib_dumps lib v) else None)"

definition error_message :: "error_code \<Rightarrow> string \<Rightarrow> pyfloat option \<Rightarrow> json" where
  "error_message code text retry =
     JObj ([(''type'', JStr (server_type_value ERROR)), (''code'', JStr (error_value code)), (''message'', JStr text)] @
       (case retry of None \<Rightarrow> [] | Some x \<Rightarrow> [(''retry_after'', JFloat (round3 x))]))"

text \<open>\<open>bytes.decode("utf-8", errors="ignore")\<close> on the encodings of code points below 256, cut anywhere.\<close>

fun decode_ignore :: "string \<Rightarrow> string" where
  "decode_ignore [] = []"
| "decode_ignore [b] = (if (of_char b :: nat) < 128 then [b] else [])"
| "decode_ignore (b # c # bs) =
     (if (of_char b :: nat) < 128 then b # decode_ignore (c # bs)
      else if 194 \<le> (of_char b :: nat) \<and> (of_char b :: nat) \<le> 195 \<and> 128 \<le> (of_char c :: nat) \<and> (of_char c :: nat) < 192
      then char_of (((of_char b :: nat) - 192) * 64 + ((of_char c :: nat) - 128)) # decode_ignore bs
      else decode_ignore (c # bs))"

definition close_reason :: "string \<Rightarrow> string" where
  "close_reason text =
     (let encoded = utf8 text in
      if length encoded \<le> MAX_CLOSE_REASON_BYTES then text else decode_ignore (take MAX_CLOSE_REASON_BYTES encoded))"

subsection \<open>A connection\<close>

datatype out_item = Frame string | Stop

text \<open>Where \<open>run\<close> is: in its receive loop, flushing on its way out, or finished.\<close>

datatype run_phase = Serving | Flushing | Over

record connection =
  c_user :: string
  c_limiter :: limiter
  c_max_rooms :: int
  c_max_bytes :: int
  c_idle_timeout :: seconds
  c_buffer :: int
  c_queue :: "out_item list"
  c_terminated :: bool
  c_ended :: bool
  c_sent :: int
  c_received :: int
  c_last_message :: seconds
  c_deadline :: seconds
  c_deadline_code :: close_code
  c_deadline_reason :: string
  c_close_code :: close_code
  c_close_note :: string
  c_phase :: run_phase
  c_writing :: bool
  c_accepted :: "string list"
  c_written :: "string list"

text \<open>The bounds and the credential a connection is built with; the token's remaining life is in seconds.\<close>

record connection_args =
  a_user :: string
  a_expires_iso :: string
  a_token_seconds :: seconds
  a_limiter :: limiter
  a_max_rooms :: int
  a_max_bytes :: int
  a_buffer :: int
  a_idle_timeout :: seconds
  a_max_seconds :: seconds

definition connection_error :: "connection_args \<Rightarrow> bool" where
  "connection_error a \<longleftrightarrow>
     a_max_rooms a < 1 \<or> a_max_bytes a < 1 \<or> a_buffer a < 1 \<or> a_idle_timeout a \<le> 0 \<or> a_max_seconds a \<le> 0 \<or>
     of_int (a_max_bytes a) > byte_capacity (a_limiter a)"

definition new_connection :: "connection_args \<Rightarrow> seconds \<Rightarrow> connection option" where
  "new_connection a started =
     (if connection_error a then None
      else
        (let lifetime_deadline = started + a_max_seconds a;
             token_deadline = started + a_token_seconds a;
             token_first = token_deadline \<le> lifetime_deadline in
         Some \<lparr>c_user = a_user a, c_limiter = a_limiter a, c_max_rooms = a_max_rooms a, c_max_bytes = a_max_bytes a,
               c_idle_timeout = a_idle_timeout a, c_buffer = a_buffer a, c_queue = [], c_terminated = False, c_ended = False,
               c_sent = 0, c_received = 0, c_last_message = started,
               c_deadline = (if token_first then token_deadline else lifetime_deadline),
               c_deadline_code = (if token_first then TOKEN_EXPIRED else GOING_AWAY),
               c_deadline_reason = (if token_first then ''access token expired; reconnect with a fresh one''
                                    else ''connection lifetime reached; reconnect''),
               c_close_code = GOING_AWAY, c_close_note = ''server closing'', c_phase = Serving, c_writing = True,
               c_accepted = [], c_written = []\<rparr>))"

definition connection_offer :: "string \<Rightarrow> connection \<Rightarrow> bool \<times> connection" where
  "connection_offer payload c =
     (if c_terminated c then (False, c)
      else if int (length (c_queue c)) \<ge> c_buffer c then
        (False, c\<lparr>c_terminated := True, c_queue := c_queue c @ [Stop], c_close_code := OVERFLOW,
                  c_close_note := ''too far behind; reconnect and refetch state'', c_ended := True\<rparr>)
      else (True, c\<lparr>c_queue := c_queue c @ [Frame payload], c_accepted := c_accepted c @ [payload]\<rparr>))"

definition next_deadline :: "ws_lib \<Rightarrow> seconds \<Rightarrow> connection \<Rightarrow> seconds \<times> close_code \<times> string" where
  "next_deadline lib now c =
     (let idle_at = c_last_message c + c_idle_timeout c in
      if idle_at \<le> c_deadline c then (idle_at - now, IDLE_TIMEOUT, ''no message for '' @ lib_general lib (c_idle_timeout c) @ ''s'')
      else (c_deadline c - now, c_deadline_code c, c_deadline_reason c))"

text \<open>The first half of \<open>_flush\<close>; the second half waits for the writer.\<close>

definition begin_flush :: "connection \<Rightarrow> connection" where
  "begin_flush c =
     (if c_terminated c then c\<lparr>c_phase := Flushing\<rparr>
      else c\<lparr>c_terminated := True, c_queue := c_queue c @ [Stop], c_phase := Flushing\<rparr>)"

subsection \<open>Connections together\<close>

record ws_world =
  ww_rooms :: registry
  ww_conns :: "room_member \<Rightarrow> connection option"

definition new_ws_world :: ws_world where
  "new_ws_world = \<lparr>ww_rooms = new_registry, ww_conns = Map.empty\<rparr>"

definition on_conn :: "room_member \<Rightarrow> (connection \<Rightarrow> connection) \<Rightarrow> ws_world \<Rightarrow> ws_world" where
  "on_conn m f w = w\<lparr>ww_conns := (ww_conns w)(m := map_option f (ww_conns w m))\<rparr>"

definition ws_offer :: "room_member \<Rightarrow> string \<Rightarrow> (room_member \<Rightarrow> connection option) \<Rightarrow> bool \<times> (room_member \<Rightarrow> connection option)" where
  "ws_offer m payload cs =
     (case cs m of
        None \<Rightarrow> (False, cs)
      | Some c \<Rightarrow> (case connection_offer payload c of (b, c1) \<Rightarrow> (b, cs(m \<mapsto> c1))))"

text \<open>\<open>send_soon\<close>; \<open>json.dumps\<close> may raise.\<close>

definition send_soon :: "ws_lib \<Rightarrow> room_member \<Rightarrow> json \<Rightarrow> ws_world \<Rightarrow> ws_exn option \<times> ws_world" where
  "send_soon lib m v w =
     (case encode_server_message lib v of
        None \<Rightarrow> (Some WsValueError, w)
      | Some payload \<Rightarrow> (None, w\<lparr>ww_conns := snd (ws_offer m payload (ww_conns w))\<rparr>))"

definition ws_join :: "ws_lib \<Rightarrow> room_member \<Rightarrow> connection \<Rightarrow> string \<Rightarrow> ws_world \<Rightarrow> ws_exn option \<times> ws_world" where
  "ws_join lib m c room w =
     (let current = rooms_of (ww_rooms w) m in
      if room \<notin> set current \<and> int (length current) \<ge> c_max_rooms c then
        send_soon lib m (error_message ROOM_LIMIT_REACHED
          (''This connection may be in at most '' @ decimal (nat (c_max_rooms c)) @ '' rooms.'') None) w
      else
        (case join room m (ww_rooms w) of
           (members, reg) \<Rightarrow>
             send_soon lib m (JObj [(''type'', JStr (server_type_value JOINED)), (''room'', JStr room), (''members'', JInt members)])
               (w\<lparr>ww_rooms := reg\<rparr>)))"

definition ws_leave :: "ws_lib \<Rightarrow> room_member \<Rightarrow> string \<Rightarrow> ws_world \<Rightarrow> ws_exn option \<times> ws_world" where
  "ws_leave lib m room w =
     (case leave room m (ww_rooms w) of
        (False, reg) \<Rightarrow>
          send_soon lib m (error_message NOT_IN_ROOM (''This connection is not in '' @ lib_repr lib room @ ''.'') None) (w\<lparr>ww_rooms := reg\<rparr>)
      | (True, reg) \<Rightarrow>
          send_soon lib m (JObj [(''type'', JStr (server_type_value LEFT)), (''room'', JStr room)]) (w\<lparr>ww_rooms := reg\<rparr>))"

definition published_body :: "connection \<Rightarrow> string \<Rightarrow> string \<Rightarrow> json \<Rightarrow> json" where
  "published_body c room sent_at data =
     JObj [(''type'', JStr (server_type_value MESSAGE)), (''room'', JStr room), (''from'', JStr (c_user c)),
           (''sent_at'', JStr sent_at), (''data'', data)]"

definition ws_publish ::
    "ws_lib \<Rightarrow> room_member \<Rightarrow> connection \<Rightarrow> string \<Rightarrow> string \<Rightarrow> json \<Rightarrow> ws_world \<Rightarrow> ws_exn option \<times> ws_world" where
  "ws_publish lib m c sent_at room data w =
     (if \<not> registry_contains (ww_rooms w) room m then
        send_soon lib m (error_message NOT_IN_ROOM (''Join '' @ lib_repr lib room @ '' before publishing to it.'') None) w
      else
        (case encode_server_message lib (published_body c room sent_at data) of
           None \<Rightarrow> send_soon lib m (error_message INVALID_FIELD ''Payload cannot be serialised'' None) w
         | Some payload \<Rightarrow>
             (case broadcast ws_offer room payload (Some m) (ww_rooms w) (ww_conns w) of
                (_, reg, cs) \<Rightarrow> (None, \<lparr>ww_rooms = reg, ww_conns = cs\<rparr>))))"

definition ws_dispatch ::
    "ws_lib \<Rightarrow> room_member \<Rightarrow> connection \<Rightarrow> string \<Rightarrow> client_message \<Rightarrow> ws_world \<Rightarrow> ws_exn option \<times> ws_world" where
  "ws_dispatch lib m c sent_at msg w =
     (if cm_type msg = PING then send_soon lib m (JObj [(''type'', JStr (server_type_value PONG))]) w
      else
        (let room = the (cm_room msg) in
         case room_name_error room of
           Some text \<Rightarrow> send_soon lib m (error_message INVALID_ROOM text None) w
         | None \<Rightarrow>
             (case cm_type msg of
                JOIN \<Rightarrow> ws_join lib m c room w
              | LEAVE \<Rightarrow> ws_leave lib m room w
              | _ \<Rightarrow> ws_publish lib m c sent_at room (cm_data msg) w)))"

text \<open>
  \<open>_admit\<close>: \<open>Inl\<close> is an exception that leaves the receive loop, \<open>Inr False\<close> its end. \<open>t\<close> are the
  limiter's clock readings and \<open>sent_at\<close> the time written into a published message.
\<close>

definition ws_admit ::
    "ws_lib \<Rightarrow> clock4 \<Rightarrow> string \<Rightarrow> room_member \<Rightarrow> connection \<Rightarrow> string \<Rightarrow> ws_world \<Rightarrow> (ws_exn + bool) \<times> ws_world" where
  "ws_admit lib t sent_at m c text w =
     (let continue = (\<lambda>(r, w1). (case r of None \<Rightarrow> Inr True | Some e \<Rightarrow> Inl e, w1));
          (d, l) = limiter_offer t (int (length (utf8 text))) (c_limiter c);
          w1 = on_conn m (\<lambda>c. c\<lparr>c_limiter := l\<rparr>) w in
      if \<not> allowed d then
        (if disconnect d then
           (Inr False, on_conn m (\<lambda>c. c\<lparr>c_close_code := CLOSE_RATE_LIMITED,
              c_close_note := ''too many messages; slow down before reconnecting''\<rparr>) w1)
         else
           continue (send_soon lib m (error_message RATE_LIMITED ''Message rate exceeded; this message was not processed.''
             (Some (wait d))) w1))
      else
        (case decode_client_message lib text (c_max_bytes c) of
           Inl (Malformed code reason) \<Rightarrow> continue (send_soon lib m (error_message code reason None) w1)
         | Inl (DecodeRaises e) \<Rightarrow> (Inl e, w1)
         | Inr msg \<Rightarrow> continue (ws_dispatch lib m c sent_at msg w1)))"

datatype inbound = Disconnected | Binary | Text string

definition still_open :: "ws_world \<Rightarrow> room_member \<Rightarrow> bool" where
  "still_open w m \<longleftrightarrow> (case ww_conns w m of Some c \<Rightarrow> \<not> c_terminated c | None \<Rightarrow> False)"

definition on_message ::
    "ws_lib \<Rightarrow> seconds \<Rightarrow> clock4 \<Rightarrow> string \<Rightarrow> room_member \<Rightarrow> connection \<Rightarrow> inbound \<Rightarrow> ws_world \<Rightarrow> (ws_exn + bool) \<times> ws_world" where
  "on_message lib now t sent_at m c msg w =
     (case msg of
        Disconnected \<Rightarrow> (Inr False, on_conn m (\<lambda>c. c\<lparr>c_close_code := GOING_AWAY, c_close_note := ''client disconnected''\<rparr>) w)
      | Binary \<Rightarrow> (Inr False, on_conn m (\<lambda>c. c\<lparr>c_close_code := PROTOCOL_ERROR,
                    c_close_note := ''binary frames are not accepted; send JSON text''\<rparr>) w)
      | Text text \<Rightarrow>
          (case ws_admit lib t sent_at m c text (on_conn m (\<lambda>c. c\<lparr>c_received := c_received c + 1, c_last_message := now\<rparr>) w) of
             (Inl e, w1) \<Rightarrow> (Inl e, w1)
           | (Inr False, w1) \<Rightarrow> (Inr False, w1)
           | (Inr True, w1) \<Rightarrow> (Inr (still_open w1 m), w1)))"

definition ready_body :: "string \<Rightarrow> connection_args \<Rightarrow> json" where
  "ready_body cid a =
     JObj [(''type'', JStr (server_type_value READY)), (''connection_id'', JStr cid), (''user_id'', JStr (a_user a)),
           (''expires_at'', JStr (a_expires_iso a))]"

text \<open>
  The steps. \<open>serve\<close> is the start of \<open>run\<close>; \<open>message\<close> a frame handled, after which the loop goes on or
  ends; \<open>deadline\<close> a timer, \<open>ended\<close> the overflow another connection caused, \<open>lost\<close> the exception of
  \<open>receive\<close>, \<open>cancel\<close> a cancelled endpoint. \<open>send\<close>, \<open>send_fails\<close> and \<open>send_stop\<close> are the writer's;
  \<open>finish\<close> is the end of \<open>run\<close>; \<open>shutdown\<close> empties the rooms.
\<close>

inductive ws_step :: "ws_lib \<Rightarrow> ws_world \<Rightarrow> ws_world \<Rightarrow> bool" for lib where
  serve: "ww_conns w m = None \<Longrightarrow> new_connection a started = Some c \<Longrightarrow>
     send_soon lib m (ready_body cid a) (w\<lparr>ww_conns := (ww_conns w)(m \<mapsto> c)\<rparr>) = (r, w') \<Longrightarrow> ws_step lib w w'"
| message: "ww_conns w m = Some c \<Longrightarrow> c_phase c = Serving \<Longrightarrow> on_message lib now t sent_at m c msg w = (r, w') \<Longrightarrow>
     ws_step lib w (if r = Inr True then w' else on_conn m begin_flush w')"
| deadline: "ww_conns w m = Some c \<Longrightarrow> c_phase c = Serving \<Longrightarrow> next_deadline lib now c = (budget, code, note) \<Longrightarrow>
     ws_step lib w (on_conn m (\<lambda>c. begin_flush (c\<lparr>c_close_code := code, c_close_note := note\<rparr>)) w)"
| ended: "ww_conns w m = Some c \<Longrightarrow> c_phase c = Serving \<Longrightarrow> c_ended c \<Longrightarrow> ws_step lib w (on_conn m begin_flush w)"
| lost: "ww_conns w m = Some c \<Longrightarrow> c_phase c = Serving \<Longrightarrow>
     ws_step lib w (on_conn m (\<lambda>c. (begin_flush c)\<lparr>c_close_code := GOING_AWAY, c_close_note := ''client disconnected''\<rparr>) w)"
| cancel: "ww_conns w m = Some c \<Longrightarrow> c_phase c = Serving \<Longrightarrow> ws_step lib w (on_conn m begin_flush w)"
| send: "ww_conns w m = Some c \<Longrightarrow> c_writing c \<Longrightarrow> c_queue c = Frame f # q \<Longrightarrow>
     ws_step lib w (on_conn m (\<lambda>c. c\<lparr>c_queue := q, c_sent := c_sent c + 1, c_written := c_written c @ [f]\<rparr>) w)"
| send_fails: "ww_conns w m = Some c \<Longrightarrow> c_writing c \<Longrightarrow> c_queue c = Frame f # q \<Longrightarrow>
     ws_step lib w (on_conn m (\<lambda>c. c\<lparr>c_queue := q, c_writing := False\<rparr>) w)"
| send_stop: "ww_conns w m = Some c \<Longrightarrow> c_writing c \<Longrightarrow> c_queue c = Stop # q \<Longrightarrow>
     ws_step lib w (on_conn m (\<lambda>c. c\<lparr>c_queue := q, c_writing := False\<rparr>) w)"
| finish: "ww_conns w m = Some c \<Longrightarrow> c_phase c = Flushing \<Longrightarrow>
     ws_step lib w (on_conn m (\<lambda>c. c\<lparr>c_phase := Over, c_writing := False\<rparr>) (w\<lparr>ww_rooms := snd (leave_all m (ww_rooms w))\<rparr>))"
| shutdown: "ws_step lib w (w\<lparr>ww_rooms := snd (registry_close None (ww_rooms w))\<rparr>)"

abbreviation ws_reachable :: "ws_lib \<Rightarrow> ws_world \<Rightarrow> bool" where
  "ws_reachable lib \<equiv> reach (\<lambda>w. w = new_ws_world) (ws_step lib)"

section \<open>Lemmas\<close>

subsection \<open>The queue of a connection\<close>

text \<open>
  The queue holds frames and then at most one stop marker, which a connection that is not terminated
  does not have. What it took is what was written, then what a failed writer left behind, then what
  is queued.
\<close>

definition conn_ok :: "connection \<Rightarrow> bool" where
  "conn_ok c \<longleftrightarrow> 1 \<le> c_buffer c \<and> c_sent c = int (length (c_written c)) \<and>
     (\<exists>fs mid. (c_queue c = map Frame fs \<or> c_terminated c \<and> c_queue c = map Frame fs @ [Stop]) \<and>
        int (length fs) \<le> c_buffer c \<and> c_accepted c = c_written c @ mid @ fs \<and> (c_writing c \<longrightarrow> mid = [])) \<and>
     (c_terminated c \<longrightarrow> c_ended c \<or> c_phase c \<noteq> Serving)"

definition frames_of :: "out_item list \<Rightarrow> string list" where
  "frames_of q = concat (map (\<lambda>x. case x of Frame f \<Rightarrow> [f] | Stop \<Rightarrow> []) q)"

lemma frames_of_simps [simp]: "frames_of (map Frame fs) = fs" "frames_of (map Frame fs @ [Stop]) = fs"
  by (induction fs) (simp_all add: frames_of_def)

lemma conn_okI:
  assumes "1 \<le> c_buffer c" "c_sent c = int (length (c_written c))" "c_terminated c \<Longrightarrow> c_ended c \<or> c_phase c \<noteq> Serving"
    and "c_queue c = map Frame fs \<or> c_terminated c \<and> c_queue c = map Frame fs @ [Stop]"
    and "int (length fs) \<le> c_buffer c" "c_accepted c = c_written c @ mid @ fs" "c_writing c \<Longrightarrow> mid = []"
  shows "conn_ok c"
  unfolding conn_ok_def using assms by blast

lemma conn_okE:
  assumes "conn_ok c"
  obtains fs mid where "1 \<le> c_buffer c" "c_sent c = int (length (c_written c))" "c_terminated c \<longrightarrow> c_ended c \<or> c_phase c \<noteq> Serving"
    "c_queue c = map Frame fs \<or> c_terminated c \<and> c_queue c = map Frame fs @ [Stop]" "int (length fs) \<le> c_buffer c"
    "c_accepted c = c_written c @ mid @ fs" "c_writing c \<longrightarrow> mid = []"
  using assms unfolding conn_ok_def by blast

lemma conn_ok_fields [simp]:
  "conn_ok (c\<lparr>c_limiter := l\<rparr>) = conn_ok c" "conn_ok (c\<lparr>c_close_code := code, c_close_note := note\<rparr>) = conn_ok c"
  "conn_ok (c\<lparr>c_received := n, c_last_message := now\<rparr>) = conn_ok c"
  by (simp_all add: conn_ok_def)

lemma conn_ok_new: "new_connection a started = Some c \<Longrightarrow> conn_ok c \<and> c_phase c = Serving \<and> c_max_rooms c \<ge> 1"
  by (auto simp: new_connection_def connection_error_def Let_def split: if_splits intro!: conn_okI [where fs = "[]" and mid = "[]"])

lemma conn_ok_offer:
  assumes "conn_ok c" "connection_offer p c = (b, c')"
  shows "conn_ok c' \<and> c_phase c' = c_phase c \<and> c_max_rooms c' = c_max_rooms c \<and> c_accepted c' = c_accepted c @ (if b then [p] else []) \<and>
    c_terminated c' = (c_terminated c \<or> \<not> b) \<and> (c_terminated c \<longrightarrow> \<not> b)"
proof -
  from assms(1) obtain fs mid where c: "1 \<le> c_buffer c" "c_sent c = int (length (c_written c))" "c_terminated c \<longrightarrow> c_ended c \<or> c_phase c \<noteq> Serving"
      "c_queue c = map Frame fs \<or> c_terminated c \<and> c_queue c = map Frame fs @ [Stop]" "int (length fs) \<le> c_buffer c"
      "c_accepted c = c_written c @ mid @ fs" "c_writing c \<longrightarrow> mid = []"
    by (rule conn_okE)
  consider "c_terminated c" "c' = c" "\<not> b"
    | "\<not> c_terminated c" "\<not> b" "c' = c\<lparr>c_terminated := True, c_queue := c_queue c @ [Stop], c_close_code := OVERFLOW,
          c_close_note := ''too far behind; reconnect and refetch state'', c_ended := True\<rparr>"
    | "\<not> c_terminated c" b "c' = c\<lparr>c_queue := c_queue c @ [Frame p], c_accepted := c_accepted c @ [p]\<rparr>" "int (length (c_queue c)) < c_buffer c"
    using assms(2) by (auto simp: connection_offer_def split: if_splits)
  then show ?thesis
  proof cases
    case 1
    with assms(1) show ?thesis by simp
  next
    case 2
    with c have "conn_ok c'" by (intro conn_okI [where fs = fs and mid = mid]) auto
    with 2 show ?thesis by simp
  next
    case 3
    with c have "conn_ok c'" by (intro conn_okI [where fs = "fs @ [p]" and mid = mid]) auto
    with 3 show ?thesis by simp
  qed
qed

lemma conn_ok_flush: "conn_ok c \<Longrightarrow> conn_ok (begin_flush c)"
  by (erule conn_okE) (auto simp: begin_flush_def intro!: conn_okI)

lemma flush_fields [simp]: "c_phase (begin_flush c) = Flushing" "c_max_rooms (begin_flush c) = c_max_rooms c" "c_terminated (begin_flush c)"
  "c_accepted (begin_flush c) = c_accepted c" "c_written (begin_flush c) = c_written c"
  by (simp_all add: begin_flush_def)

lemma conn_ok_send:
  assumes "conn_ok c" "c_writing c" "c_queue c = Frame f # q"
  shows "conn_ok (c\<lparr>c_queue := q, c_sent := c_sent c + 1, c_written := c_written c @ [f]\<rparr>)"
    "conn_ok (c\<lparr>c_queue := q, c_writing := False\<rparr>)"
proof -
  from assms(1) obtain fs mid where c: "1 \<le> c_buffer c" "c_sent c = int (length (c_written c))" "c_terminated c \<longrightarrow> c_ended c \<or> c_phase c \<noteq> Serving"
      "c_queue c = map Frame fs \<or> c_terminated c \<and> c_queue c = map Frame fs @ [Stop]" "int (length fs) \<le> c_buffer c"
      "c_accepted c = c_written c @ mid @ fs" "c_writing c \<longrightarrow> mid = []"
    by (rule conn_okE)
  then obtain fs' where fs: "fs = f # fs'" using assms(3) by (cases fs) auto
  with c assms(2,3) show "conn_ok (c\<lparr>c_queue := q, c_sent := c_sent c + 1, c_written := c_written c @ [f]\<rparr>)"
    by (intro conn_okI [where fs = fs' and mid = "[]"]) auto
  from c assms(2,3) fs show "conn_ok (c\<lparr>c_queue := q, c_writing := False\<rparr>)"
    by (intro conn_okI [where fs = fs' and mid = "[f]"]) auto
qed

lemma conn_ok_stop:
  assumes "conn_ok c" "c_queue c = Stop # q"
  shows "conn_ok (c\<lparr>c_queue := q, c_writing := False\<rparr>)"
proof -
  from assms(1) obtain fs mid where c: "1 \<le> c_buffer c" "c_sent c = int (length (c_written c))" "c_terminated c \<longrightarrow> c_ended c \<or> c_phase c \<noteq> Serving"
      "c_queue c = map Frame fs \<or> c_terminated c \<and> c_queue c = map Frame fs @ [Stop]" "int (length fs) \<le> c_buffer c"
      "c_accepted c = c_written c @ mid @ fs" "c_writing c \<longrightarrow> mid = []"
    by (rule conn_okE)
  then have "fs = []" "q = []" using assms(2) by (cases fs; auto)+
  with c show ?thesis by (intro conn_okI [where fs = "[]" and mid = mid]) auto
qed

subsection \<open>A connection as a room member\<close>

definition conn_inbox :: "(room_member \<Rightarrow> connection option) \<Rightarrow> room_member \<Rightarrow> string list" where
  "conn_inbox cs m = (case cs m of Some c \<Rightarrow> c_accepted c | None \<Rightarrow> [])"

definition conn_over :: "(room_member \<Rightarrow> connection option) \<Rightarrow> room_member \<Rightarrow> bool" where
  "conn_over cs m = (case cs m of Some c \<Rightarrow> c_terminated c | None \<Rightarrow> True)"

lemma conn_view_upd: "conn_inbox (cs(m \<mapsto> c)) = (conn_inbox cs)(m := c_accepted c)" "conn_over (cs(m \<mapsto> c)) = (conn_over cs)(m := c_terminated c)"
  by (simp_all add: conn_inbox_def conn_over_def fun_eq_iff)

lemma ws_offer_view:
  assumes "ws_offer m p cs = (b, cs')"
  shows "conn_inbox cs' = (conn_inbox cs)(m := conn_inbox cs m @ (if b then [p] else []))" "conn_over cs' = (conn_over cs)(m := conn_over cs m \<or> \<not> b)"
proof -
  have "conn_inbox cs' = (conn_inbox cs)(m := conn_inbox cs m @ (if b then [p] else [])) \<and> conn_over cs' = (conn_over cs)(m := conn_over cs m \<or> \<not> b)"
  proof (cases "cs m")
    case None
    with assms have "cs' = cs" "\<not> b" "conn_over cs m" by (auto simp: ws_offer_def conn_over_def)
    then show ?thesis by (simp add: fun_upd_idem)
  next
    case (Some c)
    then obtain c' where c': "connection_offer p c = (b, c')" "cs' = cs(m \<mapsto> c')" using assms by (auto simp: ws_offer_def split: prod.splits)
    have "c_accepted c' = conn_inbox cs m @ (if b then [p] else [])" "c_terminated c' = (conn_over cs m \<or> \<not> b)"
      using c'(1) Some by (auto simp: connection_offer_def conn_inbox_def conn_over_def split: if_splits)
    with c'(2) show ?thesis by (simp add: conn_view_upd)
  qed
  then show "conn_inbox cs' = (conn_inbox cs)(m := conn_inbox cs m @ (if b then [p] else []))" "conn_over cs' = (conn_over cs)(m := conn_over cs m \<or> \<not> b)"
    by blast+
qed

interpretation conns: room_members ws_offer conn_inbox conn_over
  by unfold_locales (auto dest: ws_offer_view)

definition conns_ok :: "(room_member \<Rightarrow> connection option) \<Rightarrow> bool" where
  "conns_ok cs \<longleftrightarrow> (\<forall>m c. cs m = Some c \<longrightarrow> conn_ok c)"

text \<open>What the registry must know of a connection: whether \<open>run\<close> is over and how many rooms it may have.\<close>

definition seat :: "(room_member \<Rightarrow> connection option) \<Rightarrow> room_member \<Rightarrow> (bool \<times> int) option" where
  "seat cs m = map_option (\<lambda>c. (c_phase c = Over, c_max_rooms c)) (cs m)"

lemma ws_offer_keeps:
  assumes "conns_ok cs" "ws_offer m p cs = (b, cs')"
  shows "conns_ok cs' \<and> seat cs' = seat cs"
proof (cases "cs m")
  case None
  with assms show ?thesis by (auto simp: ws_offer_def)
next
  case (Some c)
  then obtain c' where c': "connection_offer p c = (b, c')" "cs' = cs(m \<mapsto> c')" using assms(2) by (auto simp: ws_offer_def split: prod.splits)
  have "conn_ok c" using assms(1) Some by (simp add: conns_ok_def)
  from conn_ok_offer [OF this c'(1)] assms(1) Some c'(2) show ?thesis by (simp add: conns_ok_def seat_def fun_eq_iff)
qed

lemma broadcast_keeps:
  assumes "\<And>m s b s'. P s \<Longrightarrow> offer m p s = (b, s') \<Longrightarrow> P s'"
  shows "P s \<Longrightarrow> broadcast_loop offer p exclude ms reg s = (n, reg', s') \<Longrightarrow> P s'"
proof (induction ms arbitrary: reg s n)
  case (Cons m ms)
  obtain b s1 where o: "offer m p s = (b, s1)" by fastforce
  from Cons.prems o show ?case
    using Cons.IH [of s] Cons.IH [of s1] assms [OF Cons.prems(1) o] by (cases b) (auto split: if_splits prod.splits)
qed simp

subsection \<open>All connections\<close>

definition seats_ok :: "(room_member \<Rightarrow> string list) \<Rightarrow> (room_member \<Rightarrow> (bool \<times> int) option) \<Rightarrow> bool" where
  "seats_ok ro st \<longleftrightarrow> (\<forall>m. ro m \<noteq> [] \<longrightarrow> (\<exists>k. st m = Some (False, k) \<and> int (length (ro m)) \<le> k))"

definition ws_ok :: "ws_world \<Rightarrow> bool" where
  "ws_ok w \<longleftrightarrow> registry_ok (ww_rooms w) \<and> conns_ok (ww_conns w) \<and> seats_ok (rooms_of (ww_rooms w)) (seat (ww_conns w))"

text \<open>The invariant holds afterwards and no connection moved to another phase.\<close>

definition kept :: "ws_world \<Rightarrow> ws_world \<Rightarrow> bool" where
  "kept w w' \<longleftrightarrow> ws_ok w' \<and> seat (ww_conns w') = seat (ww_conns w)"

lemma kept_refl: "ws_ok w \<Longrightarrow> kept w w"
  by (simp add: kept_def)

lemma kept_trans: "kept w w' \<Longrightarrow> (ws_ok w' \<Longrightarrow> kept w' w'') \<Longrightarrow> kept w w''"
  by (simp add: kept_def)

lemma kept_on_conn:
  assumes "ws_ok w" "\<And>c. conn_ok c \<Longrightarrow> conn_ok (f c) \<and> (c_phase (f c) = Over) = (c_phase c = Over) \<and> c_max_rooms (f c) = c_max_rooms c"
  shows "kept w (on_conn m f w)"
proof -
  have "conns_ok (ww_conns (on_conn m f w))" using assms by (auto simp: on_conn_def ws_ok_def conns_ok_def)
  moreover have "seat (ww_conns (on_conn m f w)) = seat (ww_conns w)"
    using assms by (auto simp: on_conn_def ws_ok_def conns_ok_def seat_def fun_eq_iff option.map_comp split: option.splits intro!: option.map_cong)
  ultimately show ?thesis using assms(1) by (simp add: kept_def ws_ok_def) (simp add: on_conn_def)
qed

lemma kept_send:
  assumes "ws_ok w" "send_soon lib m v w = (r, w')"
  shows "kept w w'"
proof (cases "encode_server_message lib v")
  case None
  with assms show ?thesis by (auto simp: send_soon_def kept_refl)
next
  case (Some p)
  then have w': "w' = w\<lparr>ww_conns := snd (ws_offer m p (ww_conns w))\<rparr>" using assms(2) by (auto simp: send_soon_def)
  have "conns_ok (ww_conns w)" using assms(1) by (simp add: ws_ok_def)
  from ws_offer_keeps [OF this surjective_pairing] assms(1) w' show ?thesis by (auto simp: kept_def ws_ok_def)
qed

lemma seats_shrink: "seats_ok ro st \<Longrightarrow> (\<And>m. ro' m = [] \<or> length (ro' m) \<le> length (ro m)) \<Longrightarrow> seats_ok ro' st"
  unfolding seats_ok_def
proof (intro allI impI)
  fix m assume *: "\<forall>m. ro m \<noteq> [] \<longrightarrow> (\<exists>k. st m = Some (False, k) \<and> int (length (ro m)) \<le> k)"
    "\<And>m. ro' m = [] \<or> length (ro' m) \<le> length (ro m)" "ro' m \<noteq> []"
  have le: "length (ro' m) \<le> length (ro m)" using *(2) [of m] *(3) by simp
  with *(3) have "ro m \<noteq> []" by auto
  with *(1) obtain k where "st m = Some (False, k)" "int (length (ro m)) \<le> k" by blast
  with le show "\<exists>k. st m = Some (False, k) \<and> int (length (ro' m)) \<le> k" by simp
qed

lemma kept_join:
  assumes w: "ws_ok w" "ww_conns w m = Some c" "c_phase c \<noteq> Over" and j: "ws_join lib m c room w = (r, w')"
  shows "kept w w'"
proof (cases "room \<notin> set (rooms_of (ww_rooms w) m) \<and> int (length (rooms_of (ww_rooms w) m)) \<ge> c_max_rooms c")
  case True
  with j w(1) show ?thesis by (auto simp: ws_join_def Let_def intro: kept_send)
next
  case False
  then obtain n reg where reg: "join room m (ww_rooms w) = (n, reg)"
      "send_soon lib m (JObj [(''type'', JStr (server_type_value JOINED)), (''room'', JStr room), (''members'', JInt n)]) (w\<lparr>ww_rooms := reg\<rparr>) = (r, w')"
    using j by (auto simp: ws_join_def Let_def split: prod.splits)
  have ok: "registry_ok (ww_rooms w)" using w(1) by (simp add: ws_ok_def)
  note spec = join_spec [OF ok reg(1)]
  have "seats_ok (rooms_of reg) (seat (ww_conns w))"
    unfolding seats_ok_def
  proof (intro allI impI)
    fix m' assume "rooms_of reg m' \<noteq> []"
    show "\<exists>k. seat (ww_conns w) m' = Some (False, k) \<and> int (length (rooms_of reg m')) \<le> k"
    proof (cases "m' = m")
      case True
      have "int (length (rooms_of reg m)) \<le> c_max_rooms c"
      proof (cases "m \<in> set (members_in (ww_rooms w) room)")
        case True
        then have "rooms_of reg m = rooms_of (ww_rooms w) m" "rooms_of (ww_rooms w) m \<noteq> []" using spec registry_agree [OF ok, of m room] by auto
        with w show ?thesis by (auto simp: ws_ok_def seats_ok_def seat_def)
      next
        case out: False
        with False spec registry_agree [OF ok, of m room] show ?thesis by auto
      qed
      with w True show ?thesis by (auto simp: seat_def)
    next
      case False
      with spec have "rooms_of reg m' = rooms_of (ww_rooms w) m'" by auto
      with w(1) \<open>rooms_of reg m' \<noteq> []\<close> show ?thesis by (simp add: ws_ok_def seats_ok_def)
    qed
  qed
  with w(1) spec have "kept w (w\<lparr>ww_rooms := reg\<rparr>)" by (simp add: kept_def ws_ok_def)
  then show ?thesis using kept_send [OF _ reg(2)] by (rule kept_trans) simp
qed

lemma kept_leave:
  assumes w: "ws_ok w" and l: "ws_leave lib m room w = (r, w')"
  shows "kept w w'"
proof -
  obtain b reg where reg: "leave room m (ww_rooms w) = (b, reg)" by fastforce
  have ok: "registry_ok (ww_rooms w)" using w by (simp add: ws_ok_def)
  note spec = leave_spec [OF ok reg]
  have "seats_ok (rooms_of reg) (seat (ww_conns w))"
    by (rule seats_shrink [of "rooms_of (ww_rooms w)"]) (use w spec in \<open>auto simp: ws_ok_def length_removeAll_less_eq\<close>)
  with w spec have k: "kept w (w\<lparr>ww_rooms := reg\<rparr>)" by (simp add: kept_def ws_ok_def)
  from l reg obtain v where "send_soon lib m v (w\<lparr>ww_rooms := reg\<rparr>) = (r, w')" by (cases b) (auto simp: ws_leave_def)
  with k show ?thesis using kept_send by (blast intro: kept_trans)
qed

lemma kept_publish:
  assumes w: "ws_ok w" and l: "ws_publish lib m c sent_at room v w = (r, w')"
  shows "kept w w'"
proof (cases "registry_contains (ww_rooms w) room m \<and> encode_server_message lib (published_body c room sent_at v) \<noteq> None")
  case False
  with l obtain u where "send_soon lib m u w = (r, w')" by (auto simp: ws_publish_def split: if_splits)
  with w show ?thesis by (rule kept_send)
next
  case True
  then obtain p n reg cs where p: "broadcast_loop ws_offer p (Some m) (members_in (ww_rooms w) room) (ww_rooms w) (ww_conns w) = (n, reg, cs)"
      "w' = \<lparr>ww_rooms = reg, ww_conns = cs\<rparr>"
    using l by (auto simp: ws_publish_def broadcast_def split: option.splits prod.splits)
  have ok: "registry_ok (ww_rooms w)" "conns_ok (ww_conns w)" using w by (simp_all add: ws_ok_def)
  have cs: "conns_ok cs \<and> seat cs = seat (ww_conns w)"
    by (rule broadcast_keeps [OF _ _ p(1), where P = "\<lambda>s. conns_ok s \<and> seat s = seat (ww_conns w)"]) (use ok ws_offer_keeps in auto)
  obtain gone where "reg = leave_each gone (ww_rooms w)" using conns.broadcast_loop_spec [OF p(1) members_distinct [OF ok(1)]] by blast
  with leave_each_spec [OF ok(1), of gone]
  have reg: "registry_ok reg" and ro: "rooms_of reg = (\<lambda>m. if m \<in> set gone then [] else rooms_of (ww_rooms w) m)" by simp_all
  have "seats_ok (rooms_of (ww_rooms w)) (seat (ww_conns w))" using w by (simp add: ws_ok_def)
  then have "seats_ok (rooms_of reg) (seat (ww_conns w))" by (rule seats_shrink) (simp add: ro)
  with reg cs p(2) show ?thesis by (simp add: kept_def ws_ok_def)
qed

lemma kept_dispatch:
  assumes "ws_ok w" "ww_conns w m = Some c'" "c_phase c' \<noteq> Over" "c_max_rooms c' = c_max_rooms c" "ws_dispatch lib m c sent_at msg w = (r, w')"
  shows "kept w w'"
proof -
  have "ws_join lib m c room w = ws_join lib m c' room w" for room unfolding ws_join_def assms(4) ..
  then show ?thesis
    using assms kept_join [OF assms(1-3)]
    by (auto simp: ws_dispatch_def Let_def split: if_splits option.splits client_message_type.splits intro: kept_send kept_leave kept_publish)
qed

lemma seat_phase:
  assumes "seat cs' = seat cs" "cs m = Some c"
  obtains c' where "cs' m = Some c'" "(c_phase c' = Over) = (c_phase c = Over)" "c_max_rooms c' = c_max_rooms c"
  using fun_cong [OF assms(1), of m] assms(2) by (auto simp: seat_def)

lemma kept_admit:
  assumes w: "ws_ok w" and m: "ww_conns w m = Some c'" "c_phase c' \<noteq> Over" "c_max_rooms c' = c_max_rooms c"
    and a: "ws_admit lib t sent_at m c text w = (r, w')"
  shows "kept w w'"
proof -
  obtain d l where d: "limiter_offer t (int (length (utf8 text))) (c_limiter c) = (d, l)" by fastforce
  define w1 where "w1 = on_conn m (\<lambda>c. c\<lparr>c_limiter := l\<rparr>) w"
  have k1: "kept w w1" unfolding w1_def by (rule kept_on_conn [OF w]) simp
  then have w1: "ws_ok w1" by (simp add: kept_def)
  have m1: "ww_conns w1 m = Some (c'\<lparr>c_limiter := l\<rparr>)" using m by (simp add: w1_def on_conn_def)
  have "kept w1 w'"
  proof (cases "allowed d")
    case False
    show ?thesis
    proof (cases "disconnect d")
      case True
      with False a have "w' = on_conn m (\<lambda>c. c\<lparr>c_close_code := CLOSE_RATE_LIMITED,
          c_close_note := ''too many messages; slow down before reconnecting''\<rparr>) w1"
        by (simp add: ws_admit_def d w1_def Let_def)
      then show ?thesis by (simp only:) (rule kept_on_conn [OF w1], simp)
    next
      case nodis: False
      with False a obtain v r' where "send_soon lib m v w1 = (r', w')"
        by (auto simp: ws_admit_def d w1_def Let_def split: prod.splits)
      with w1 show ?thesis by (rule kept_send)
    qed
  next
    case True
    from m1 m have m1': "c_phase (c'\<lparr>c_limiter := l\<rparr>) \<noteq> Over" "c_max_rooms (c'\<lparr>c_limiter := l\<rparr>) = c_max_rooms c" by simp_all
    consider e where "decode_client_message lib text (c_max_bytes c) = Inl (DecodeRaises e)" "w' = w1"
      | v r' where "send_soon lib m v w1 = (r', w')"
      | msg r' where "ws_dispatch lib m c sent_at msg w1 = (r', w')"
      using True a by (auto simp: ws_admit_def d w1_def [symmetric] Let_def split: prod.splits sum.splits decode_error.splits)
    then show ?thesis
    proof cases
      case 1
      with w1 show ?thesis by (simp add: kept_refl)
    next
      case 2
      with w1 show ?thesis by (rule kept_send)
    next
      case 3
      with w1 m1 m1' show ?thesis by (rule kept_dispatch)
    qed
  qed
  with k1 show ?thesis by (auto intro: kept_trans)
qed

lemma kept_on_message:
  assumes w: "ws_ok w" and m: "ww_conns w m = Some c" "c_phase c \<noteq> Over" and a: "on_message lib now t sent_at m c msg w = (r, w')"
  shows "kept w w'"
proof (cases msg)
  case (Text body)
  define w1 where "w1 = on_conn m (\<lambda>c. c\<lparr>c_received := c_received c + 1, c_last_message := now\<rparr>) w"
  have k1: "kept w w1" unfolding w1_def by (rule kept_on_conn [OF w]) simp
  have m1: "ww_conns w1 m = Some (c\<lparr>c_received := c_received c + 1, c_last_message := now\<rparr>)" using m by (simp add: w1_def on_conn_def)
  obtain r' where "ws_admit lib t sent_at m c body w1 = (r', w')"
    using a Text by (auto simp: on_message_def w1_def split: prod.splits sum.splits bool.splits)
  from kept_admit [OF _ m1 _ _ this] m k1 show ?thesis by (auto simp: kept_def)
qed (use w a in \<open>auto simp: on_message_def intro!: kept_on_conn\<close>)

lemma ws_ok_on_conn:
  assumes "ws_ok w" "\<And>c. ww_conns w m = Some c \<Longrightarrow> conn_ok c \<Longrightarrow> conn_ok (f c) \<and> c_max_rooms (f c) = c_max_rooms c"
    and "\<And>c. ww_conns w m = Some c \<Longrightarrow> c_phase (f c) = Over \<Longrightarrow> rooms_of (ww_rooms w) m = [] \<or> c_phase c = Over"
  shows "ws_ok (on_conn m f w)"
proof -
  let ?cs = "ww_conns (on_conn m f w)"
  have "conns_ok ?cs" using assms(1,2) by (auto simp: on_conn_def ws_ok_def conns_ok_def)
  moreover have "\<exists>k. seat ?cs m' = Some (False, k) \<and> int (length (rooms_of (ww_rooms w) m')) \<le> k" if ne: "rooms_of (ww_rooms w) m' \<noteq> []" for m'
  proof -
    obtain c where c: "ww_conns w m' = Some c" "c_phase c \<noteq> Over" "int (length (rooms_of (ww_rooms w) m')) \<le> c_max_rooms c" "conn_ok c"
      using assms(1) ne by (fastforce simp: ws_ok_def seats_ok_def seat_def conns_ok_def)
    then show ?thesis using assms(2,3) ne by (cases "m' = m") (auto simp: seat_def on_conn_def)
  qed
  ultimately show ?thesis using assms(1) by (auto simp: ws_ok_def seats_ok_def on_conn_def)
qed

lemma ws_ok_rooms:
  assumes "ws_ok w" "registry_ok reg" "\<And>m. rooms_of reg m = [] \<or> rooms_of reg m = rooms_of (ww_rooms w) m"
  shows "ws_ok (w\<lparr>ww_rooms := reg\<rparr>)"
proof -
  have "seats_ok (rooms_of (ww_rooms w)) (seat (ww_conns w))" using assms(1) by (simp add: ws_ok_def)
  then have "seats_ok (rooms_of reg) (seat (ww_conns w))"
  proof (rule seats_shrink)
    show "rooms_of reg m = [] \<or> length (rooms_of reg m) \<le> length (rooms_of (ww_rooms w) m)" for m
      using assms(3) [of m] by auto
  qed
  with assms show ?thesis by (simp add: ws_ok_def)
qed

lemma ws_ok_init: "ws_ok new_ws_world"
  using registry_ok_new by (simp add: ws_ok_def new_ws_world_def conns_ok_def seats_ok_def) (simp add: new_registry_def rooms_of_def)

lemma ws_ok_step:
  assumes "ws_step lib w w'" "ws_ok w"
  shows "ws_ok w'"
  using assms
proof induction
  case (serve w m a started c cid r w')
  note c = conn_ok_new [OF serve(2)]
  let ?w = "w\<lparr>ww_conns := (ww_conns w)(m \<mapsto> c)\<rparr>"
  have none: "rooms_of (ww_rooms w) m = []" using serve(1,4) by (auto simp: ws_ok_def seats_ok_def seat_def)
  have "ws_ok ?w" using serve(4) c none by (auto simp: ws_ok_def conns_ok_def seats_ok_def seat_def)
  from kept_send [OF this serve(3)] show ?case by (simp add: kept_def)
next
  case (message w m c now t sent_at msg r w')
  then have "ws_ok w'" using kept_on_message by (auto simp: kept_def)
  then have "ws_ok (on_conn m begin_flush w')" by (rule ws_ok_on_conn) (simp_all add: conn_ok_flush)
  with \<open>ws_ok w'\<close> show ?case by simp
next
  case (send w m c f q)
  then show ?case by (intro ws_ok_on_conn) (auto intro: conn_ok_send)
next
  case (send_fails w m c f q)
  then show ?case by (intro ws_ok_on_conn) (auto intro: conn_ok_send)
next
  case (send_stop w m c q)
  then show ?case by (intro ws_ok_on_conn) (auto intro: conn_ok_stop)
next
  case (finish w m c)
  have ok: "registry_ok (ww_rooms w)" using finish(3) by (simp add: ws_ok_def)
  note spec = leave_all_spec [OF ok surjective_pairing, of m]
  have "ws_ok (w\<lparr>ww_rooms := snd (leave_all m (ww_rooms w))\<rparr>)" by (rule ws_ok_rooms [OF finish(3)]) (use spec in auto)
  then show ?case
  proof (rule ws_ok_on_conn)
    show "conn_ok (c\<lparr>c_phase := Over, c_writing := False\<rparr>) \<and> c_max_rooms (c\<lparr>c_phase := Over, c_writing := False\<rparr>) = c_max_rooms c"
      if "conn_ok c" for c
      using that by (auto simp: conn_ok_def)
  qed (use spec in auto)
next
  case (shutdown w)
  have ok: "registry_ok (ww_rooms w)" using shutdown by (simp add: ws_ok_def)
  show ?case by (rule ws_ok_rooms [OF shutdown]) (use leave_each_spec [OF ok] in \<open>auto simp: registry_close_def Let_def\<close>)
qed (auto intro!: ws_ok_on_conn simp: conn_ok_flush)

interpretation sockets: transitions "\<lambda>w. w = new_ws_world" "ws_step lib" ws_ok for lib
  by unfold_locales (auto intro: ws_ok_init ws_ok_step)

subsection \<open>Close reasons\<close>

lemma decode_ignore_ascii: "(of_char b :: nat) < 128 \<Longrightarrow> decode_ignore (b # bs) = b # decode_ignore bs"
  by (cases bs) simp_all

lemma decode_ignore_pair:
  assumes "128 \<le> (of_char c :: nat)"
  shows "decode_ignore (utf8_char c @ bs) = c # decode_ignore bs" "decode_ignore [hd (utf8_char c)] = []" "length (utf8_char c) = 2"
proof -
  have range: "192 + n div 64 < 256 \<and> 2 \<le> n div 64 \<and> n div 64 \<le> 3" if "128 \<le> n" "n < 256" for n :: nat
    using div_le_mono [of 128 n 64] div_le_mono [of n 255 64] that by simp
  have d: "192 + (of_char c :: nat) div 64 < 256" "2 \<le> (of_char c :: nat) div 64" "(of_char c :: nat) div 64 \<le> 3"
    using range [OF assms nat_of_char_less_256] by blast+
  then have lead: "(of_char (char_of (192 + (of_char c :: nat) div 64) :: char) :: nat) = 192 + (of_char c :: nat) div 64"
    by (intro of_char_char_of_small) simp
  have m: "(of_char c :: nat) mod 64 < 64" by simp
  then have cont: "(of_char (char_of (128 + (of_char c :: nat) mod 64) :: char) :: nat) = 128 + (of_char c :: nat) mod 64"
    by (intro of_char_char_of_small) linarith
  have u: "utf8_char c = [char_of (192 + (of_char c :: nat) div 64), char_of (128 + (of_char c :: nat) mod 64)]"
    using assms by (simp add: utf8_char_def Let_def)
  have v: "(of_char c :: nat) div 64 * 64 + (of_char c :: nat) mod 64 = of_char c" by simp
  show "decode_ignore (utf8_char c @ bs) = c # decode_ignore bs"
    using d m unfolding u append_Cons append_Nil decode_ignore.simps lead cont by (simp add: v)
  show "decode_ignore [hd (utf8_char c)] = []" unfolding u list.sel decode_ignore.simps lead by simp
  show "length (utf8_char c) = 2" unfolding u by simp
qed

lemma decode_ignore_take: "\<exists>k. decode_ignore (take n (utf8 t)) = take k t \<and> length (utf8 (take k t)) \<le> n"
proof (induction t arbitrary: n)
  case Nil
  then show ?case by (simp add: utf8_def)
next
  case (Cons c t)
  have u: "utf8 (c # t) = utf8_char c @ utf8 t" by (simp add: utf8_def)
  show ?case
  proof (cases "length (utf8_char c) \<le> n")
    case True
    with Cons.IH [of "n - length (utf8_char c)"] obtain k where
        k: "decode_ignore (take (n - length (utf8_char c)) (utf8 t)) = take k t" "length (utf8 (take k t)) \<le> n - length (utf8_char c)" by blast
    have "decode_ignore (utf8_char c @ bs) = c # decode_ignore bs" for bs
      using decode_ignore_pair(1) [of c bs] decode_ignore_ascii [of c bs] by (cases "(of_char c :: nat) < 128") (auto simp: utf8_char_def)
    moreover have "utf8 (take (Suc k) (c # t)) = utf8_char c @ utf8 (take k t)" by (simp add: utf8_def)
    ultimately show ?thesis using k True by (intro exI [of _ "Suc k"]) (simp add: u)
  next
    case False
    have "decode_ignore (take n (utf8_char c @ utf8 t)) = []"
    proof (cases "(of_char c :: nat) < 128")
      case True
      with False have "n = 0" by (simp add: utf8_char_def)
      then show ?thesis by simp
    next
      case big: False
      then have "n = 0 \<or> n = 1" "utf8_char c = hd (utf8_char c) # tl (utf8_char c)"
        using False decode_ignore_pair(3) [of c] by (auto simp: utf8_char_def Let_def)
      then have "take n (utf8_char c @ utf8 t) \<in> {[], [hd (utf8_char c)]}" by (metis One_nat_def append_Cons insertCI take0 take_Suc_Cons)
      with decode_ignore_pair(2) [of c] big show ?thesis by auto
    qed
    then show ?thesis by (intro exI [of _ 0]) (simp add: u utf8_def)
  qed
qed

lemma close_reason_fits: "length (utf8 (close_reason t)) \<le> MAX_CLOSE_REASON_BYTES \<and> (\<exists>k. close_reason t = take k t)"
  using decode_ignore_take [of MAX_CLOSE_REASON_BYTES t] by (auto simp: close_reason_def Let_def intro: exI [of _ "length t"])

subsection \<open>An example\<close>

text \<open>A reader that knows one message, a join of room \<open>a\<close>, and two connections that have sent it.\<close>

definition example_lib :: ws_lib where
  "example_lib = \<lparr>lib_loads = (\<lambda>t. Loaded (JObj [(''type'', JStr ''join''), (''room'', JStr ''a'')])), lib_dumps = (\<lambda>v. ''{}''),
     lib_repr = quoted, lib_general = (\<lambda>x. ''1'')\<rparr>"

definition example_limiter :: limiter where
  "example_limiter = the (new_limiter 10 2 100 50 3 0 0)"

definition example_args :: connection_args where
  "example_args = \<lparr>a_user = ''u'', a_expires_iso = ''x'', a_token_seconds = 60, a_limiter = example_limiter, a_max_rooms = 2, a_max_bytes = 20,
     a_buffer = 4, a_idle_timeout = 5, a_max_seconds = 100\<rparr>"

definition example_serve :: "room_member \<Rightarrow> ws_world \<Rightarrow> ws_world" where
  "example_serve m w =
     snd (send_soon example_lib m (ready_body ''c'' example_args) (w\<lparr>ww_conns := (ww_conns w)(m \<mapsto> the (new_connection example_args 0))\<rparr>))"

definition example_clock :: clock4 where
  "example_clock = \<lparr>at1 = 1, at2 = 1, at3 = 1, at4 = 1\<rparr>"

definition example_message :: "room_member \<Rightarrow> ws_world \<Rightarrow> (ws_exn + bool) \<times> ws_world" where
  "example_message m w = on_message example_lib 1 example_clock ''now'' m (the (ww_conns w m)) (Text ''j'') w"

definition two_served :: ws_world where
  "two_served = example_serve 1 (example_serve 0 new_ws_world)"

definition one_joined :: ws_world where
  "one_joined = snd (example_message 0 two_served)"

definition both_joined :: ws_world where
  "both_joined = snd (example_message 1 one_joined)"

lemma example_served:
  assumes "ws_reachable example_lib w" "ww_conns w m = None"
  shows "ws_reachable example_lib (example_serve m w)"
proof -
  have "\<not> Option.is_none (new_connection example_args 0)" by code_simp
  then have "new_connection example_args 0 = Some (the (new_connection example_args 0))" by (cases "new_connection example_args 0") auto
  from serve [OF assms(2) this surjective_pairing, of example_lib "''c''"] assms(1)
  show ?thesis unfolding example_serve_def by (blast intro: reach_step)
qed

lemma example_messaged:
  assumes "ws_reachable example_lib w" "ww_conns w m = Some c" "c_phase c = Serving" "fst (example_message m w) = Inr True"
  shows "ws_reachable example_lib (snd (example_message m w))"
proof -
  have "ws_step example_lib w (snd (example_message m w))"
    using message [OF assms(2,3) surjective_pairing, of example_lib 1 example_clock "''now''" "Text ''j''"] assms(2,4)
    by (simp add: example_message_def)
  with assms(1) show ?thesis by (blast intro: reach_step)
qed

lemma present: "\<not> Option.is_none x \<Longrightarrow> x = Some (the x)"
  by (cases x) simp_all

lemma both_joined_reachable: "ws_reachable example_lib both_joined"
proof -
  have 0: "ws_reachable example_lib new_ws_world" by (rule reach_init) (rule refl)
  have 1: "ws_reachable example_lib (example_serve 0 new_ws_world)" by (rule example_served [OF 0]) (simp add: new_ws_world_def)
  have "Option.is_none (ww_conns (example_serve 0 new_ws_world) 1)" by code_simp
  then have 2: "ws_reachable example_lib two_served"
    unfolding two_served_def Option.is_none_def by (rule example_served [OF 1])
  have "\<not> Option.is_none (ww_conns two_served 0)" "c_phase (the (ww_conns two_served 0)) = Serving" "fst (example_message 0 two_served) = Inr True"
    by code_simp+
  with 2 have 3: "ws_reachable example_lib one_joined" unfolding one_joined_def by (blast intro: example_messaged present)
  have "\<not> Option.is_none (ww_conns one_joined 1)" "c_phase (the (ww_conns one_joined 1)) = Serving" "fst (example_message 1 one_joined) = Inr True"
    by code_simp+
  with 3 show ?thesis unfolding both_joined_def by (blast intro: example_messaged present)
qed

lemma both_joined_facts:
  "ww_conns both_joined 0 = Some (the (ww_conns both_joined 0))" "rooms_of (ww_rooms both_joined) 0 = [''a'']"
  "members_in (ww_rooms both_joined) ''a'' = [0, 1]"
proof -
  have "\<not> Option.is_none (ww_conns both_joined 0)" by code_simp
  then show "ww_conns both_joined 0 = Some (the (ww_conns both_joined 0))" by (rule present)
  show "rooms_of (ww_rooms both_joined) 0 = [''a'']" "members_in (ww_rooms both_joined) ''a'' = [0, 1]" by code_simp+
qed

section \<open>Properties\<close>

text \<open>
  C8: a client never misses a frame in between. In every interleaving of connections, what a
  connection has sent to its client is the beginning of what its queue took, in order and without a
  gap; as long as its writer runs, the rest is still queued; the queue is at most the buffer and the
  stop marker; a terminated connection is on its way out; and only a connection that is not over is in
  rooms, in at most as many as it may.
\<close>

theorem client_sees_no_gap:
  assumes "ws_reachable lib w" "ww_conns w m = Some c"
  shows "(\<exists>rest. c_accepted c = c_written c @ rest) \<and> (c_writing c \<longrightarrow> c_accepted c = c_written c @ frames_of (c_queue c)) \<and>
    int (length (c_queue c)) \<le> c_buffer c + 1 \<and> (c_terminated c \<longrightarrow> c_ended c \<or> c_phase c \<noteq> Serving) \<and>
    (rooms_of (ww_rooms w) m \<noteq> [] \<longrightarrow> c_phase c \<noteq> Over \<and> int (length (rooms_of (ww_rooms w) m)) \<le> c_max_rooms c)"
proof -
  have ok: "ws_ok w" by (rule sockets.reach_ok [OF assms(1)])
  then have "conn_ok c" using assms(2) by (auto simp: ws_ok_def conns_ok_def)
  moreover have "rooms_of (ww_rooms w) m \<noteq> [] \<longrightarrow> c_phase c \<noteq> Over \<and> int (length (rooms_of (ww_rooms w) m)) \<le> c_max_rooms c"
    using ok assms(2) by (auto simp: ws_ok_def seats_ok_def seat_def)
  ultimately show ?thesis by (elim conn_okE) auto
qed

theorem client_sees_no_gap_witness:
  "rooms_of (ww_rooms both_joined) 0 = [''a''] \<and> c_phase (the (ww_conns both_joined 0)) \<noteq> Over \<and>
   int (length (c_queue (the (ww_conns both_joined 0)))) \<le> c_buffer (the (ww_conns both_joined 0)) + 1"
  using client_sees_no_gap [OF both_joined_reachable both_joined_facts(1)] both_joined_facts(2) by simp

text \<open>
  C38: a published message reaches the whole room. Every other member of the room gets it as its next
  frame and keeps its rooms, or could not keep up and is ended and in no room any more; everybody else,
  the sender included, is untouched.
\<close>

theorem published_reaches_the_room:
  assumes "ws_reachable lib w" "ww_conns w m = Some c" "room \<in> set (rooms_of (ww_rooms w) m)" "finite_json v"
    and "ws_publish lib m c sent_at room v w = (r, w')"
  shows "r = None \<and>
    (if m' \<in> set (members_in (ww_rooms w) room) \<and> m' \<noteq> m
     then conn_inbox (ww_conns w') m' = conn_inbox (ww_conns w) m' @ [lib_dumps lib (published_body c room sent_at v)] \<and>
            rooms_of (ww_rooms w') m' = rooms_of (ww_rooms w) m' \<or>
          conn_inbox (ww_conns w') m' = conn_inbox (ww_conns w) m' \<and> conn_over (ww_conns w') m' \<and> rooms_of (ww_rooms w') m' = []
     else conn_inbox (ww_conns w') m' = conn_inbox (ww_conns w) m' \<and> rooms_of (ww_rooms w') m' = rooms_of (ww_rooms w) m')"
proof -
  let ?p = "lib_dumps lib (published_body c room sent_at v)"
  have ok: "registry_ok (ww_rooms w)" using sockets.reach_ok [OF assms(1)] by (simp add: ws_ok_def)
  have "encode_server_message lib (published_body c room sent_at v) = Some ?p"
    using assms(4) by (simp add: encode_server_message_def published_body_def)
  then obtain n where b: "broadcast_loop ws_offer ?p (Some m) (members_in (ww_rooms w) room) (ww_rooms w) (ww_conns w) = (n, ww_rooms w', ww_conns w')"
      and r: "r = None"
    using assms(3,5) by (auto simp: ws_publish_def broadcast_def registry_contains_def split: prod.splits)
  from conns.broadcast_loop_spec [OF b members_distinct [OF ok]] obtain gone where
    g: "set gone \<subseteq> set (members_in (ww_rooms w) room)" "Some m \<notin> Some ` set gone" "ww_rooms w' = leave_each gone (ww_rooms w)"
      "conn_inbox (ww_conns w') = (\<lambda>k. if k \<in> set (members_in (ww_rooms w) room) \<and> Some m \<noteq> Some k \<and> k \<notin> set gone
         then conn_inbox (ww_conns w) k @ [?p] else conn_inbox (ww_conns w) k)"
      "conn_over (ww_conns w') = (\<lambda>k. conn_over (ww_conns w) k \<or> k \<in> set gone)"
    by blast
  have ro: "rooms_of (ww_rooms w') = (\<lambda>k. if k \<in> set gone then [] else rooms_of (ww_rooms w) k)"
    using leave_each_spec [OF ok, of gone] g(3) by simp
  show ?thesis using r g(1,2) unfolding g(4,5) ro by auto
qed

theorem published_reaches_the_room_witness:
  "let w' = snd (ws_publish example_lib 0 (the (ww_conns both_joined 0)) ''now'' ''a'' (JInt 1) both_joined) in
   conn_inbox (ww_conns w') 1 = conn_inbox (ww_conns both_joined) 1 @ [''{}''] \<or> conn_over (ww_conns w') 1"
proof -
  have r: "''a'' \<in> set (rooms_of (ww_rooms both_joined) 0)" "1 \<in> set (members_in (ww_rooms both_joined) ''a'')"
    by (simp_all add: both_joined_facts)
  have "lib_dumps example_lib v = ''{}''" for v by (simp add: example_lib_def)
  with published_reaches_the_room [OF both_joined_reachable both_joined_facts(1) r(1) _ surjective_pairing, of "JInt 1" "''now''" 1] r(2)
  show ?thesis by (auto simp: Let_def)
qed

text \<open>
  C40: a frame larger than the byte burst ends its connection with an uncaught exception. The limiter
  is asked before the size is checked; it answers that no wait would help, and the infinite wait
  cannot be written into the error frame.
\<close>

theorem oversized_frame_escapes:
  assumes "of_int (int (length (utf8 text))) > byte_capacity (c_limiter c)" "violations (c_limiter c) + 1 < max_violations (c_limiter c)"
  shows "fst (on_message lib now t sent_at m c (Text text) w) = Inl WsValueError"
proof -
  obtain w1 ms1 where m: "retry_after (at1 t) 1 (messages (c_limiter c)) = (w1, ms1)" by fastforce
  have v: "retry_after (at2 t) (of_int (int (length (utf8 text)))) (volume (c_limiter c)) = (PInf, volume (c_limiter c))"
    using assms(1) by (simp add: retry_after_def byte_capacity_def)
  have l: "longer_wait w1 PInf = PInf" by (cases w1) simp_all
  show ?thesis
    using assms(2) by (simp add: on_message_def ws_admit_def limiter_offer_def m v l Let_def send_soon_def encode_server_message_def error_message_def
        del: of_int_of_nat_eq split: prod.split)
qed

theorem oversized_frame_escapes_witness:
  "fst (on_message example_lib 1 example_clock ''now'' 0 (the (new_connection example_args 0)) (Text (replicate 60 CHR ''x'')) two_served) =
     Inl WsValueError"
proof (rule oversized_frame_escapes)
  show "of_int (int (length (utf8 (replicate 60 CHR ''x'')))) > byte_capacity (c_limiter (the (new_connection example_args 0)))" by code_simp
  show "violations (c_limiter (the (new_connection example_args 0))) + 1 < max_violations (c_limiter (the (new_connection example_args 0)))"
    by code_simp
qed

end
