(* ===== verification/Sse_Events.thy ===== *)
theory Sse_Events
  imports Py_Text
begin

text \<open>
  The \<open>text/event-stream\<close> format (\<open>sse/event.py\<close>): events, their validation and their encoding. The
  reader at the other end is the parser of the HTML standard, section 9.2.6; \<open>sse_lines\<close> and \<open>sse_read\<close>
  state what it does, as the specification the encoder is held to. The lemmas show that the encoder
  splits values exactly where that parser would and that a stream of encoded events is read back as
  those events.
\<close>

section \<open>Definitions\<close>

subsection \<open>Events\<close>

text \<open>\<open>value.split(sep)\<close> for a non-empty separator.\<close>

fun split_at :: "string \<Rightarrow> nat \<Rightarrow> string \<Rightarrow> string \<Rightarrow> string list" where
  "split_at sep 0 acc s = [acc @ s]"
| "split_at sep (Suc n) acc [] = [acc]"
| "split_at sep (Suc n) acc (c # s) =
     (if take (length sep) (c # s) = sep then acc # split_at sep n [] (drop (length sep) (c # s))
      else split_at sep n (acc @ [c]) s)"

definition str_split :: "string \<Rightarrow> string \<Rightarrow> string list" where
  "str_split sep s = split_at sep (Suc (length s)) [] s"

definition LINE_BREAKS :: "string list" where
  "LINE_BREAKS = [[CHR 0x0D, CHR 0x0A], [CHR 0x0D], [CHR 0x0A]]"

definition split_lines :: "string \<Rightarrow> string list" where
  "split_lines v = fold (\<lambda>terminator lines. concat (map (str_split terminator) lines)) LINE_BREAKS [v]"

text \<open>\<open>terminator in value\<close>, and \<open>_reject_line_breaks\<close> with true for its \<open>ValueError\<close>.\<close>

fun contains_text :: "string \<Rightarrow> string \<Rightarrow> bool" where
  "contains_text t [] = (t = [])"
| "contains_text t (c # s) = (take (length t) (c # s) = t \<or> contains_text t s)"

definition has_line_break :: "string \<Rightarrow> bool" where
  "has_line_break v = list_ex (\<lambda>terminator. contains_text terminator v) LINE_BREAKS"

record server_sent_event =
  ev_data :: string
  ev_event :: "string option"
  ev_id :: "string option"
  ev_retry :: "int option"

definition event_error :: "server_sent_event \<Rightarrow> bool" where
  "event_error e \<longleftrightarrow>
     ev_data e = [] \<or>
     (case ev_event e of None \<Rightarrow> False | Some v \<Rightarrow> has_line_break v) \<or>
     (case ev_id e of None \<Rightarrow> False | Some v \<Rightarrow> has_line_break v \<or> CHR 0x00 \<in> set v) \<or>
     (case ev_retry e of None \<Rightarrow> False | Some n \<Rightarrow> n < 0)"

text \<open>\<open>"\n".join(lines)\<close>.\<close>

fun join_lines :: "string list \<Rightarrow> string" where
  "join_lines [] = []"
| "join_lines [l] = l"
| "join_lines (l # ls) = l @ CHR 0x0A # join_lines ls"

definition event_fields :: "server_sent_event \<Rightarrow> string list" where
  "event_fields e =
     (case ev_event e of None \<Rightarrow> [] | Some v \<Rightarrow> [''event: '' @ v]) @
     (case ev_id e of None \<Rightarrow> [] | Some v \<Rightarrow> [''id: '' @ v]) @
     (case ev_retry e of None \<Rightarrow> [] | Some n \<Rightarrow> [''retry: '' @ decimal (nat n)]) @
     map (\<lambda>l. ''data: '' @ l) (split_lines (ev_data e))"

definition event_text :: "server_sent_event \<Rightarrow> string" where
  "event_text e = join_lines (event_fields e) @ [CHR 0x0A, CHR 0x0A]"

definition encode_event :: "server_sent_event \<Rightarrow> string" where
  "encode_event e = utf8 (event_text e)"

definition comment_frame :: "string \<Rightarrow> string option" where
  "comment_frame t = (if has_line_break t then None else Some (utf8 ('': '' @ t @ [CHR 0x0A, CHR 0x0A])))"

definition retry_frame :: "int \<Rightarrow> string option" where
  "retry_frame n = (if n < 0 then None else Some (utf8 (''retry: '' @ decimal (nat n) @ [CHR 0x0A, CHR 0x0A])))"

subsection \<open>The reader of the standard\<close>

text \<open>Lines end at CRLF, at LF and at CR; what follows the last end is not a line yet.\<close>

fun sse_lines :: "string \<Rightarrow> string \<Rightarrow> string list" where
  "sse_lines acc [] = [acc]"
| "sse_lines acc (c # s) =
     (if c = CHR 0x0A then acc # sse_lines [] s
      else if c = CHR 0x0D then acc # sse_lines [] (if s \<noteq> [] \<and> hd s = CHR 0x0A then tl s else s)
      else sse_lines (acc @ [c]) s)"

record sse_state =
  data_buffer :: string
  type_buffer :: string
  last_id :: string
  reconnection :: "int option"

record dispatched =
  d_type :: string
  d_data :: string
  d_id :: string

definition sse_start :: sse_state where
  "sse_start = \<lparr>data_buffer = [], type_buffer = [], last_id = [], reconnection = None\<rparr>"

text \<open>The name before the first colon and the value after it, less one leading space.\<close>

definition field_of :: "string \<Rightarrow> string \<times> string" where
  "field_of l =
     (let name = takeWhile (\<lambda>c. c \<noteq> CHR '':'') l; v = drop (Suc (length name)) l in
      (name, if v \<noteq> [] \<and> hd v = CHR '' '' then tl v else v))"

definition sse_field :: "string \<Rightarrow> string \<Rightarrow> sse_state \<Rightarrow> sse_state" where
  "sse_field name v s =
     (if name = ''event'' then s\<lparr>type_buffer := v\<rparr>
      else if name = ''data'' then s\<lparr>data_buffer := data_buffer s @ v @ [CHR 0x0A]\<rparr>
      else if name = ''id'' then (if CHR 0x00 \<in> set v then s else s\<lparr>last_id := v\<rparr>)
      else if name = ''retry'' then
        (if v \<noteq> [] \<and> list_all py_digit v then s\<lparr>reconnection := Some (int (undecimal v))\<rparr> else s)
      else s)"

fun sse_read :: "sse_state \<Rightarrow> string list \<Rightarrow> dispatched list \<times> sse_state" where
  "sse_read s [] = ([], s)"
| "sse_read s (l # ls) =
     (if l = [] then
        (if data_buffer s = [] then sse_read (s\<lparr>type_buffer := []\<rparr>) ls
         else
           (case sse_read (s\<lparr>data_buffer := [], type_buffer := []\<rparr>) ls of
              (ds, s1) \<Rightarrow>
                (\<lparr>d_type = (if type_buffer s = [] then ''message'' else type_buffer s), d_data = butlast (data_buffer s),
                  d_id = last_id s\<rparr> # ds, s1)))
      else if hd l = CHR '':'' then sse_read s ls
      else (case field_of l of (name, v) \<Rightarrow> sse_read (sse_field name v s) ls))"

text \<open>What the client hears of a whole text: its complete lines, read from the start.\<close>

definition sse_client :: "string \<Rightarrow> dispatched list \<times> sse_state" where
  "sse_client t = sse_read sse_start (butlast (sse_lines [] t))"

text \<open>What a stream writes: events, keepalive comments and retry hints, and what is to be heard of them.\<close>

datatype frame = EventFrame server_sent_event | CommentFrame string | RetryFrame int

fun frame_bytes :: "frame \<Rightarrow> string option" where
  "frame_bytes (EventFrame e) = (if event_error e then None else Some (encode_event e))"
| "frame_bytes (CommentFrame t) = comment_frame t"
| "frame_bytes (RetryFrame n) = retry_frame n"

fun normal_breaks :: "string \<Rightarrow> string" where
  "normal_breaks [] = []"
| "normal_breaks [c] = [if c = CHR 0x0D then CHR 0x0A else c]"
| "normal_breaks (c # d # s) =
     (if c = CHR 0x0D then (if d = CHR 0x0A then CHR 0x0A # normal_breaks s else CHR 0x0A # normal_breaks (d # s))
      else c # normal_breaks (d # s))"

fun heard :: "string \<Rightarrow> frame list \<Rightarrow> dispatched list" where
  "heard i [] = []"
| "heard i (EventFrame e # fs) =
     (let i1 = (case ev_id e of Some v \<Rightarrow> v | None \<Rightarrow> i) in
      \<lparr>d_type = (if ev_event e \<in> {None, Some []} then ''message'' else the (ev_event e)), d_data = normal_breaks (ev_data e), d_id = i1\<rparr> #
        heard i1 fs)"
| "heard i (_ # fs) = heard i fs"

subsection \<open>Streams\<close>

text \<open>
  \<open>sse_stream\<close> over \<open>with_heartbeat\<close>: each turn of the inner loop waits until the source yields an event
  or ends, or for an interval of silence; the time is the clock's reading after the frame was taken by
  the server. The result is the frames of the body.
\<close>

definition DEFAULT_COMMENT :: string where
  "DEFAULT_COMMENT = ''keep-alive''"

definition LIFETIME_COMMENT :: string where
  "LIFETIME_COMMENT = ''stream lifetime reached; reconnect''"

datatype turn = Silence | Next server_sent_event | Exhausted

fun stream_loop :: "rat option \<Rightarrow> rat \<Rightarrow> (turn \<times> rat) list \<Rightarrow> frame list" where
  "stream_loop max_seconds started [] = []"
| "stream_loop max_seconds started ((Exhausted, now) # ts) = []"
| "stream_loop max_seconds started ((x, now) # ts) =
     (case x of Next e \<Rightarrow> EventFrame e | _ \<Rightarrow> CommentFrame DEFAULT_COMMENT) #
     (if max_seconds \<noteq> None \<and> now - started \<ge> the max_seconds then [CommentFrame LIFETIME_COMMENT]
      else stream_loop max_seconds started ts)"

definition sse_stream :: "int option \<Rightarrow> rat option \<Rightarrow> rat \<Rightarrow> (turn \<times> rat) list \<Rightarrow> frame list" where
  "sse_stream retry max_seconds started ts =
     (case retry of None \<Rightarrow> [] | Some n \<Rightarrow> [RetryFrame n]) @ stream_loop max_seconds started ts"

text \<open>The events the source yields, in order.\<close>

fun yielded :: "(turn \<times> rat) list \<Rightarrow> server_sent_event list" where
  "yielded [] = []"
| "yielded ((Next e, _) # ts) = e # yielded ts"
| "yielded ((Exhausted, _) # ts) = []"
| "yielded ((Silence, _) # ts) = yielded ts"

section \<open>Lemmas\<close>

subsection \<open>Splitting lines\<close>

text \<open>Splitting without an accumulator: at every character of a kind, at every CRLF, and as the parser does.\<close>

fun cons_hd :: "char \<Rightarrow> string list \<Rightarrow> string list" where
  "cons_hd c (p # ps) = (c # p) # ps"
| "cons_hd c [] = [[c]]"

fun pieces :: "char \<Rightarrow> string \<Rightarrow> string list" where
  "pieces x [] = [[]]"
| "pieces x (c # s) = (if c = x then [] # pieces x s else cons_hd c (pieces x s))"

fun crlf_pieces :: "string \<Rightarrow> string list" where
  "crlf_pieces [] = [[]]"
| "crlf_pieces [c] = [[c]]"
| "crlf_pieces (c # d # s) = (if c = CHR 0x0D \<and> d = CHR 0x0A then [] # crlf_pieces s else cons_hd c (crlf_pieces (d # s)))"

fun break_pieces :: "string \<Rightarrow> string list" where
  "break_pieces [] = [[]]"
| "break_pieces [c] = (if c = CHR 0x0A \<or> c = CHR 0x0D then [[], []] else [[c]])"
| "break_pieces (c # d # s) =
     (if c = CHR 0x0D \<and> d = CHR 0x0A then [] # break_pieces s
      else if c = CHR 0x0A \<or> c = CHR 0x0D then [] # break_pieces (d # s)
      else cons_hd c (break_pieces (d # s)))"

lemma cons_hd_not_Nil [simp]: "cons_hd c ps \<noteq> []"
  by (cases ps) simp_all

lemma pieces_not_Nil [simp]: "pieces x s \<noteq> []" "crlf_pieces s \<noteq> []" "break_pieces s \<noteq> []"
proof -
  show "pieces x s \<noteq> []" by (cases s) simp_all
  show "crlf_pieces s \<noteq> []" by (cases s rule: crlf_pieces.cases) simp_all
  show "break_pieces s \<noteq> []" by (cases s rule: break_pieces.cases) simp_all
qed

abbreviation onto :: "string \<Rightarrow> string list \<Rightarrow> string list" where
  "onto acc ps \<equiv> (acc @ hd ps) # tl ps"

lemma cons_hd_parts [simp]: "ps \<noteq> [] \<Longrightarrow> hd (cons_hd c ps) = c # hd ps" "ps \<noteq> [] \<Longrightarrow> tl (cons_hd c ps) = tl ps"
  by (cases ps; simp)+

lemma split_at_char: "length s < n \<Longrightarrow> split_at [x] n acc s = onto acc (pieces x s)"
proof (induction s arbitrary: n acc)
  case Nil
  then show ?case by (cases n) simp_all
next
  case (Cons c s)
  then obtain k where n: "n = Suc k" "length s < k" by (cases n) auto
  with Cons.IH [OF n(2)] n(1) show ?case by simp
qed

lemma split_at_crlf: "length s < n \<Longrightarrow> split_at [CHR 0x0D, CHR 0x0A] n acc s = onto acc (crlf_pieces s)"
proof (induction s arbitrary: n acc rule: crlf_pieces.induct)
  case 1
  then show ?case by (cases n) simp_all
next
  case (2 c)
  then obtain k where "n = Suc (Suc k)" by (metis One_nat_def Suc_less_eq2 length_Cons list.size(3) less_imp_Suc_add add_Suc_right)
  then show ?case by simp
next
  case (3 c d s)
  then obtain k where n: "n = Suc k" "length (d # s) < k" by (cases n) auto
  show ?case
  proof (cases "c = CHR 0x0D \<and> d = CHR 0x0A")
    case True
    have "length s < k" using n(2) by simp
    from 3(1) [OF True this, of "[]"] True n(1) show ?thesis by simp
  next
    case False
    from 3(2) [OF False n(2), of "acc @ [c]"] False n(1) show ?thesis by auto
  qed
qed

lemma str_split_pieces: "str_split [x] v = pieces x v" "str_split [CHR 0x0D, CHR 0x0A] v = crlf_pieces v"
  by (simp_all add: str_split_def split_at_char split_at_crlf)

lemma split_lines_pieces:
  "split_lines v = concat (map (pieces (CHR 0x0A)) (concat (map (pieces (CHR 0x0D)) (crlf_pieces v))))"
  by (simp add: split_lines_def LINE_BREAKS_def str_split_pieces [abs_def] str_split_pieces(2))

lemma pieces_cons_hd:
  assumes "ps \<noteq> []"
  shows "concat (map (pieces x) (cons_hd c ps)) = (if c = x then [] # concat (map (pieces x) ps) else cons_hd c (concat (map (pieces x) ps)))"
proof -
  obtain p ps' where ps: "ps = p # ps'" using assms by (cases ps) auto
  obtain q qs where "pieces x p = q # qs" by (cases "pieces x p") auto
  with ps show ?thesis by simp
qed

lemma concat_pieces_not_Nil [simp]: "ps \<noteq> [] \<Longrightarrow> concat (map (pieces x) ps) \<noteq> []"
  by (cases ps) simp_all

lemma split_lines_break_pieces: "split_lines v = break_pieces v"
  unfolding split_lines_pieces
  by (induction v rule: break_pieces.induct) (auto simp: pieces_cons_hd)

lemma sse_lines_break_pieces: "sse_lines acc v = onto acc (break_pieces v)"
proof (induction v arbitrary: acc rule: break_pieces.induct)
  case (3 c d s)
  show ?case
  proof (cases "c = CHR 0x0A \<or> c = CHR 0x0D")
    case True
    then show ?thesis using 3(1) [of "[]"] 3(2) [of "[]"] by auto
  next
    case False
    with 3(3) [of "acc @ [c]"] show ?thesis by simp
  qed
qed auto

lemma split_lines_sse: "split_lines v = sse_lines [] v"
  by (simp add: split_lines_break_pieces sse_lines_break_pieces)

text \<open>Lines without breaks are lines of the text they make up.\<close>

definition unbroken :: "string \<Rightarrow> bool" where
  "unbroken v \<longleftrightarrow> CHR 0x0A \<notin> set v \<and> CHR 0x0D \<notin> set v"

lemma break_pieces_unbroken: "l \<in> set (break_pieces v) \<Longrightarrow> unbroken l"
proof (induction v arbitrary: l rule: break_pieces.induct)
  case (3 c d s)
  have "l \<in> set (cons_hd c ps) \<Longrightarrow> ps \<noteq> [] \<Longrightarrow> l \<in> set ps \<or> (\<exists>p\<in>set ps. l = c # p)" for ps by (cases ps) auto
  with 3 show ?case by (fastforce simp: unbroken_def split: if_splits)
qed (auto simp: unbroken_def split: if_splits)

lemma sse_lines_unbroken: "unbroken l \<Longrightarrow> sse_lines acc (l @ CHR 0x0A # t) = (acc @ l) # sse_lines [] t"
  by (induction l arbitrary: acc) (auto simp: unbroken_def)

lemma sse_lines_fields:
  "list_all unbroken ls \<Longrightarrow> ls \<noteq> [] \<Longrightarrow> sse_lines [] (join_lines ls @ CHR 0x0A # CHR 0x0A # t) = ls @ [] # sse_lines [] t"
  by (induction ls rule: join_lines.induct) (simp_all add: sse_lines_unbroken)

lemma normal_breaks_pieces: "join_lines (break_pieces v) = normal_breaks v"
proof (induction v rule: break_pieces.induct)
  case (3 c d s)
  have cons: "join_lines (cons_hd x ps) = x # join_lines ps" if "ps \<noteq> []" for x ps
    using that by (cases ps rule: join_lines.cases) simp_all
  have new: "join_lines ([] # ps) = CHR 0x0A # join_lines ps" if "ps \<noteq> []" for ps using that by (cases ps) simp_all
  from 3 show ?case by (auto simp: cons new)
qed simp_all

lemma contains_char: "contains_text [c] v \<longleftrightarrow> c \<in> set v"
  by (induction v) auto

lemma no_line_break: "\<not> has_line_break v \<Longrightarrow> unbroken v"
  by (simp add: has_line_break_def LINE_BREAKS_def contains_char unbroken_def)

subsection \<open>Reading fields\<close>

definition frame_fields :: "frame \<Rightarrow> string list" where
  "frame_fields f =
     (case f of EventFrame e \<Rightarrow> event_fields e | CommentFrame t \<Rightarrow> ['': '' @ t] | RetryFrame n \<Rightarrow> [''retry: '' @ decimal (nat n)])"

definition frame_text :: "frame \<Rightarrow> string" where
  "frame_text f = join_lines (frame_fields f) @ [CHR 0x0A, CHR 0x0A]"

lemma unbroken_append [simp]: "unbroken (a @ b) \<longleftrightarrow> unbroken a \<and> unbroken b"
  by (auto simp: unbroken_def)

lemma unbroken_decimal [simp]: "unbroken (decimal n)"
  using decimal_all_digits by (fastforce simp: unbroken_def py_digit_def)

lemma unbroken_names [simp]: "unbroken ''event: ''" "unbroken ''id: ''" "unbroken ''retry: ''" "unbroken ''data: ''" "unbroken '': ''"
  by (simp_all add: unbroken_def)

lemma unbroken_Cons [simp]: "unbroken (c # s) \<longleftrightarrow> c \<noteq> CHR 0x0A \<and> c \<noteq> CHR 0x0D \<and> unbroken s"
  by (auto simp: unbroken_def)

lemma frame_bytes_fields:
  assumes "frame_bytes f = Some b"
  shows "b = utf8 (frame_text f) \<and> frame_fields f \<noteq> [] \<and> list_all unbroken (frame_fields f)"
proof (cases f)
  case (EventFrame e)
  have l: "split_lines v \<noteq> [] \<and> list_all unbroken (split_lines v)" for v
    using break_pieces_unbroken [of _ v] by (auto simp: split_lines_break_pieces list_all_iff)
  have "unbroken v" if "ev_event e = Some v \<or> ev_id e = Some v" for v
    using assms that EventFrame by (auto simp: event_error_def no_line_break split: if_splits)
  moreover have "list_all unbroken (map (\<lambda>l. ''data: '' @ l) (split_lines (ev_data e)))"
    using l [of "ev_data e"] by (simp add: list_all_iff)
  ultimately show ?thesis using assms EventFrame l [of "ev_data e"]
    by (auto simp: frame_fields_def frame_text_def encode_event_def event_text_def event_fields_def split: if_splits option.split)
next
  case (CommentFrame t)
  with assms show ?thesis by (auto simp: frame_fields_def frame_text_def comment_frame_def no_line_break split: if_splits)
next
  case (RetryFrame n)
  with assms show ?thesis by (auto simp: frame_fields_def frame_text_def retry_frame_def split: if_splits)
qed

lemma read_field:
  assumes "name \<noteq> []" "CHR '':'' \<notin> set name"
  shows "sse_read s ((name @ '': '' @ v) # ls) = sse_read (sse_field name v s) ls"
proof -
  have "takeWhile (\<lambda>c. c \<noteq> CHR '':'') (name @ '': '' @ v) = name" using assms(2) by (subst takeWhile_append2) auto
  then have "field_of (name @ '': '' @ v) = (name, v)" by (simp add: field_of_def Let_def)
  moreover have "hd (name @ '': '' @ v) \<noteq> CHR '':''" using assms by (cases name) auto
  ultimately show ?thesis using assms(1) by simp
qed

lemma read_fields:
  "sse_read s ((''event: '' @ v) # ls) = sse_read (s\<lparr>type_buffer := v\<rparr>) ls"
  "CHR 0x00 \<notin> set v \<Longrightarrow> sse_read s ((''id: '' @ v) # ls) = sse_read (s\<lparr>last_id := v\<rparr>) ls"
  "sse_read s ((''retry: '' @ decimal n) # ls) = sse_read (s\<lparr>reconnection := Some (int n)\<rparr>) ls"
  "sse_read s ((''data: '' @ v) # ls) = sse_read (s\<lparr>data_buffer := data_buffer s @ v @ [CHR 0x0A]\<rparr>) ls"
proof -
  have d: "list_all py_digit (decimal n)" using decimal_all_digits by (auto simp: list_all_iff)
  show "sse_read s ((''event: '' @ v) # ls) = sse_read (s\<lparr>type_buffer := v\<rparr>) ls"
    using read_field [of "''event''" s v ls] unfolding sse_field_def by (simp del: sse_read.simps)
  show "sse_read s ((''id: '' @ v) # ls) = sse_read (s\<lparr>last_id := v\<rparr>) ls" if "CHR 0x00 \<notin> set v"
    using read_field [of "''id''" s v ls] that unfolding sse_field_def by (simp del: sse_read.simps)
  show "sse_read s ((''retry: '' @ decimal n) # ls) = sse_read (s\<lparr>reconnection := Some (int n)\<rparr>) ls"
    using read_field [of "''retry''" s "decimal n" ls] d unfolding sse_field_def by (simp add: undecimal_decimal del: sse_read.simps)
  show "sse_read s ((''data: '' @ v) # ls) = sse_read (s\<lparr>data_buffer := data_buffer s @ v @ [CHR 0x0A]\<rparr>) ls"
    using read_field [of "''data''" s v ls] unfolding sse_field_def by (simp del: sse_read.simps)
qed

lemma read_data:
  "sse_read s (map (\<lambda>l. ''data: '' @ l) ls @ rest) = sse_read (s\<lparr>data_buffer := data_buffer s @ concat (map (\<lambda>l. l @ [CHR 0x0A]) ls)\<rparr>) rest"
proof (induction ls arbitrary: s)
  case (Cons l ls)
  have "map (\<lambda>l. ''data: '' @ l) (l # ls) @ rest = (''data: '' @ l) # map (\<lambda>l. ''data: '' @ l) ls @ rest" by simp
  then show ?case by (simp only: read_fields Cons.IH) simp
qed simp

lemma data_lines: "ls \<noteq> [] \<Longrightarrow> concat (map (\<lambda>l. l @ [CHR 0x0A]) ls) = join_lines ls @ [CHR 0x0A]"
  by (induction ls rule: join_lines.induct) simp_all

definition idle :: "sse_state \<Rightarrow> bool" where
  "idle s \<longleftrightarrow> data_buffer s = [] \<and> type_buffer s = []"

lemma read_blank: "idle s \<Longrightarrow> sse_read s ([] # ls) = sse_read s ls"
  by (cases s) (simp add: idle_def)

text \<open>One event, read from between two events.\<close>

lemma read_event:
  assumes "\<not> event_error e" "idle s"
  shows "\<exists>s'. idle s' \<and> last_id s' = (case ev_id e of Some v \<Rightarrow> v | None \<Rightarrow> last_id s) \<and>
    sse_read s (event_fields e @ [] # ls) =
      (case sse_read s' ls of (ds, s2) \<Rightarrow>
        (\<lparr>d_type = (if ev_event e \<in> {None, Some []} then ''message'' else the (ev_event e)), d_data = normal_breaks (ev_data e),
          d_id = last_id s'\<rparr> # ds, s2))"
proof -
  define s1 where "s1 = (case ev_event e of None \<Rightarrow> s | Some v \<Rightarrow> s\<lparr>type_buffer := v\<rparr>)"
  define s2 where "s2 = (case ev_id e of None \<Rightarrow> s1 | Some v \<Rightarrow> s1\<lparr>last_id := v\<rparr>)"
  define s3 where "s3 = (case ev_retry e of None \<Rightarrow> s2 | Some n \<Rightarrow> s2\<lparr>reconnection := Some (int (nat n))\<rparr>)"
  have nul: "CHR 0x00 \<notin> set v" if "ev_id e = Some v" for v using assms(1) that by (auto simp: event_error_def)
  let ?data = "map (\<lambda>l. ''data: '' @ l) (split_lines (ev_data e)) @ [] # ls"
  have "sse_read s (event_fields e @ [] # ls) = sse_read s3 ?data"
  proof -
    have one: "[x] @ xs = x # xs" for x :: string and xs by simp
    have 1: "sse_read s ((case ev_event e of None \<Rightarrow> [] | Some v \<Rightarrow> [''event: '' @ v]) @ xs) = sse_read s1 xs" for xs
      by (cases "ev_event e") (simp_all only: option.case append_Nil one read_fields s1_def)
    have 2: "sse_read s1 ((case ev_id e of None \<Rightarrow> [] | Some v \<Rightarrow> [''id: '' @ v]) @ xs) = sse_read s2 xs" for xs
    proof (cases "ev_id e")
      case (Some v)
      show ?thesis unfolding Some option.case one s2_def by (rule read_fields(2) [OF nul [OF Some]])
    qed (simp only: option.case append_Nil s2_def)
    have 3: "sse_read s2 ((case ev_retry e of None \<Rightarrow> [] | Some n \<Rightarrow> [''retry: '' @ decimal (nat n)]) @ xs) = sse_read s3 xs" for xs
      by (cases "ev_retry e") (simp_all only: option.case append_Nil one read_fields s3_def)
    show ?thesis unfolding event_fields_def append_assoc 1 2 3 ..
  qed
  also have "\<dots> = sse_read (s3\<lparr>data_buffer := data_buffer s3 @ concat (map (\<lambda>l. l @ [CHR 0x0A]) (split_lines (ev_data e)))\<rparr>) ([] # ls)"
    by (rule read_data)
  finally have read: "sse_read s (event_fields e @ [] # ls) =
    sse_read (s3\<lparr>data_buffer := data_buffer s3 @ concat (map (\<lambda>l. l @ [CHR 0x0A]) (split_lines (ev_data e)))\<rparr>) ([] # ls)" .
  have db: "data_buffer s3 = []" and ty: "type_buffer s3 = (case ev_event e of None \<Rightarrow> [] | Some v \<Rightarrow> v)"
    and id: "last_id s3 = (case ev_id e of Some v \<Rightarrow> v | None \<Rightarrow> last_id s)"
    using assms(2) by (simp_all add: s1_def s2_def s3_def idle_def split: option.split)
  have lines: "concat (map (\<lambda>l. l @ [CHR 0x0A]) (split_lines (ev_data e))) = normal_breaks (ev_data e) @ [CHR 0x0A]"
    by (simp add: split_lines_break_pieces data_lines normal_breaks_pieces)
  have "sse_read s (event_fields e @ [] # ls) =
      (case sse_read (s3\<lparr>data_buffer := [], type_buffer := []\<rparr>) ls of (ds, s2) \<Rightarrow>
        (\<lparr>d_type = (if ev_event e \<in> {None, Some []} then ''message'' else the (ev_event e)), d_data = normal_breaks (ev_data e),
          d_id = last_id s3\<rparr> # ds, s2))"
    unfolding read lines by (simp add: db ty split: option.split prod.split)
  with id show ?thesis by (intro exI [of _ "s3\<lparr>data_buffer := [], type_buffer := []\<rparr>"]) (simp add: idle_def)
qed

lemma read_frames:
  assumes "list_all (\<lambda>f. frame_bytes f \<noteq> None) fs" "idle s"
  shows "fst (sse_read s (concat (map (\<lambda>f. frame_fields f @ [[]]) fs))) = heard (last_id s) fs"
  using assms
proof (induction fs arbitrary: s)
  case (Cons f fs)
  let ?rest = "concat (map (\<lambda>f. frame_fields f @ [[]]) fs)"
  from Cons.prems have fs: "list_all (\<lambda>f. frame_bytes f \<noteq> None) fs" by simp
  show ?case
  proof (cases f)
    case (EventFrame e)
    then have "\<not> event_error e" using Cons.prems(1) by (auto split: if_splits)
    from read_event [OF this Cons.prems(2), of ?rest] obtain s' where s': "idle s'" "last_id s' = (case ev_id e of Some v \<Rightarrow> v | None \<Rightarrow> last_id s)"
        "sse_read s (event_fields e @ [] # ?rest) = (case sse_read s' ?rest of (ds, s2) \<Rightarrow>
          (\<lparr>d_type = (if ev_event e \<in> {None, Some []} then ''message'' else the (ev_event e)), d_data = normal_breaks (ev_data e),
            d_id = last_id s'\<rparr> # ds, s2))"
      by blast
    with Cons.IH [OF fs s'(1)] EventFrame show ?thesis by (simp add: frame_fields_def case_prod_beta Let_def)
  next
    case (CommentFrame t)
    have "sse_read s (('': '' @ t) # [] # ?rest) = sse_read s ?rest"
      using read_blank [OF Cons.prems(2)] by simp
    with Cons.IH [OF fs Cons.prems(2)] CommentFrame show ?thesis by (simp add: frame_fields_def)
  next
    case (RetryFrame n)
    let ?s = "s\<lparr>reconnection := Some (int (nat n))\<rparr>"
    have "idle ?s" using Cons.prems(2) by (simp add: idle_def)
    moreover from read_blank [OF this] have "sse_read s ((''retry: '' @ decimal (nat n)) # [] # ?rest) = sse_read ?s ?rest"
      unfolding read_fields .
    ultimately show ?thesis using Cons.IH [OF fs, of ?s] RetryFrame by (simp add: frame_fields_def)
  qed
qed simp

lemma frame_lines:
  assumes "list_all (\<lambda>f. frame_bytes f \<noteq> None) fs"
  shows "sse_lines [] (concat (map frame_text fs)) = concat (map (\<lambda>f. frame_fields f @ [[]]) fs) @ [[]]"
  using assms
proof (induction fs)
  case (Cons f fs)
  then obtain b where "frame_bytes f = Some b" by auto
  from frame_bytes_fields [OF this] Cons show ?case by (simp add: frame_text_def sse_lines_fields)
qed simp

lemma utf8_concat: "utf8 (concat ts) = concat (map utf8 ts)"
  by (induction ts) (simp_all add: utf8_def)

lemma frames_heard:
  assumes "list_all (\<lambda>f. frame_bytes f \<noteq> None) fs" "utf8 t = concat (map (\<lambda>f. the (frame_bytes f)) fs)"
  shows "fst (sse_client t) = heard [] fs"
proof -
  have "the (frame_bytes f) = utf8 (frame_text f)" if "f \<in> set fs" for f
    using assms(1) frame_bytes_fields that by (fastforce simp: list_all_iff)
  then have "map (\<lambda>f. the (frame_bytes f)) fs = map utf8 (map frame_text fs)" by simp
  then have "utf8 t = utf8 (concat (map frame_text fs))" using assms(2) by (simp only: utf8_concat)
  then have "t = concat (map frame_text fs)" by (rule utf8_inject)
  with frame_lines [OF assms(1)] read_frames [OF assms(1), of sse_start] show ?thesis
    by (simp add: sse_client_def sse_start_def idle_def)
qed

lemma unbroken_no_line_break: "unbroken v \<Longrightarrow> \<not> has_line_break v"
proof -
  have "contains_text [CHR 0x0D, CHR 0x0A] v \<Longrightarrow> CHR 0x0D \<in> set v" for v by (induction v) auto
  then show "unbroken v \<Longrightarrow> \<not> has_line_break v" by (auto simp: has_line_break_def LINE_BREAKS_def contains_char unbroken_def)
qed

lemma stream_loop_frames:
  assumes "list_all (\<lambda>e. \<not> event_error e) (yielded ts)"
  shows "list_all (\<lambda>f. frame_bytes f \<noteq> None) (stream_loop max_seconds started ts) \<and>
    (\<exists>n. (max_seconds = None \<longrightarrow> length (yielded ts) \<le> n) \<and>
      (\<forall>i. heard i (stream_loop max_seconds started ts) = heard i (map EventFrame (take n (yielded ts)))))"
  using assms
proof (induction ts)
  case Nil
  then show ?case by (auto intro: exI [of _ 0])
next
  case (Cons y ts)
  obtain x now where y: "y = (x, now)" by fastforce
  let ?over = "max_seconds \<noteq> None \<and> now - started \<ge> the max_seconds"
  let ?rest = "stream_loop max_seconds started ts"
  have c: "frame_bytes (CommentFrame DEFAULT_COMMENT) \<noteq> None" "frame_bytes (CommentFrame LIFETIME_COMMENT) \<noteq> None"
    by (simp_all add: comment_frame_def unbroken_no_line_break DEFAULT_COMMENT_def LIFETIME_COMMENT_def unbroken_def)
  show ?case
  proof (cases x)
    case Exhausted
    with y show ?thesis by (auto intro: exI [of _ 0])
  next
    case Silence
    with Cons y have ih: "list_all (\<lambda>f. frame_bytes f \<noteq> None) ?rest" "\<exists>n. (max_seconds = None \<longrightarrow> length (yielded ts) \<le> n) \<and> (\<forall>i. heard i ?rest = heard i (map EventFrame (take n (yielded ts))))" by auto
    show ?thesis
    proof (cases ?over)
      case True
      with c y Silence show ?thesis by (auto intro!: exI [of _ 0])
    next
      case False
      then have l: "stream_loop max_seconds started (y # ts) = CommentFrame DEFAULT_COMMENT # ?rest" using y Silence by auto
      from ih c(1) y Silence show ?thesis unfolding l by simp
    qed
  next
    case (Next e)
    with Cons y have e: "frame_bytes (EventFrame e) \<noteq> None" and ih: "list_all (\<lambda>f. frame_bytes f \<noteq> None) ?rest"
        "\<exists>n. (max_seconds = None \<longrightarrow> length (yielded ts) \<le> n) \<and> (\<forall>i. heard i ?rest = heard i (map EventFrame (take n (yielded ts))))" by auto
    show ?thesis
    proof (cases ?over)
      case True
      with c y Next e show ?thesis by (auto intro!: exI [of _ 1])
    next
      case False
      then have l: "stream_loop max_seconds started (y # ts) = EventFrame e # ?rest" using y Next by auto
      from ih(2) obtain n where "(max_seconds = None \<longrightarrow> length (yielded ts) \<le> n) \<and> (\<forall>i. heard i ?rest = heard i (map EventFrame (take n (yielded ts))))" ..
      with ih(1) e y Next show ?thesis unfolding l by (intro conjI exI [of _ "Suc n"]) simp_all
    qed
  qed
qed

section \<open>Properties\<close>



end
