(* ===== verification/Sse_Hub.thy ===== *)
theory Sse_Hub
  imports Sse_Events Py_Prelude Py_Index
begin

text \<open>
  The fan-out to open event streams (\<open>sse/hub.py\<close>). A subscriber is known by a number; its queue holds
  events and at most one terminal envelope. \<open>hub_step\<close> interleaves publishing, closing, subscribing, the
  reads of each stream and its leaving. Three components of a subscriber observe the run: every event
  published on its topic since it subscribed, the events its stream yielded, and how the stream ended.
\<close>

section \<open>Definitions\<close>

definition DEFAULT_BUFFER_EVENTS :: int where
  "DEFAULT_BUFFER_EVENTS = 64"

definition OVERFLOW_EVENT :: string where
  "OVERFLOW_EVENT = ''overflow''"

definition overflow_notice :: server_sent_event where
  "overflow_notice =
     \<lparr>ev_data = ''This stream fell too far behind and was closed. Reconnect and refetch current state; events since '' @
                ''the last one delivered were not buffered.'',
      ev_event = Some OVERFLOW_EVENT, ev_id = None, ev_retry = None\<rparr>"

datatype ending = Notice | HubClosed | Left

datatype hub_envelope = Event server_sent_event | Overflowed | Closed

record subscriber =
  s_topic :: string
  s_buffer :: int
  s_queue :: "hub_envelope list"
  s_terminated :: bool
  s_since :: "server_sent_event list"
  s_yielded :: "server_sent_event list"
  s_end :: "ending option"

definition new_subscriber :: "string \<Rightarrow> int \<Rightarrow> subscriber" where
  "new_subscriber topic buffer =
     \<lparr>s_topic = topic, s_buffer = buffer, s_queue = [], s_terminated = False, s_since = [], s_yielded = [], s_end = None\<rparr>"

definition subscriber_pending :: "subscriber \<Rightarrow> int" where
  "subscriber_pending s = int (length (s_queue s))"

definition subscriber_offer :: "server_sent_event \<Rightarrow> subscriber \<Rightarrow> bool \<times> subscriber" where
  "subscriber_offer e s =
     (if s_terminated s then (False, s)
      else if int (length (s_queue s)) \<ge> s_buffer s then (False, s\<lparr>s_terminated := True, s_queue := s_queue s @ [Overflowed]\<rparr>)
      else (True, s\<lparr>s_queue := s_queue s @ [Event e]\<rparr>))"

definition subscriber_close :: "subscriber \<Rightarrow> subscriber" where
  "subscriber_close s = (if s_terminated s then s else s\<lparr>s_terminated := True, s_queue := s_queue s @ [Closed]\<rparr>)"

text \<open>One turn of the generator \<open>events\<close> with something in the queue: what it yields, and its state.\<close>

definition subscriber_next :: "subscriber \<Rightarrow> server_sent_event option \<times> subscriber" where
  "subscriber_next s =
     (case s_queue s of
        [] \<Rightarrow> (None, s)
      | Event e # q \<Rightarrow> (Some e, s\<lparr>s_queue := q, s_yielded := s_yielded s @ [e]\<rparr>)
      | Overflowed # q \<Rightarrow> (Some overflow_notice, s\<lparr>s_queue := q, s_end := Some Notice\<rparr>)
      | Closed # q \<Rightarrow> (None, s\<lparr>s_queue := q, s_end := Some HubClosed\<rparr>))"

record hub =
  h_buffer :: int
  h_topics :: "(string \<times> nat list) list"
  h_subs :: "nat \<Rightarrow> subscriber option"

definition new_hub :: "int \<Rightarrow> hub option" where
  "new_hub buffer = (if buffer < 1 then None else Some \<lparr>h_buffer = buffer, h_topics = [], h_subs = Map.empty\<rparr>)"

definition on_topic :: "hub \<Rightarrow> string \<Rightarrow> nat list" where
  "on_topic h topic = listed (h_topics h) topic"

definition subscriber_count :: "hub \<Rightarrow> string \<Rightarrow> int" where
  "subscriber_count h topic = int (length (on_topic h topic))"

definition hub_topics :: "hub \<Rightarrow> string list" where
  "hub_topics h = map fst (h_topics h)"

definition subscribe :: "string \<Rightarrow> nat \<Rightarrow> hub \<Rightarrow> hub" where
  "subscribe topic m h =
     h\<lparr>h_topics := AList.update topic (on_topic h topic @ [m]) (h_topics h),
       h_subs := (h_subs h)(m \<mapsto> new_subscriber topic (h_buffer h))\<rparr>"

definition hub_drop :: "nat \<Rightarrow> hub \<Rightarrow> hub" where
  "hub_drop m h =
     (case h_subs h m of
        None \<Rightarrow> h
      | Some s \<Rightarrow> h\<lparr>h_topics := unlist (s_topic s) m (h_topics h)\<rparr>)"

fun publish_loop :: "server_sent_event \<Rightarrow> nat list \<Rightarrow> hub \<Rightarrow> int \<times> hub" where
  "publish_loop e [] h = (0, h)"
| "publish_loop e (m # ms) h =
     (case h_subs h m of
        None \<Rightarrow> publish_loop e ms h
      | Some s \<Rightarrow>
          (case subscriber_offer e s of
             (True, s1) \<Rightarrow> (case publish_loop e ms (h\<lparr>h_subs := (h_subs h)(m \<mapsto> s1)\<rparr>) of (n, h1) \<Rightarrow> (n + 1, h1))
           | (False, s1) \<Rightarrow> publish_loop e ms (hub_drop m (h\<lparr>h_subs := (h_subs h)(m \<mapsto> s1)\<rparr>))))"

definition hub_publish :: "string \<Rightarrow> server_sent_event \<Rightarrow> hub \<Rightarrow> int \<times> hub" where
  "hub_publish topic e h = publish_loop e (on_topic h topic) h"

fun close_loop :: "nat list \<Rightarrow> hub \<Rightarrow> hub" where
  "close_loop [] h = h"
| "close_loop (m # ms) h =
     close_loop ms (hub_drop m (h\<lparr>h_subs := (h_subs h)(m := map_option subscriber_close (h_subs h m))\<rparr>))"

definition hub_close :: "string option \<Rightarrow> hub \<Rightarrow> int \<times> hub" where
  "hub_close topic h =
     (let targets = (case topic of Some t \<Rightarrow> on_topic h t | None \<Rightarrow> concat (map snd (h_topics h))) in
      (int (length targets), close_loop targets h))"

definition user_topic :: "string \<Rightarrow> string" where
  "user_topic user_id = ''user:'' @ user_id"

subsection \<open>Streams together\<close>

text \<open>An event published on a topic is noted for every stream of that topic that was opened before.\<close>

definition note_published :: "string \<Rightarrow> server_sent_event \<Rightarrow> hub \<Rightarrow> hub" where
  "note_published topic e h =
     h\<lparr>h_subs := (\<lambda>m. map_option (\<lambda>s. if s_topic s = topic then s\<lparr>s_since := s_since s @ [e]\<rparr> else s) (h_subs h m))\<rparr>"

inductive hub_step :: "hub \<Rightarrow> hub \<Rightarrow> bool" where
  subscribes: "h_subs h m = None \<Longrightarrow> hub_step h (subscribe topic m h)"
| publishes: "hub_step h (snd (hub_publish topic e (note_published topic e h)))"
| reads: "h_subs h m = Some s \<Longrightarrow> s_end s = None \<Longrightarrow> subscriber_next s = (y, s') \<Longrightarrow> hub_step h (h\<lparr>h_subs := (h_subs h)(m \<mapsto> s')\<rparr>)"
| leaves: "h_subs h m = Some s \<Longrightarrow>
     hub_step h (hub_drop m (h\<lparr>h_subs := (h_subs h)(m \<mapsto> (if s_end s = None then s\<lparr>s_end := Some Left\<rparr> else s))\<rparr>))"
| closes: "hub_step h (snd (hub_close topic h))"

abbreviation hub_reachable :: "hub \<Rightarrow> bool" where
  "hub_reachable \<equiv> reach (\<lambda>h. \<exists>n. new_hub n = Some h) hub_step"

section \<open>Lemmas\<close>

subsection \<open>One stream\<close>

text \<open>
  The queue is a run of events and at most one terminal envelope behind them. What was yielded and
  what is queued is the beginning of what was published; all of it as long as the stream is open. A
  stream that misses something has the envelope that says so, or had it, or has left.
\<close>

definition sub_ok :: "subscriber \<Rightarrow> bool" where
  "sub_ok s \<longleftrightarrow>
     (\<exists>es tail rest. s_queue s = map Event es @ tail \<and> int (length es) \<le> s_buffer s \<and> s_since s = s_yielded s @ es @ rest \<and>
        (tail = [] \<or> tail = [Overflowed] \<or> tail = [Closed]) \<and> (s_terminated s \<longrightarrow> tail \<noteq> [] \<or> s_end s \<noteq> None) \<and>
        (\<not> s_terminated s \<longrightarrow> tail = []) \<and> (\<not> s_terminated s \<longrightarrow> s_end s = None \<longrightarrow> rest = []))"

lemma sub_okE:
  assumes "sub_ok s"
  obtains es tail rest where "s_queue s = map Event es @ tail" "int (length es) \<le> s_buffer s" "s_since s = s_yielded s @ es @ rest"
    "tail = [] \<or> tail = [Overflowed] \<or> tail = [Closed]" "s_terminated s \<longrightarrow> tail \<noteq> [] \<or> s_end s \<noteq> None"
    "\<not> s_terminated s \<longrightarrow> tail = []" "\<not> s_terminated s \<longrightarrow> s_end s = None \<longrightarrow> rest = []"
  using assms unfolding sub_ok_def by (elim exE conjE) (rule that; assumption)

lemma sub_okI:
  assumes "s_queue s = map Event es @ tail" "int (length es) \<le> s_buffer s" "s_since s = s_yielded s @ es @ rest"
    "tail = [] \<or> tail = [Overflowed] \<or> tail = [Closed]" "s_terminated s \<Longrightarrow> tail \<noteq> [] \<or> s_end s \<noteq> None"
    "\<not> s_terminated s \<Longrightarrow> tail = []" "\<not> s_terminated s \<Longrightarrow> s_end s = None \<Longrightarrow> rest = []"
  shows "sub_ok s"
  unfolding sub_ok_def by (intro exI [of _ es] exI [of _ tail] exI [of _ rest] conjI impI) (use assms in simp_all)

lemma sub_ok_next:
  assumes "sub_ok s" "s_end s = None" "subscriber_next s = (y, s')"
  shows "sub_ok s' \<and> s_topic s' = s_topic s \<and> (s_terminated s' = s_terminated s) \<and> (s_end s' = None \<or> s_terminated s)"
proof -
  from assms(1) obtain es tail rest where s: "s_queue s = map Event es @ tail" "int (length es) \<le> s_buffer s" "s_since s = s_yielded s @ es @ rest"
      "tail = [] \<or> tail = [Overflowed] \<or> tail = [Closed]" "s_terminated s \<longrightarrow> tail \<noteq> [] \<or> s_end s \<noteq> None"
      "\<not> s_terminated s \<longrightarrow> tail = []" "\<not> s_terminated s \<longrightarrow> s_end s = None \<longrightarrow> rest = []"
    by (rule sub_okE)
  show ?thesis
  proof (cases es)
    case (Cons e es')
    with s(1) assms(3) have s': "s' = s\<lparr>s_queue := map Event es' @ tail, s_yielded := s_yielded s @ [e]\<rparr>" by (auto simp: subscriber_next_def)
    then have "sub_ok s'" using s Cons assms(2) by (intro sub_okI [where es = es' and tail = tail and rest = rest]) auto
    with s' assms(2) show ?thesis by simp
  next
    case Nil
    with s(1,4) consider "tail = []" "s' = s" | "tail = [Overflowed]" "s' = s\<lparr>s_queue := [], s_end := Some Notice\<rparr>"
      | "tail = [Closed]" "s' = s\<lparr>s_queue := [], s_end := Some HubClosed\<rparr>"
      using assms(3) by (auto simp: subscriber_next_def)
    then show ?thesis
    proof cases
      case 1
      with assms show ?thesis by simp
    next
      case 2
      then have "sub_ok s'" using s Nil by (intro sub_okI [where es = "[]" and tail = "[]" and rest = rest]) auto
      with 2 s show ?thesis by auto
    next
      case 3
      then have "sub_ok s'" using s Nil by (intro sub_okI [where es = "[]" and tail = "[]" and rest = rest]) auto
      with 3 s show ?thesis by auto
    qed
  qed
qed

text \<open>An event is published: the open stream takes it, or is ended with the envelope that says so.\<close>

lemma sub_ok_published:
  assumes "sub_ok s" "\<not> s_terminated s" "s_end s = None" "1 \<le> s_buffer s" "subscriber_offer e (s\<lparr>s_since := s_since s @ [e]\<rparr>) = (b, s')"
  shows "sub_ok s' \<and> s_topic s' = s_topic s \<and> s_end s' = None \<and> s_buffer s' = s_buffer s \<and> s_terminated s' = (\<not> b)"
proof -
  from assms(1) obtain es where s: "s_queue s = map Event es" "int (length es) \<le> s_buffer s" "s_since s = s_yielded s @ es"
    by (elim sub_okE) (use assms(2,3) in auto)
  show ?thesis
  proof (cases "int (length es) \<ge> s_buffer s")
    case True
    then have s': "s' = s\<lparr>s_since := s_since s @ [e], s_terminated := True, s_queue := s_queue s @ [Overflowed]\<rparr>" "\<not> b"
      using s assms by (auto simp: subscriber_offer_def)
    then have "sub_ok s'" using s by (intro sub_okI [where es = es and tail = "[Overflowed]" and rest = "[e]"]) auto
    with s' assms show ?thesis by simp
  next
    case False
    then have s': "s' = s\<lparr>s_since := s_since s @ [e], s_queue := s_queue s @ [Event e]\<rparr>" b
      using s assms by (auto simp: subscriber_offer_def)
    then have "sub_ok s'" using s False assms(2,3) by (intro sub_okI [where es = "es @ [e]" and tail = "[]" and rest = "[]"]) auto
    with s' assms show ?thesis by simp
  qed
qed

text \<open>A stream that is no longer open misses what is published from then on.\<close>

lemma sub_ok_missed:
  assumes "sub_ok s" "s_terminated s \<or> s_end s \<noteq> None"
  shows "sub_ok (s\<lparr>s_since := s_since s @ [e]\<rparr>)"
  using assms(1)
proof (rule sub_okE)
  fix es tail rest
  assume "s_queue s = map Event es @ tail" "int (length es) \<le> s_buffer s" "s_since s = s_yielded s @ es @ rest"
    "tail = [] \<or> tail = [Overflowed] \<or> tail = [Closed]" "s_terminated s \<longrightarrow> tail \<noteq> [] \<or> s_end s \<noteq> None"
    "\<not> s_terminated s \<longrightarrow> tail = []" "\<not> s_terminated s \<longrightarrow> s_end s = None \<longrightarrow> rest = []"
  with assms(2) show ?thesis by (intro sub_okI [where es = es and tail = tail and rest = "rest @ [e]"]) auto
qed

lemma sub_ok_close:
  assumes "sub_ok s"
  shows "sub_ok (subscriber_close s)"
  using assms
proof (rule sub_okE)
  fix es tail rest
  assume s: "s_queue s = map Event es @ tail" "int (length es) \<le> s_buffer s" "s_since s = s_yielded s @ es @ rest"
    "tail = [] \<or> tail = [Overflowed] \<or> tail = [Closed]" "s_terminated s \<longrightarrow> tail \<noteq> [] \<or> s_end s \<noteq> None"
    "\<not> s_terminated s \<longrightarrow> tail = []" "\<not> s_terminated s \<longrightarrow> s_end s = None \<longrightarrow> rest = []"
  show ?thesis
  proof (cases "s_terminated s")
    case True
    with assms show ?thesis by (simp add: subscriber_close_def)
  next
    case False
    with s show ?thesis by (intro sub_okI [where es = es and tail = "[Closed]" and rest = rest]) (simp_all add: subscriber_close_def)
  qed
qed

lemma sub_ok_leave:
  assumes "sub_ok s"
  shows "sub_ok (s\<lparr>s_end := Some x\<rparr>)"
  using assms
proof (rule sub_okE)
  fix es tail rest
  assume "s_queue s = map Event es @ tail" "int (length es) \<le> s_buffer s" "s_since s = s_yielded s @ es @ rest"
    "tail = [] \<or> tail = [Overflowed] \<or> tail = [Closed]" "\<not> s_terminated s \<longrightarrow> tail = []"
  then show ?thesis by (intro sub_okI [where es = es and tail = tail and rest = rest]) auto
qed

subsection \<open>All streams\<close>

text \<open>
  The registry lists exactly the open streams. \<open>K\<close> is what holds of each stream, so that the loops can
  be followed from one stream to the next; \<open>hub_inv_but m\<close> is the moment before stream \<open>m\<close> is dropped.
\<close>

definition is_open :: "subscriber \<Rightarrow> bool" where
  "is_open s \<longleftrightarrow> \<not> s_terminated s \<and> s_end s = None"

definition hub_inv :: "(nat \<Rightarrow> subscriber \<Rightarrow> bool) \<Rightarrow> hub \<Rightarrow> bool" where
  "hub_inv K h \<longleftrightarrow> 1 \<le> h_buffer h \<and> index_ok (h_topics h) \<and>
     (\<forall>m s. h_subs h m = Some s \<longrightarrow> K m s \<and> s_buffer s = h_buffer h) \<and>
     (\<forall>m t. m \<in> set (on_topic h t) \<longleftrightarrow> (\<exists>s. h_subs h m = Some s \<and> s_topic s = t \<and> is_open s))"

definition hub_inv_but :: "nat \<Rightarrow> (nat \<Rightarrow> subscriber \<Rightarrow> bool) \<Rightarrow> hub \<Rightarrow> bool" where
  "hub_inv_but m K h \<longleftrightarrow> 1 \<le> h_buffer h \<and> index_ok (h_topics h) \<and>
     (\<forall>m s. h_subs h m = Some s \<longrightarrow> K m s \<and> s_buffer s = h_buffer h) \<and>
     (\<forall>m' t. m' \<noteq> m \<longrightarrow> (m' \<in> set (on_topic h t) \<longleftrightarrow> (\<exists>s. h_subs h m' = Some s \<and> s_topic s = t \<and> is_open s))) \<and>
     (\<exists>s. h_subs h m = Some s \<and> \<not> is_open s \<and> (\<forall>t. m \<in> set (on_topic h t) \<longrightarrow> t = s_topic s))"

abbreviation hub_ok :: "hub \<Rightarrow> bool" where
  "hub_ok \<equiv> hub_inv (\<lambda>m. sub_ok)"

lemma on_topic_drop:
  assumes "index_ok (h_topics h)" "h_subs h m = Some s"
  shows "on_topic (hub_drop m h) = (on_topic h)(s_topic s := removeAll m (on_topic h (s_topic s)))" "index_ok (h_topics (hub_drop m h))"
    "h_subs (hub_drop m h) = h_subs h" "h_buffer (hub_drop m h) = h_buffer h"
  using unlist_spec [OF assms(1), of "s_topic s" m] assms(2) by (auto simp: hub_drop_def on_topic_def fun_eq_iff)

lemma hub_inv_drop:
  assumes "hub_inv_but m K h"
  shows "hub_inv K (hub_drop m h)"
proof -
  obtain s where s: "h_subs h m = Some s" "\<not> is_open s" "\<And>t. m \<in> set (on_topic h t) \<Longrightarrow> t = s_topic s"
    using assms by (auto simp: hub_inv_but_def)
  have ix: "index_ok (h_topics h)" using assms by (simp add: hub_inv_but_def)
  note d = on_topic_drop [OF ix s(1)]
  have "m' \<in> set (on_topic (hub_drop m h) t) \<longleftrightarrow> (\<exists>s. h_subs h m' = Some s \<and> s_topic s = t \<and> is_open s)" for m' t
  proof (cases "m' = m")
    case True
    with s show ?thesis by (auto simp: d(1))
  next
    case False
    with assms show ?thesis by (auto simp: d(1) hub_inv_but_def)
  qed
  with assms d show ?thesis by (simp add: hub_inv_def hub_inv_but_def)
qed

lemma hub_inv_update:
  assumes h: "hub_inv K h" "h_subs h m = Some s" and K: "\<And>m' x. m' \<noteq> m \<Longrightarrow> K m' x \<Longrightarrow> K' m' x" "K' m s'"
    and s': "s_topic s' = s_topic s" "s_buffer s' = s_buffer s"
  shows "is_open s' = is_open s \<Longrightarrow> hub_inv K' (h\<lparr>h_subs := (h_subs h)(m \<mapsto> s')\<rparr>)"
    "\<not> is_open s' \<Longrightarrow> hub_inv_but m K' (h\<lparr>h_subs := (h_subs h)(m \<mapsto> s')\<rparr>)"
proof -
  have t: "on_topic (h\<lparr>h_subs := (h_subs h)(m \<mapsto> s')\<rparr>) = on_topic h" by (simp add: on_topic_def fun_eq_iff)
  show "hub_inv K' (h\<lparr>h_subs := (h_subs h)(m \<mapsto> s')\<rparr>)" if "is_open s' = is_open s"
    using assms that unfolding hub_inv_def t by auto
  show "hub_inv_but m K' (h\<lparr>h_subs := (h_subs h)(m \<mapsto> s')\<rparr>)" if "\<not> is_open s'"
    using assms that unfolding hub_inv_def hub_inv_but_def t by auto
qed

lemma hub_ok_subscribe:
  assumes "hub_ok h" "h_subs h m = None"
  shows "hub_ok (subscribe topic m h)"
proof -
  have new: "sub_ok (new_subscriber topic (h_buffer h))"
    using assms(1) by (intro sub_okI [where es = "[]" and tail = "[]" and rest = "[]"]) (simp_all add: new_subscriber_def hub_inv_def)
  have out: "m \<notin> set (on_topic h t)" for t using assms by (auto simp: hub_inv_def)
  have ix: "index_ok (h_topics h)" using assms(1) by (simp add: hub_inv_def)
  have t: "on_topic (subscribe topic m h) = (on_topic h)(topic := on_topic h topic @ [m])"
    by (simp add: subscribe_def on_topic_def fun_eq_iff listed_update)
  have "index_ok (h_topics (subscribe topic m h))"
    using index_ok_update [OF ix] index_okD(3) [OF ix, of topic] out [of topic] by (simp add: subscribe_def on_topic_def)
  moreover have "h_subs (subscribe topic m h) = (h_subs h)(m \<mapsto> new_subscriber topic (h_buffer h))" "h_buffer (subscribe topic m h) = h_buffer h"
    by (simp_all add: subscribe_def)
  ultimately show ?thesis using assms new out unfolding hub_inv_def t by (auto simp: new_subscriber_def is_open_def)
qed

text \<open>Publishing: the streams still to come have the event noted and not offered.\<close>

definition noted :: "nat set \<Rightarrow> server_sent_event \<Rightarrow> nat \<Rightarrow> subscriber \<Rightarrow> bool" where
  "noted M e m s \<longleftrightarrow> (if m \<in> M then \<exists>s0. sub_ok s0 \<and> is_open s0 \<and> s = s0\<lparr>s_since := s_since s0 @ [e]\<rparr> else sub_ok s)"

lemma publish_loop_ok:
  assumes "hub_inv (noted (set ms) e) h" "distinct ms" "\<And>m. m \<in> set ms \<Longrightarrow> h_subs h m \<noteq> None"
  shows "hub_ok (snd (publish_loop e ms h))"
  using assms
proof (induction ms arbitrary: h)
  case Nil
  then show ?case by (simp add: noted_def [abs_def])
next
  case (Cons m ms)
  then obtain s where s: "h_subs h m = Some s" by fastforce
  then have "noted (set (m # ms)) e m s" "s_buffer s = h_buffer h" "1 \<le> h_buffer h" using Cons.prems(1) by (auto simp: hub_inv_def)
  then obtain s0 where s0: "sub_ok s0" "is_open s0" "s = s0\<lparr>s_since := s_since s0 @ [e]\<rparr>" "1 \<le> s_buffer s0" by (auto simp: noted_def)
  obtain b s' where o: "subscriber_offer e s = (b, s')" by fastforce
  have s': "sub_ok s'" "s_topic s' = s_topic s" "s_buffer s' = s_buffer s" "is_open s' = b" "is_open s"
    using sub_ok_published [of s0 e b s'] s0 o by (auto simp: is_open_def)
  let ?h = "h\<lparr>h_subs := (h_subs h)(m \<mapsto> s')\<rparr>"
  have K: "noted (set (m # ms)) e m' x \<Longrightarrow> m' \<noteq> m \<Longrightarrow> noted (set ms) e m' x" for m' x by (simp add: noted_def)
  have Km: "noted (set ms) e m s'" using s'(1) Cons.prems(2) by (simp add: noted_def)
  have up: "b \<Longrightarrow> hub_inv (noted (set ms) e) ?h"
    by (rule hub_inv_update(1) [OF Cons.prems(1) s]) (use K Km s' in auto)
  have down: "\<not> b \<Longrightarrow> hub_inv_but m (noted (set ms) e) ?h"
    by (rule hub_inv_update(2) [OF Cons.prems(1) s]) (use K Km s' in auto)
  show ?case
  proof (cases b)
    case True
    then have "hub_inv (noted (set ms) e) ?h" by (rule up)
    from Cons.IH [OF this] Cons.prems(2,3) have "hub_ok (snd (publish_loop e ms ?h))" by simp
    with True s o show ?thesis by (simp add: case_prod_beta)
  next
    case False
    then have "hub_inv_but m (noted (set ms) e) ?h" by (rule down)
    then have d: "hub_inv (noted (set ms) e) (hub_drop m ?h)" by (rule hub_inv_drop)
    have "h_subs (hub_drop m ?h) = h_subs ?h" by (simp add: hub_drop_def)
    with Cons.IH [OF d] Cons.prems(2,3) have "hub_ok (snd (publish_loop e ms (hub_drop m ?h)))" by simp
    with False s o show ?thesis by simp
  qed
qed

lemma hub_ok_publish:
  assumes "hub_ok h"
  shows "hub_ok (snd (hub_publish topic e (note_published topic e h)))"
proof -
  let ?h = "note_published topic e h"
  have t: "on_topic ?h = on_topic h" by (simp add: note_published_def on_topic_def fun_eq_iff)
  have mem: "m \<in> set (on_topic h topic) \<longleftrightarrow> (\<exists>s. h_subs h m = Some s \<and> s_topic s = topic \<and> is_open s)" for m
    using assms by (simp add: hub_inv_def)
  have "noted (set (on_topic h topic)) e m s' \<and> s_buffer s' = h_buffer h" if m': "h_subs ?h m = Some s'" for m s'
  proof -
    obtain s where s: "h_subs h m = Some s" "s' = (if s_topic s = topic then s\<lparr>s_since := s_since s @ [e]\<rparr> else s)"
      using m' by (auto simp: note_published_def)
    then have ok: "sub_ok s" "s_buffer s = h_buffer h" using assms by (auto simp: hub_inv_def)
    show ?thesis
    proof (cases "m \<in> set (on_topic h topic)")
      case True
      with mem s ok show ?thesis by (auto simp: noted_def)
    next
      case False
      with mem s(1) have "s_topic s = topic \<Longrightarrow> s_terminated s \<or> s_end s \<noteq> None" by (auto simp: is_open_def)
      with s(2) ok False sub_ok_missed [OF ok(1)] show ?thesis by (simp add: noted_def)
    qed
  qed
  moreover have "(\<exists>s'. h_subs ?h m = Some s' \<and> s_topic s' = t \<and> is_open s') \<longleftrightarrow> (\<exists>s. h_subs h m = Some s \<and> s_topic s = t \<and> is_open s)" for m t
    by (cases "h_subs h m") (auto simp: note_published_def is_open_def)
  ultimately have "hub_inv (noted (set (on_topic h topic)) e) ?h"
    using assms unfolding hub_inv_def t by (simp add: note_published_def)
  moreover have "distinct (on_topic h topic)" using assms index_okD(3) by (auto simp: hub_inv_def on_topic_def)
  moreover have "h_subs ?h m \<noteq> None" if "m \<in> set (on_topic h topic)" for m using mem that by (auto simp: note_published_def)
  ultimately show ?thesis unfolding hub_publish_def t by (rule publish_loop_ok)
qed

lemma hub_ok_close_one:
  assumes "hub_ok h"
  shows "hub_ok (hub_drop m (h\<lparr>h_subs := (h_subs h)(m := map_option subscriber_close (h_subs h m))\<rparr>))"
proof (cases "h_subs h m")
  case None
  with assms show ?thesis by (simp add: hub_drop_def fun_upd_idem)
next
  case (Some s)
  then have ok: "sub_ok s" using assms by (auto simp: hub_inv_def)
  have "hub_inv_but m (\<lambda>m. sub_ok) (h\<lparr>h_subs := (h_subs h)(m \<mapsto> subscriber_close s)\<rparr>)"
    by (rule hub_inv_update(2) [OF assms Some]) (use sub_ok_close [OF ok] in \<open>auto simp: subscriber_close_def is_open_def\<close>)
  then show ?thesis using Some by (simp add: hub_inv_drop)
qed

lemma hub_ok_close_loop: "hub_ok h \<Longrightarrow> hub_ok (close_loop ms h)"
  by (induction ms arbitrary: h) (simp_all add: hub_ok_close_one)

lemma hub_ok_init: "new_hub n = Some h \<Longrightarrow> hub_ok h"
  by (auto simp: new_hub_def hub_inv_def on_topic_def split: if_splits)

lemma hub_ok_step:
  assumes "hub_step h h'" "hub_ok h"
  shows "hub_ok h'"
  using assms
proof induction
  case (subscribes h m topic)
  then show ?case by (simp add: hub_ok_subscribe)
next
  case (publishes h topic e)
  then show ?case by (rule hub_ok_publish)
next
  case (reads h m s y s')
  then have ok: "sub_ok s" by (auto simp: hub_inv_def)
  note n = sub_ok_next [OF ok reads(2,3)]
  have b: "s_buffer s' = s_buffer s" using reads(3) by (auto simp: subscriber_next_def split: list.splits hub_envelope.splits)
  have "is_open s' = is_open s" using n reads(2) by (auto simp: is_open_def)
  with hub_inv_update(1) [OF reads(4,1), of "\<lambda>m. sub_ok" s'] n b show ?case by simp
next
  case (leaves h m s)
  then have ok: "sub_ok s" by (auto simp: hub_inv_def)
  let ?s = "if s_end s = None then s\<lparr>s_end := Some Left\<rparr> else s"
  have "sub_ok ?s" using ok sub_ok_leave by simp
  moreover have "\<not> is_open ?s" by (simp add: is_open_def)
  ultimately have "hub_inv_but m (\<lambda>m. sub_ok) (h\<lparr>h_subs := (h_subs h)(m \<mapsto> ?s)\<rparr>)"
    by (intro hub_inv_update(2) [OF leaves(2,1)]) simp_all
  then show ?case by (rule hub_inv_drop)
next
  case (closes h topic)
  then show ?case by (simp add: hub_close_def Let_def hub_ok_close_loop)
qed

interpretation event_hub: transitions "\<lambda>h. \<exists>n. new_hub n = Some h" hub_step hub_ok
  by unfold_locales (auto intro: hub_ok_init hub_ok_step)

section \<open>Properties\<close>

text \<open>
  C10: What a client of the event hub has been sent is a beginning of what was published on its topic
  since it subscribed, whatever other streams, publishers and shutdowns do in between. While the stream is
  open nothing is missing: the rest is exactly what is queued for it. A stream that was closed has the
  envelope that says so as the last one of its queue until it reads it, and a queue never holds more than
  its buffer and that one envelope.
\<close>

theorem stream_has_no_gap:
  assumes "hub_reachable h" "h_subs h m = Some s"
  shows "(\<exists>missed. s_since s = s_yielded s @ missed) \<and>
    (\<not> s_terminated s \<and> s_end s = None \<longrightarrow> map Event (s_since s) = map Event (s_yielded s) @ s_queue s) \<and>
    (s_terminated s \<and> s_end s = None \<longrightarrow> s_queue s \<noteq> [] \<and> last (s_queue s) \<in> {Overflowed, Closed}) \<and>
    subscriber_pending s \<le> s_buffer s + 1"
proof -
  from event_hub.reach_ok [OF assms(1)] assms(2) have "sub_ok s" by (auto simp: hub_inv_def)
  then show ?thesis by (rule sub_okE) (auto simp: subscriber_pending_def)
qed

theorem stream_has_no_gap_witness:
  "\<exists>s. subscriber_pending s = 2 \<and> s_terminated s \<and> (\<exists>missed. s_since s = s_yielded s @ missed) \<and>
     last (s_queue s) \<in> {Overflowed, Closed}"
proof -
  let ?e = "\<lparr>ev_data = ''x'', ev_event = None, ev_id = None, ev_retry = None\<rparr>"
  let ?h0 = "\<lparr>h_buffer = 1, h_topics = [], h_subs = Map.empty\<rparr>"
  let ?h1 = "subscribe ''t'' 0 ?h0"
  let ?h2 = "snd (hub_publish ''t'' ?e (note_published ''t'' ?e ?h1))"
  let ?h3 = "snd (hub_publish ''t'' ?e (note_published ''t'' ?e ?h2))"
  note go = reach_step [of "\<lambda>h. \<exists>n. new_hub n = Some h" hub_step]
  have "new_hub 1 = Some ?h0" by (simp add: new_hub_def)
  then have "hub_reachable ?h0" by (intro reach_init) (rule exI)
  from go [OF this subscribes [of ?h0 0 "''t''"]] have "hub_reachable ?h1" by simp
  from go [OF this publishes] have "hub_reachable ?h2" .
  from go [OF this publishes] have r: "hub_reachable ?h3" .
  let ?s = "\<lparr>s_topic = ''t'', s_buffer = 1, s_queue = [Event ?e, Overflowed], s_terminated = True,
      s_since = [?e, ?e], s_yielded = [], s_end = None\<rparr>"
  have s: "h_subs ?h3 0 = Some ?s"
    by (simp add: hub_publish_def note_published_def subscribe_def on_topic_def listed_def new_subscriber_def
        subscriber_offer_def hub_drop_def)
  have "subscriber_pending ?s = 2" "s_terminated ?s" by (simp_all add: subscriber_pending_def)
  with stream_has_no_gap [OF r s] show ?thesis by (intro exI [of _ ?s]) simp
qed

end
