(* ===== verification/Event_Bus.thy ===== *)
theory Event_Bus
  imports Retry_Loops Py_Json Py_Index
begin

text \<open>
  The in-process event bus: \<open>events/base.py\<close>, \<open>events/catalog.py\<close> and \<open>events/bus.py\<close>.

  An event class is a record of what the bus and the outbox read of it: its names, its \<open>__mro__\<close> with the
  answer of \<open>issubclass(klass, DomainEvent)\<close> for each entry, and its own dataclass fields with their
  defaults. What a subscriber does is a script: it may publish, look at the answer and go on, and it
  ends by returning, raising or being cancelled; overrunning its timeout is raising. Nested publishes
  are bounded by the depth the bus allows, which is what the recursion runs on.
\<close>

section \<open>Model\<close>

subsection \<open>Events\<close>

text \<open>A field holds a JSON value or some other object, of which only the type's name is read.\<close>

datatype field_value = Plain json | Object string

record event_class =
  ec_qualname :: string
  ec_event_name :: string
  ec_mro :: "(string \<times> bool) list"
  ec_fields :: "(string \<times> field_value option) list"

record domain_event =
  de_class :: event_class
  de_event_id :: string
  de_occurred_at :: seconds
  de_values :: "(string \<times> field_value) list"

text \<open>\<open>__init_subclass__\<close>: a class that does not choose an event name gets its own name.\<close>

definition init_subclass :: "string \<Rightarrow> string option \<Rightarrow> string" where
  "init_subclass cls_name own = (case own of Some name \<Rightarrow> name | None \<Rightarrow> cls_name)"

text \<open>\<open>@dataclass(frozen=True, kw_only=True)\<close> of a subclass: the base's fields come first.\<close>

definition event_subclass ::
  "string \<Rightarrow> string option \<Rightarrow> (string \<times> field_value option) list \<Rightarrow> event_class \<Rightarrow> event_class" where
  "event_subclass name own its_fields base =
     \<lparr>ec_qualname = name, ec_event_name = init_subclass name own, ec_mro = (name, True) # ec_mro base,
      ec_fields = ec_fields base @ its_fields\<rparr>"

definition DomainEvent :: event_class where
  "DomainEvent =
     \<lparr>ec_qualname = ''DomainEvent'', ec_event_name = ''DomainEvent'', ec_mro = [(''DomainEvent'', True), (''object'', False)],
      ec_fields = []\<rparr>"

definition UserEvent :: event_class where
  "UserEvent = event_subclass ''UserEvent'' (Some ''user.event'') [(''user_id'', None), (''email'', None)] DomainEvent"

definition UserRegistered :: event_class where
  "UserRegistered =
     event_subclass ''UserRegistered'' (Some ''user.registered'') [(''via'', Some (Plain (JStr ''password'')))] UserEvent"

definition UserLoggedIn :: event_class where
  "UserLoggedIn =
     event_subclass ''UserLoggedIn'' (Some ''user.logged_in'') [(''method'', Some (Plain (JStr ''password'')))] UserEvent"

definition RefreshTokenReuseDetected :: event_class where
  "RefreshTokenReuseDetected =
     event_subclass ''RefreshTokenReuseDetected'' (Some ''user.refresh_token_reuse_detected'')
       [(''user_id'', None), (''family_id'', None), (''sessions_revoked'', None)] DomainEvent"

definition EVENT_TYPES :: "event_class list" where
  "EVENT_TYPES = [UserRegistered, UserLoggedIn, RefreshTokenReuseDetected]"

text \<open>
  Calling the class with keywords. A keyword that is no field, a second \<open>event_id\<close> or \<open>occurred_at\<close>,
  and a field without default that is not given raise \<open>TypeError\<close>.
\<close>

definition construct :: "event_class \<Rightarrow> string \<Rightarrow> seconds \<Rightarrow> (string \<times> field_value) list \<Rightarrow> domain_event option" where
  "construct cls event_id occurred_at kwargs =
     (if list_ex (\<lambda>kv. fst kv \<notin> set (map fst (ec_fields cls))) kwargs then None
      else if list_ex (\<lambda>fd. snd fd = None \<and> map_of kwargs (fst fd) = None) (ec_fields cls) then None
      else Some \<lparr>de_class = cls, de_event_id = event_id, de_occurred_at = occurred_at,
                 de_values = map (\<lambda>fd. (fst fd, case map_of kwargs (fst fd) of Some v \<Rightarrow> v | None \<Rightarrow> the (snd fd))) (ec_fields cls)\<rparr>)"

subsection \<open>Outcomes\<close>

datatype event_exn = HandlerRaised string | TimedOut | EventCycle string int | EventDispatch string "event_exn list"

record subscriber_outcome =
  o_subscriber :: string
  o_ok :: bool
  o_duration_ms :: rat
  o_error :: "event_exn option"

record publish_result =
  pr_event :: domain_event
  pr_outcomes :: "subscriber_outcome list"

definition pr_failures :: "publish_result \<Rightarrow> subscriber_outcome list" where
  "pr_failures r = filter (\<lambda>x. \<not> o_ok x) (pr_outcomes r)"

definition pr_delivered :: "publish_result \<Rightarrow> int" where
  "pr_delivered r = int (length (filter o_ok (pr_outcomes r)))"

definition pr_ok :: "publish_result \<Rightarrow> bool" where
  "pr_ok r \<longleftrightarrow> pr_failures r = []"

definition raise_for_failures :: "publish_result \<Rightarrow> event_exn option" where
  "raise_for_failures r =
     (let errors = List.map_filter o_error (pr_failures r) in
      if errors = [] then None else Some (EventDispatch (ec_event_name (de_class (pr_event r))) errors))"

definition duration_ms :: "seconds \<Rightarrow> rat" where
  "duration_ms s = of_int (round_even (1000 * (s * 1000))) / 1000"

subsection \<open>Subscriptions\<close>

text \<open>A subscription is a handle: the bus it came from and its number there identify it.\<close>

record subscription =
  sub_type :: string
  sub_handler :: nat
  sub_name :: string
  sub_timeout :: "seconds option"
  sub_bus :: nat
  sub_seq :: int

record handler =
  hd_ref :: nat
  hd_async :: bool
  hd_qualname :: string

record event_bus =
  bus_id :: nat
  bus_subs :: "(string \<times> subscription list) list"
  bus_timeout :: "seconds option"
  bus_max_depth :: int
  bus_seq :: int

datatype bus_error = BusTypeError | BusValueError

definition DEFAULT_MAX_DEPTH :: int where
  "DEFAULT_MAX_DEPTH = 8"

definition bad_timeout :: "seconds option \<Rightarrow> bool" where
  "bad_timeout t \<longleftrightarrow> (case t of Some s \<Rightarrow> s \<le> 0 | None \<Rightarrow> False)"

definition new_bus :: "nat \<Rightarrow> seconds option \<Rightarrow> int \<Rightarrow> bus_error + event_bus" where
  "new_bus i timeout max_depth =
     (if max_depth < 1 then Inl BusValueError
      else if bad_timeout timeout then Inl BusValueError
      else Inr \<lparr>bus_id = i, bus_subs = [], bus_timeout = timeout, bus_max_depth = max_depth, bus_seq = 0\<rparr>)"

text \<open>What is registered for is an event class, or something else: \<^term>\<open>None\<close>.\<close>

definition bus_subscribe ::
  "event_class option \<Rightarrow> handler \<Rightarrow> string option \<Rightarrow> seconds option \<Rightarrow> event_bus \<Rightarrow> (bus_error + subscription) \<times> event_bus" where
  "bus_subscribe event_type h name timeout b =
     (case event_type of
        None \<Rightarrow> (Inl BusTypeError, b)
      | Some cls \<Rightarrow>
          if \<not> hd_async h then (Inl BusTypeError, b)
          else if bad_timeout timeout then (Inl BusValueError, b)
          else
            (let s = \<lparr>sub_type = ec_qualname cls, sub_handler = hd_ref h,
                      sub_name = (case name of Some n \<Rightarrow> (if n = [] then hd_qualname h else n) | None \<Rightarrow> hd_qualname h),
                      sub_timeout = (case timeout of Some t \<Rightarrow> Some t | None \<Rightarrow> bus_timeout b),
                      sub_bus = bus_id b, sub_seq = bus_seq b + 1\<rparr>
             in (Inr s, b\<lparr>bus_seq := bus_seq b + 1,
                         bus_subs := AList.update (sub_type s) (listed (bus_subs b) (sub_type s) @ [s]) (bus_subs b)\<rparr>)))"

text \<open>The decorator form registers and gives the handler back.\<close>

definition bus_on ::
  "event_class option \<Rightarrow> string option \<Rightarrow> seconds option \<Rightarrow> handler \<Rightarrow> event_bus \<Rightarrow> (bus_error + handler) \<times> event_bus" where
  "bus_on event_type name timeout h b =
     (case bus_subscribe event_type h name timeout b of
        (Inl err, b1) \<Rightarrow> (Inl err, b1)
      | (Inr _, b1) \<Rightarrow> (Inr h, b1))"

definition bus_unsubscribe :: "subscription \<Rightarrow> event_bus \<Rightarrow> event_bus" where
  "bus_unsubscribe s b =
     (if sub_bus s \<noteq> bus_id b then b
      else
        (case map_of (bus_subs b) (sub_type s) of
           None \<Rightarrow> b
         | Some handlers \<Rightarrow>
             if s \<notin> set handlers then b
             else
               (let rest = remove1 s handlers in
                if rest = [] then b\<lparr>bus_subs := AList.delete (sub_type s) (bus_subs b)\<rparr>
                else b\<lparr>bus_subs := AList.update (sub_type s) rest (bus_subs b)\<rparr>)))"

definition bus_clear :: "event_bus \<Rightarrow> event_bus" where
  "bus_clear b = b\<lparr>bus_subs := []\<rparr>"

definition subscribers_for :: "event_bus \<Rightarrow> event_class \<Rightarrow> subscription list" where
  "subscribers_for b cls = concat (map (\<lambda>kd. if snd kd then listed (bus_subs b) (fst kd) else []) (ec_mro cls))"

subsection \<open>Publishing\<close>

datatype publish_error = Cycle string int | PublishCancelled

datatype script =
    Return
  | Raise event_exn
  | Cancelled
  | Publish domain_event "publish_error + publish_result \<Rightarrow> script"

datatype subscriber_end = Finished | Failed event_exn | WasCancelled

primrec run_script :: "(domain_event \<Rightarrow> publish_error + publish_result) \<Rightarrow> script \<Rightarrow> subscriber_end" where
  "run_script pub Return = Finished"
| "run_script pub (Raise x) = Failed x"
| "run_script pub Cancelled = WasCancelled"
| "run_script pub (Publish e k) = run_script pub (k (pub e))"

text \<open>\<open>_invoke\<close>, given how long the handler took and how it ended.\<close>

definition invoke :: "subscription \<Rightarrow> seconds \<Rightarrow> subscriber_end \<Rightarrow> publish_error + subscriber_outcome" where
  "invoke s took r =
     (case r of
        Finished \<Rightarrow> Inr \<lparr>o_subscriber = sub_name s, o_ok = True, o_duration_ms = duration_ms took, o_error = None\<rparr>
      | Failed x \<Rightarrow> Inr \<lparr>o_subscriber = sub_name s, o_ok = False, o_duration_ms = duration_ms took, o_error = Some x\<rparr>
      | WasCancelled \<Rightarrow> Inl PublishCancelled)"

text \<open>\<open>asyncio.gather\<close> without \<open>return_exceptions\<close>: the results in order, or the first exception.\<close>

fun gather :: "('e + 'a) list \<Rightarrow> 'e + 'a list" where
  "gather [] = Inr []"
| "gather (Inl e # rs) = Inl e"
| "gather (Inr x # rs) = (case gather rs of Inl e \<Rightarrow> Inl e | Inr xs \<Rightarrow> Inr (x # xs))"

record behaviour =
  bh_script :: "subscription \<Rightarrow> domain_event \<Rightarrow> script"
  bh_took :: "subscription \<Rightarrow> domain_event \<Rightarrow> seconds"

text \<open>\<open>publish\<close> with so many levels left; what a handler publishes has one level less.\<close>

primrec publish_at :: "event_bus \<Rightarrow> behaviour \<Rightarrow> nat \<Rightarrow> domain_event \<Rightarrow> publish_error + publish_result" where
  "publish_at b bh 0 e = Inl (Cycle (ec_event_name (de_class e)) (bus_max_depth b))"
| "publish_at b bh (Suc n) e =
     (let subs = subscribers_for b (de_class e) in
      if subs = [] then Inr \<lparr>pr_event = e, pr_outcomes = []\<rparr>
      else
        (case gather (map (\<lambda>s. invoke s (bh_took bh s e) (run_script (publish_at b bh n) (bh_script bh s e))) subs) of
           Inl err \<Rightarrow> Inl err
         | Inr outcomes \<Rightarrow> Inr \<lparr>pr_event = e, pr_outcomes = outcomes\<rparr>))"

definition bus_publish :: "event_bus \<Rightarrow> behaviour \<Rightarrow> int \<Rightarrow> domain_event \<Rightarrow> publish_error + publish_result" where
  "bus_publish b bh depth e = publish_at b bh (nat (bus_max_depth b - depth)) e"

section \<open>Specification\<close>

text \<open>
  What the bus promises about its registrations: a list of the live ones, in the order they were made,
  and each class of the event's \<open>__mro__\<close>, most specific first, contributes those made for it.
\<close>

datatype bus_op =
    Subscribes "event_class option" handler "string option" "seconds option"
  | Unsubscribes subscription
  | Clears

fun bus_step :: "event_bus \<Rightarrow> bus_op \<Rightarrow> event_bus" where
  "bus_step b (Subscribes t h n to) = snd (bus_subscribe t h n to b)"
| "bus_step b (Unsubscribes s) = bus_unsubscribe s b"
| "bus_step b Clears = bus_clear b"

fun live_step :: "event_bus \<Rightarrow> subscription list \<Rightarrow> bus_op \<Rightarrow> subscription list" where
  "live_step b live (Subscribes t h n to) =
     (case fst (bus_subscribe t h n to b) of Inl _ \<Rightarrow> live | Inr s \<Rightarrow> live @ [s])"
| "live_step b live (Unsubscribes s) = (if sub_bus s = bus_id b then remove1 s live else live)"
| "live_step b live Clears = []"

fun bus_run :: "event_bus \<Rightarrow> subscription list \<Rightarrow> bus_op list \<Rightarrow> event_bus \<times> subscription list" where
  "bus_run b live [] = (b, live)"
| "bus_run b live (op # ops) = bus_run (bus_step b op) (live_step b live op) ops"

section \<open>Lemmas\<close>

subsection \<open>Registrations\<close>

definition bus_ok :: "event_bus \<Rightarrow> subscription list \<Rightarrow> bool" where
  "bus_ok b live \<longleftrightarrow> distinct (map fst (bus_subs b)) \<and> (\<forall>k xs. map_of (bus_subs b) k = Some xs \<longrightarrow> xs \<noteq> []) \<and>
     (\<forall>k. listed (bus_subs b) k = filter (\<lambda>s. sub_type s = k) live)"

lemma bus_ok_new: "new_bus i t d = Inr b \<Longrightarrow> bus_ok b []"
  by (auto simp: new_bus_def bus_ok_def split: if_splits)

lemma bus_ok_subscribe:
  assumes "bus_ok b live" "bus_subscribe t h n to b = (r, b')"
  shows "bus_ok b' (case r of Inl _ \<Rightarrow> live | Inr s \<Rightarrow> live @ [s])"
proof (cases r)
  case (Inl err)
  then have "b' = b" using assms(2) by (auto simp: bus_subscribe_def Let_def split: option.splits if_splits)
  with Inl assms(1) show ?thesis by simp
next
  case (Inr s)
  then have b': "bus_subs b' = AList.update (sub_type s) (listed (bus_subs b) (sub_type s) @ [s]) (bus_subs b)"
    using assms(2) by (auto simp: bus_subscribe_def Let_def split: option.splits if_splits)
  have "xs \<noteq> []" if "map_of (bus_subs b') k = Some xs" for k xs
    using that assms(1) unfolding b' bus_ok_def update_conv' by (cases "k = sub_type s") auto
  moreover have "listed (bus_subs b') k = filter (\<lambda>x. sub_type x = k) (live @ [s])" for k
    using assms(1) unfolding b' bus_ok_def by (simp add: listed_update)
  ultimately show ?thesis using assms(1) Inr by (simp add: bus_ok_def b' distinct_update)
qed

lemma bus_ok_unsubscribe:
  assumes "bus_ok b live" "sub_bus s = bus_id b"
  shows "bus_ok (bus_unsubscribe s b) (remove1 s live)"
proof -
  let ?here = "filter (\<lambda>x. sub_type x = sub_type s) live"
  have other: "filter (\<lambda>x. sub_type x = k) (remove1 s live) =
      (if k = sub_type s then remove1 s ?here else filter (\<lambda>x. sub_type x = k) live)" for k
    by (simp add: filter_remove1 remove1_idem)
  have l: "listed (bus_subs b) k = filter (\<lambda>x. sub_type x = k) live" for k using assms(1) by (simp add: bus_ok_def)
  show ?thesis
  proof (cases "s \<in> set ?here")
    case False
    then have "bus_unsubscribe s b = b" using l [of "sub_type s"]
      by (auto simp: bus_unsubscribe_def listed_def split: option.splits)
    with False assms(1) other show ?thesis by (simp add: bus_ok_def remove1_idem)
  next
    case True
    then have "?here \<noteq> []" by (auto simp: filter_empty_conv)
    then have m: "map_of (bus_subs b) (sub_type s) = Some ?here" using l [of "sub_type s"]
      by (simp add: listed_def split: option.splits)
    have b: "bus_unsubscribe s b =
        b\<lparr>bus_subs := (if remove1 s ?here = [] then AList.delete (sub_type s) (bus_subs b) else AList.update (sub_type s) (remove1 s ?here) (bus_subs b))\<rparr>"
      using m True assms(2) by (simp add: bus_unsubscribe_def Let_def)
    have "listed (bus_subs (bus_unsubscribe s b)) = (listed (bus_subs b))(sub_type s := remove1 s ?here)"
      by (simp add: b listed_delete listed_update)
    then have "listed (bus_subs (bus_unsubscribe s b)) k = filter (\<lambda>x. sub_type x = k) (remove1 s live)" for k
      using l by (simp add: other)
    moreover have "distinct (map fst (bus_subs (bus_unsubscribe s b)))"
      using assms(1) by (simp add: b bus_ok_def distinct_update distinct_delete)
    moreover have "map_of (bus_subs (bus_unsubscribe s b)) k = Some xs \<Longrightarrow> xs \<noteq> []" for k xs
      using assms(1) by (auto simp: b bus_ok_def update_conv' delete_conv' split: if_splits)
    ultimately show ?thesis by (simp add: bus_ok_def)
  qed
qed

lemma bus_ok_step: "bus_ok b live \<Longrightarrow> bus_ok (bus_step b op) (live_step b live op)"
proof (cases op)
  case (Subscribes t h n to)
  assume "bus_ok b live"
  from bus_ok_subscribe [OF this, of t h n to] Subscribes show ?thesis by (simp add: prod_eq_iff)
next
  case (Unsubscribes s)
  assume "bus_ok b live"
  with Unsubscribes bus_ok_unsubscribe [of b live s] show ?thesis by (simp add: bus_unsubscribe_def)
qed (simp add: bus_clear_def bus_ok_def)

lemma bus_ok_run: "bus_ok b live \<Longrightarrow> (case bus_run b live ops of (b', live') \<Rightarrow> bus_ok b' live')"
  by (induction ops arbitrary: b live) (simp_all add: bus_ok_step)

subsection \<open>Publishing\<close>

text \<open>The body of \<open>publish\<close> as it is written, with the depth counted upwards.\<close>

lemma publish_unfold:
  "bus_publish b bh depth e =
     (if depth \<ge> bus_max_depth b then Inl (Cycle (ec_event_name (de_class e)) (bus_max_depth b))
      else
        (let subs = subscribers_for b (de_class e) in
         if subs = [] then Inr \<lparr>pr_event = e, pr_outcomes = []\<rparr>
         else
           (case gather (map (\<lambda>s. invoke s (bh_took bh s e) (run_script (bus_publish b bh (depth + 1)) (bh_script bh s e))) subs) of
              Inl err \<Rightarrow> Inl err
            | Inr outcomes \<Rightarrow> Inr \<lparr>pr_event = e, pr_outcomes = outcomes\<rparr>)))"
proof (cases "depth \<ge> bus_max_depth b")
  case False
  then obtain n where n: "nat (bus_max_depth b - depth) = Suc n" by (metis Suc_nat_eq_nat_zadd1 add.commute diff_gt_0_iff_gt not_le zless_nat_eq_int_zless gr0_conv_Suc zero_less_nat_eq)
  then have "nat (bus_max_depth b - (depth + 1)) = n" by linarith
  then have "bus_publish b bh (depth + 1) = publish_at b bh n" by (simp add: bus_publish_def fun_eq_iff)
  moreover have "bus_publish b bh depth e = publish_at b bh (Suc n) e" by (simp only: bus_publish_def n)
  ultimately show ?thesis using False by (simp add: Let_def)
qed (simp add: bus_publish_def)

lemma gather_map_Inr [simp]: "gather (map Inr xs) = Inr xs"
  by (induction xs) simp_all

lemma gather_Inr: "gather rs = Inr xs \<longleftrightarrow> rs = map Inr xs"
proof
  show "gather rs = Inr xs \<Longrightarrow> rs = map Inr xs"
    by (induction rs arbitrary: xs rule: gather.induct) (auto split: sum.splits)
qed simp

lemma invoke_ok: "invoke s took r = Inr x \<Longrightarrow> o_ok x \<longleftrightarrow> r = Finished"
  by (auto simp: invoke_def split: subscriber_end.splits)

lemma invoke_error: "invoke s took r = Inr x \<Longrightarrow> (o_error x = None) \<longleftrightarrow> o_ok x"
  by (auto simp: invoke_def split: subscriber_end.splits)

lemma no_failures:
  assumes "\<And>x. x \<in> set (pr_outcomes r) \<Longrightarrow> (o_error x = None) \<longleftrightarrow> o_ok x"
  shows "raise_for_failures r = None \<longleftrightarrow> (\<forall>x \<in> set (pr_outcomes r). o_ok x)"
  using assms by (auto simp: raise_for_failures_def pr_failures_def Let_def List.map_filter_def filter_empty_conv)

lemma publish_reports:
  assumes "bus_publish b bh depth e = Inr r"
  shows "pr_event r = e" "map Inr (pr_outcomes r) = map (\<lambda>s. invoke s (bh_took bh s e) (run_script (bus_publish b bh (depth + 1)) (bh_script bh s e))) (subscribers_for b (de_class e))"
  using assms unfolding publish_unfold [of b bh depth e]
  by (auto simp: Let_def gather_Inr split: if_splits sum.splits)

text \<open>A report without failures means that every matching subscriber finished.\<close>

lemma publish_all_finished:
  assumes "bus_publish b bh depth e = Inr r"
  shows "raise_for_failures r = None \<longleftrightarrow>
    (\<forall>s \<in> set (subscribers_for b (de_class e)). run_script (bus_publish b bh (depth + 1)) (bh_script bh s e) = Finished)"
proof -
  let ?f = "\<lambda>s. invoke s (bh_took bh s e) (run_script (bus_publish b bh (depth + 1)) (bh_script bh s e))"
  have "set (map Inr (pr_outcomes r)) = set (map ?f (subscribers_for b (de_class e)))"
    by (rule arg_cong [OF publish_reports(2) [OF assms]])
  then have o: "Inr ` set (pr_outcomes r) = ?f ` set (subscribers_for b (de_class e))" by simp
  have err: "(o_error x = None) \<longleftrightarrow> o_ok x" if "x \<in> set (pr_outcomes r)" for x
  proof -
    from that have "Inr x \<in> ?f ` set (subscribers_for b (de_class e))" unfolding o [symmetric] by (rule imageI)
    then obtain s where "Inr x = ?f s" by (rule imageE)
    from invoke_error [OF this [symmetric]] show ?thesis .
  qed
  have "(\<forall>x \<in> set (pr_outcomes r). o_ok x) \<longleftrightarrow> (\<forall>y \<in> (Inr ` set (pr_outcomes r) :: (publish_error + subscriber_outcome) set). o_ok (projr y))" by simp
  also have "\<dots> \<longleftrightarrow> (\<forall>s \<in> set (subscribers_for b (de_class e)). o_ok (projr (?f s)))" unfolding o by simp
  also have "\<dots> \<longleftrightarrow> (\<forall>s \<in> set (subscribers_for b (de_class e)). run_script (bus_publish b bh (depth + 1)) (bh_script bh s e) = Finished)"
  proof (intro ball_cong refl)
    fix s assume "s \<in> set (subscribers_for b (de_class e))"
    then have "?f s \<in> Inr ` set (pr_outcomes r)" unfolding o by (rule imageI)
    then obtain x where x: "?f s = Inr x" by (rule imageE)
    from invoke_ok [OF x] show "o_ok (projr (?f s)) \<longleftrightarrow> run_script (bus_publish b bh (depth + 1)) (bh_script bh s e) = Finished"
      by (simp only: x sum.sel)
  qed
  finally show ?thesis using no_failures [OF err] by simp
qed

section \<open>Properties\<close>

text \<open>
  C13: The registrations of the bus refine a plain list. After any sequence of registering, removing and
  clearing, those that receive an event are exactly the live registrations made for a class of the
  event's \<open>__mro__\<close>: classes most specific first, and within one class in the order of registration.
\<close>

theorem bus_refines_live_list:
  assumes "new_bus i timeout max_depth = Inr b0" "bus_run b0 [] ops = (b, live)"
  shows "subscribers_for b cls = concat (map (\<lambda>kd. if snd kd then filter (\<lambda>s. sub_type s = fst kd) live else []) (ec_mro cls))"
proof -
  from bus_ok_run [OF bus_ok_new [OF assms(1)], of ops] assms(2) have "bus_ok b live" by simp
  then show ?thesis by (simp add: subscribers_for_def bus_ok_def cong: if_cong)
qed

definition example_handler :: handler where
  "example_handler = \<lparr>hd_ref = 0, hd_async = True, hd_qualname = ''app.audit''\<rparr>"

definition example_bus :: event_bus where
  "example_bus = projr (new_bus 0 None DEFAULT_MAX_DEPTH)"

definition example_ops :: "bus_op list" where
  "example_ops =
     [Subscribes (Some DomainEvent) example_handler (Some ''audit'') None, Subscribes (Some UserRegistered) example_handler (Some ''welcome'') None,
      Subscribes (Some UserLoggedIn) example_handler (Some ''seen'') None, Subscribes (Some UserEvent) example_handler None (Some 0)]"

theorem bus_refines_live_list_witness:
  "map sub_name (subscribers_for (fst (bus_run example_bus [] example_ops)) UserRegistered) = [''welcome'', ''audit'']"
proof -
  have "new_bus 0 None DEFAULT_MAX_DEPTH = Inr example_bus"
    by (simp add: example_bus_def new_bus_def bad_timeout_def DEFAULT_MAX_DEPTH_def)
  from bus_refines_live_list [OF this surjective_pairing, of example_ops UserRegistered]
  have "map sub_name (subscribers_for (fst (bus_run example_bus [] example_ops)) UserRegistered) =
     map sub_name (concat (map (\<lambda>kd. if snd kd then filter (\<lambda>s. sub_type s = fst kd) (snd (bus_run example_bus [] example_ops)) else []) (ec_mro UserRegistered)))"
    by simp
  also have "\<dots> = [''welcome'', ''audit'']" by code_simp
  finally show ?thesis .
qed

end
