(* ===== verification/Outbox.thy ===== *)
theory Outbox
  imports Event_Bus
begin

text \<open>
  The transactional outbox: \<open>outbox/codec.py\<close>, \<open>outbox/publisher.py\<close>, \<open>outbox/store.py\<close>, \<open>outbox/relay.py\<close>
  and the table of \<open>models/outbox.py\<close>.

  The table is a list of rows. The SQL statements of the store are functions on it; what a transaction
  writes is kept aside until it commits, and the rows it has locked are skipped by the others. Storing
  a payload in a \<open>jsonb\<close> column and reading it back is the argument \<open>jsonb\<close>: it refuses a payload, or gives
  what will be read. \<open>outbox_step\<close> interleaves requests, which stage rows and commit or roll back, with
  any number of relays, which claim, dispatch and commit, or are interrupted anywhere.
\<close>

section \<open>Model\<close>

subsection \<open>Codec\<close>

datatype outbox_error =
    EventNotSerializable string string
  | EventNotDecodable string
  | UnknownEventType string

type_synonym payload = "(string \<times> json) list"

definition IDENTITY_FIELDS :: "string list" where
  "IDENTITY_FIELDS = [''event_id'', ''occurred_at'']"

fun is_scalar :: "json \<Rightarrow> bool" where
  "is_scalar (JList _) = False"
| "is_scalar (JObj _) = False"
| "is_scalar _ = True"

text \<open>\<open>_check_scalar\<close>: one of \<open>SCALAR_TYPES\<close>, and finite.\<close>

fun check_scalar :: "string \<Rightarrow> string \<Rightarrow> field_value \<Rightarrow> outbox_error + json" where
  "check_scalar event field_name (Object _) = Inl (EventNotSerializable event field_name)"
| "check_scalar event field_name (Plain v) =
     (if \<not> is_scalar v then Inl (EventNotSerializable event field_name)
      else (case v of
              JFloat x \<Rightarrow> if finite_float x then Inr v else Inl (EventNotSerializable event field_name)
            | _ \<Rightarrow> Inr v))"

text \<open>\<open>dataclasses.fields(event)\<close> with what \<open>getattr\<close> gives; the two identity fields hold no JSON value.\<close>

definition field_values :: "domain_event \<Rightarrow> (string \<times> field_value) list" where
  "field_values e = [(''event_id'', Plain (JStr (de_event_id e))), (''occurred_at'', Object ''datetime'')] @ de_values e"

fun encode_fields :: "string \<Rightarrow> (string \<times> field_value) list \<Rightarrow> outbox_error + payload" where
  "encode_fields event [] = Inr []"
| "encode_fields event ((k, v) # fs) =
     (if k \<in> set IDENTITY_FIELDS then encode_fields event fs
      else
        (case check_scalar event k v of
           Inl err \<Rightarrow> Inl err
         | Inr x \<Rightarrow> (case encode_fields event fs of Inl err \<Rightarrow> Inl err | Inr p \<Rightarrow> Inr ((k, x) # p))))"

definition encode_payload :: "domain_event \<Rightarrow> outbox_error + payload" where
  "encode_payload e = encode_fields (ec_event_name (de_class e)) (field_values e)"

type_synonym event_registry = "string \<Rightarrow> event_class option"

datatype codec_error = CodecTypeError | CodecNameClash string

fun register_types :: "event_registry \<Rightarrow> event_class option list \<Rightarrow> codec_error + event_registry" where
  "register_types reg [] = Inr reg"
| "register_types reg (None # ts) = Inl CodecTypeError"
| "register_types reg (Some cls # ts) =
     (case reg (ec_event_name cls) of
        Some existing \<Rightarrow>
          if existing \<noteq> cls then Inl (CodecNameClash (ec_event_name cls)) else register_types (reg(ec_event_name cls \<mapsto> cls)) ts
      | None \<Rightarrow> register_types (reg(ec_event_name cls \<mapsto> cls)) ts)"

definition new_codec :: "event_class option list \<Rightarrow> codec_error + event_registry" where
  "new_codec ts = register_types Map.empty ts"

definition default_codec :: "codec_error + event_registry" where
  "default_codec = new_codec (map Some EVENT_TYPES)"

definition decode_payload :: "event_registry \<Rightarrow> string \<Rightarrow> payload \<Rightarrow> string \<Rightarrow> seconds \<Rightarrow> outbox_error + domain_event" where
  "decode_payload reg event_name p event_id occurred_at =
     (case reg event_name of
        None \<Rightarrow> Inl (UnknownEventType event_name)
      | Some cls \<Rightarrow>
          (case construct cls event_id occurred_at (map (\<lambda>(k, v). (k, Plain v)) p) of
             None \<Rightarrow> Inl (EventNotDecodable event_name)
           | Some e \<Rightarrow> Inr e))"

subsection \<open>Rows\<close>

definition EVENT_ID_MAX_LENGTH :: nat where
  "EVENT_ID_MAX_LENGTH = 64"

definition EVENT_NAME_MAX_LENGTH :: nat where
  "EVENT_NAME_MAX_LENGTH = 255"

definition LAST_ERROR_MAX_LENGTH :: nat where
  "LAST_ERROR_MAX_LENGTH = 1000"

text \<open>Primary keys are UUIDs, numbers of 128 bits that the database orders as such.\<close>

record outbox_row =
  ob_id :: nat
  ob_event_id :: string
  ob_event_name :: string
  ob_payload :: payload
  ob_occurred_at :: seconds
  ob_available_at :: seconds
  ob_attempts :: int
  ob_last_error :: "string option"

record pending_event =
  pe_id :: nat
  pe_event_id :: string
  pe_event_name :: string
  pe_payload :: payload
  pe_occurred_at :: seconds
  pe_attempts :: int

record outbox_record =
  or_id :: nat
  or_event_id :: string
  or_event_name :: string

record staged_row =
  st_id :: nat
  st_event_id :: string
  st_event_name :: string
  st_payload :: payload
  st_occurred_at :: seconds

definition check_fits :: "string \<Rightarrow> string \<Rightarrow> string \<Rightarrow> nat \<Rightarrow> outbox_error option" where
  "check_fits event field_name value limit = (if length value > limit then Some (EventNotSerializable event field_name) else None)"

definition outbox_publish :: "nat \<Rightarrow> domain_event \<Rightarrow> staged_row list \<Rightarrow> (outbox_error + outbox_record) \<times> staged_row list" where
  "outbox_publish row_id e sink =
     (let event_name = ec_event_name (de_class e) in
      case check_fits event_name ''event_id'' (de_event_id e) EVENT_ID_MAX_LENGTH of
        Some err \<Rightarrow> (Inl err, sink)
      | None \<Rightarrow>
          (case check_fits event_name ''event_name'' event_name EVENT_NAME_MAX_LENGTH of
             Some err \<Rightarrow> (Inl err, sink)
           | None \<Rightarrow>
               (case encode_payload e of
                  Inl err \<Rightarrow> (Inl err, sink)
                | Inr p \<Rightarrow>
                    (Inr \<lparr>or_id = row_id, or_event_id = de_event_id e, or_event_name = event_name\<rparr>,
                     sink @ [\<lparr>st_id = row_id, st_event_id = de_event_id e, st_event_name = event_name, st_payload = p,
                              st_occurred_at = de_occurred_at e\<rparr>]))))"

text \<open>The insert at the commit, with the columns the database fills in.\<close>

definition insert_row :: "seconds \<Rightarrow> payload \<Rightarrow> staged_row \<Rightarrow> outbox_row" where
  "insert_row now stored s =
     \<lparr>ob_id = st_id s, ob_event_id = st_event_id s, ob_event_name = st_event_name s, ob_payload = stored,
      ob_occurred_at = st_occurred_at s, ob_available_at = now, ob_attempts = 0, ob_last_error = None\<rparr>"

subsection \<open>Store\<close>

definition as_pending :: "outbox_row \<Rightarrow> pending_event" where
  "as_pending row =
     \<lparr>pe_id = ob_id row, pe_event_id = ob_event_id row, pe_event_name = ob_event_name row, pe_payload = ob_payload row,
      pe_occurred_at = ob_occurred_at row, pe_attempts = ob_attempts row\<rparr>"

text \<open>
  \<open>WHERE available_at <= now() ORDER BY available_at, id LIMIT n FOR UPDATE SKIP LOCKED\<close>: locked rows
  are passed over before the limit counts.
\<close>

definition claim_rows :: "int \<Rightarrow> seconds \<Rightarrow> (nat \<Rightarrow> nat option) \<Rightarrow> outbox_row list \<Rightarrow> pending_event list option" where
  "claim_rows limit now locks table =
     (if limit < 1 then None
      else Some (map as_pending (take (nat limit)
        (sort_key ob_available_at (sort_key ob_id (filter (\<lambda>row. ob_available_at row \<le> now \<and> locks (ob_id row) = None) table))))))"

datatype row_write = Completed nat | FailedRow nat string seconds

fun write_id :: "row_write \<Rightarrow> nat" where
  "write_id (Completed i) = i"
| "write_id (FailedRow i _ _) = i"

fun apply_write :: "row_write \<Rightarrow> outbox_row list \<Rightarrow> outbox_row list" where
  "apply_write (Completed i) table = filter (\<lambda>row. ob_id row \<noteq> i) table"
| "apply_write (FailedRow i err available) table =
     map (\<lambda>row. if ob_id row = i
                then row\<lparr>ob_attempts := ob_attempts row + 1, ob_last_error := Some err, ob_available_at := available\<rparr>
                else row) table"

definition batch_complete :: "pending_event \<Rightarrow> row_write" where
  "batch_complete entry = Completed (pe_id entry)"

definition batch_fail :: "seconds \<Rightarrow> pending_event \<Rightarrow> string \<Rightarrow> seconds \<Rightarrow> row_write" where
  "batch_fail now entry err retry_in = FailedRow (pe_id entry) (take LAST_ERROR_MAX_LENGTH err) (now + retry_in)"

subsection \<open>Relay\<close>

record relay_config =
  rc_batch_size :: int
  rc_poll_interval :: seconds
  rc_dispatch_timeout :: seconds
  rc_base_delay :: seconds
  rc_max_delay :: seconds
  rc_jitter :: bool

definition default_relay_config :: relay_config where
  "default_relay_config =
     \<lparr>rc_batch_size = 100, rc_poll_interval = 1, rc_dispatch_timeout = 30, rc_base_delay = 1, rc_max_delay = 300, rc_jitter = True\<rparr>"

definition relay_config_error :: "relay_config \<Rightarrow> bool" where
  "relay_config_error c \<longleftrightarrow> rc_batch_size c < 1 \<or> rc_poll_interval c < 0 \<or> rc_dispatch_timeout c \<le> 0 \<or> rc_base_delay c \<le> 0 \<or>
     rc_max_delay c < rc_base_delay c"

record drain_result =
  dr_claimed :: int
  dr_delivered :: int
  dr_failed :: int

definition drain_empty :: "drain_result \<Rightarrow> bool" where
  "drain_empty r \<longleftrightarrow> dr_claimed r = 0"

datatype relay_exn = CodecFailed outbox_error | DispatchTimeout | DispatchRaised event_exn

text \<open>\<open>_describe\<close>, where \<open>named\<close> is \<open>f"{type(exc).__name__}: {exc}"\<close>.\<close>

fun joined_by :: "string \<Rightarrow> string list \<Rightarrow> string" where
  "joined_by sep [] = []"
| "joined_by sep [x] = x"
| "joined_by sep (x # xs) = x @ sep @ joined_by sep xs"

definition describe_exn :: "(relay_exn \<Rightarrow> string) \<Rightarrow> relay_exn \<Rightarrow> string" where
  "describe_exn named x =
     (case x of
        DispatchRaised (EventDispatch _ errors) \<Rightarrow>
          if errors \<noteq> [] then named x @ '' ['' @ joined_by ''; '' (map (\<lambda>err. named (DispatchRaised err)) errors) @ '']'' else named x
      | _ \<Rightarrow> named x)"

text \<open>How \<open>asyncio.wait_for(dispatcher.publish(event), timeout)\<close> ends.\<close>

datatype dispatch_end = Published publish_result | PublishTimedOut | PublishRaised event_exn | DispatchWasCancelled

datatype delivery = Delivered domain_event | DeliveryFailed relay_exn | DeliveryCancelled

definition deliver :: "event_registry \<Rightarrow> (domain_event \<Rightarrow> dispatch_end) \<Rightarrow> pending_event \<Rightarrow> delivery" where
  "deliver reg publish entry =
     (case decode_payload reg (pe_event_name entry) (pe_payload entry) (pe_event_id entry) (pe_occurred_at entry) of
        Inl err \<Rightarrow> DeliveryFailed (CodecFailed err)
      | Inr e \<Rightarrow>
          (case publish e of
             DispatchWasCancelled \<Rightarrow> DeliveryCancelled
           | PublishTimedOut \<Rightarrow> DeliveryFailed DispatchTimeout
           | PublishRaised x \<Rightarrow> DeliveryFailed (DispatchRaised x)
           | Published r \<Rightarrow> (case raise_for_failures r of Some x \<Rightarrow> DeliveryFailed (DispatchRaised x) | None \<Rightarrow> Delivered e)))"

text \<open>The dispatcher of the application is the bus; the relay publishes at depth zero.\<close>

definition bus_dispatch :: "event_bus \<Rightarrow> behaviour \<Rightarrow> domain_event \<Rightarrow> dispatch_end" where
  "bus_dispatch b bh e =
     (case bus_publish b bh 0 e of
        Inl (Cycle name depth) \<Rightarrow> PublishRaised (EventCycle name depth)
      | Inl PublishCancelled \<Rightarrow> DispatchWasCancelled
      | Inr r \<Rightarrow> Published r)"

text \<open>
  A transaction of \<open>drain_once\<close>: the entries still to handle, the statements executed so far and the
  counters. \<open>now()\<close> is the time the transaction began.
\<close>

record relay_tx =
  tx_now :: seconds
  tx_entries :: "pending_event list"
  tx_writes :: "row_write list"
  tx_result :: drain_result

definition drain_begin :: "relay_config \<Rightarrow> seconds \<Rightarrow> (nat \<Rightarrow> nat option) \<Rightarrow> outbox_row list \<Rightarrow> relay_tx option" where
  "drain_begin c now locks table =
     (case claim_rows (rc_batch_size c) now locks table of
        None \<Rightarrow> None
      | Some entries \<Rightarrow>
          Some \<lparr>tx_now = now, tx_entries = entries, tx_writes = [],
                tx_result = \<lparr>dr_claimed = int (length entries), dr_delivered = 0, dr_failed = 0\<rparr>\<rparr>)"

text \<open>\<open>_handle\<close> of the next entry and the count of it; \<^term>\<open>None\<close> is the cancellation going through.\<close>

definition handle_entry ::
  "relay_config \<Rightarrow> (relay_exn \<Rightarrow> string) \<Rightarrow> rat \<Rightarrow> delivery \<Rightarrow> pending_event \<Rightarrow> relay_tx \<Rightarrow> relay_tx option" where
  "handle_entry c named u d entry tx =
     (let r = tx_result tx in
      case d of
        DeliveryCancelled \<Rightarrow> None
      | DeliveryFailed x \<Rightarrow>
          (let retry_in = backoff_delay (pe_attempts entry + 1) (rc_base_delay c) (rc_max_delay c) (rc_jitter c) u in
           Some (tx\<lparr>tx_entries := tl (tx_entries tx), tx_writes := tx_writes tx @ [batch_fail (tx_now tx) entry (describe_exn named x) retry_in],
                    tx_result := r\<lparr>dr_failed := dr_failed r + 1\<rparr>\<rparr>))
      | Delivered _ \<Rightarrow>
          Some (tx\<lparr>tx_entries := tl (tx_entries tx), tx_writes := tx_writes tx @ [batch_complete entry],
                   tx_result := r\<lparr>dr_delivered := dr_delivered r + 1\<rparr>\<rparr>))"

text \<open>One round of \<open>_loop\<close>: the new count of failed ticks and how long to sleep, if at all.\<close>

definition relay_round :: "relay_config \<Rightarrow> int \<Rightarrow> drain_result option \<Rightarrow> rat \<Rightarrow> int \<times> seconds option" where
  "relay_round c consecutive tick u =
     (case tick of
        None \<Rightarrow> (consecutive + 1, Some (backoff_delay (consecutive + 1) (rc_base_delay c) (rc_max_delay c) (rc_jitter c) u))
      | Some r \<Rightarrow> (0, if dr_claimed r \<ge> rc_batch_size c then None else Some (rc_poll_interval c)))"

datatype relay_task = NoTask | TaskRunning | TaskDone

definition relay_running :: "relay_task \<Rightarrow> bool" where
  "relay_running t \<longleftrightarrow> t = TaskRunning"

definition relay_start :: "relay_task \<Rightarrow> relay_task" where
  "relay_start t = (if relay_running t then t else TaskRunning)"

definition relay_stop :: "relay_task \<Rightarrow> relay_task" where
  "relay_stop t = NoTask"

subsection \<open>Requests and relays together\<close>

text \<open>
  \<open>ow_committed\<close> and \<open>ow_delivered\<close> only observe: which events were committed, under which primary key and
  with which stored payload, and which events were handed to the dispatcher without a failure.
\<close>

record outbox_world =
  ow_table :: "outbox_row list"
  ow_locks :: "nat \<Rightarrow> nat option"
  ow_requests :: "nat \<Rightarrow> (staged_row \<times> domain_event) list option"
  ow_tasks :: "nat \<Rightarrow> relay_task"
  ow_relays :: "nat \<Rightarrow> relay_tx option"
  ow_committed :: "(nat \<times> domain_event \<times> payload) set"
  ow_delivered :: "(nat \<times> domain_event) set"

definition new_outbox_world :: outbox_world where
  "new_outbox_world =
     \<lparr>ow_table = [], ow_locks = Map.empty, ow_requests = Map.empty, ow_tasks = (\<lambda>r. NoTask), ow_relays = Map.empty,
      ow_committed = {}, ow_delivered = {}\<rparr>"

text \<open>The commit of a request: every staged row goes in, or the database refuses all of them.\<close>

fun insert_all :: "(payload \<Rightarrow> payload option) \<Rightarrow> seconds \<Rightarrow> staged_row list \<Rightarrow> outbox_row list \<Rightarrow> outbox_row list option" where
  "insert_all jsonb now [] table = Some table"
| "insert_all jsonb now (s # ss) table =
     (if st_id s \<in> set (map ob_id table) then None
      else (case jsonb (st_payload s) of None \<Rightarrow> None | Some p \<Rightarrow> insert_all jsonb now ss (table @ [insert_row now p s])))"

definition end_tx :: "nat \<Rightarrow> outbox_world \<Rightarrow> outbox_world" where
  "end_tx r w =
     w\<lparr>ow_relays := (ow_relays w)(r := None), ow_locks := (\<lambda>i. if ow_locks w i = Some r then None else ow_locks w i)\<rparr>"

inductive outbox_step :: "(payload \<Rightarrow> payload option) \<Rightarrow> event_registry \<Rightarrow> outbox_world \<Rightarrow> outbox_world \<Rightarrow> bool"
  for jsonb reg where
  begins: "ow_requests w q = None \<Longrightarrow> outbox_step jsonb reg w (w\<lparr>ow_requests := (ow_requests w)(q \<mapsto> [])\<rparr>)"
| stages: "ow_requests w q = Some st \<Longrightarrow> reg (ec_event_name (de_class e)) = Some (de_class e) \<Longrightarrow>
     outbox_publish i e (map fst st) = (Inr r, map fst st @ [s]) \<Longrightarrow>
     outbox_step jsonb reg w (w\<lparr>ow_requests := (ow_requests w)(q \<mapsto> st @ [(s, e)])\<rparr>)"
| commits: "ow_requests w q = Some st \<Longrightarrow> insert_all jsonb now (map fst st) (ow_table w) = Some table' \<Longrightarrow>
     outbox_step jsonb reg w (w\<lparr>ow_requests := (ow_requests w)(q := None), ow_table := table',
       ow_committed := ow_committed w \<union> {(st_id s, e, the (jsonb (st_payload s))) | s e. (s, e) \<in> set st}\<rparr>)"
| rolls_back: "outbox_step jsonb reg w (w\<lparr>ow_requests := (ow_requests w)(q := None)\<rparr>)"
| starts: "outbox_step jsonb reg w (w\<lparr>ow_tasks := (ow_tasks w)(r := relay_start (ow_tasks w r))\<rparr>)"
| claims: "relay_running (ow_tasks w r) \<Longrightarrow> ow_relays w r = None \<Longrightarrow> drain_begin c now (ow_locks w) (ow_table w) = Some tx \<Longrightarrow>
     outbox_step jsonb reg w (w\<lparr>ow_relays := (ow_relays w)(r \<mapsto> tx),
       ow_locks := (\<lambda>i. if i \<in> pe_id ` set (tx_entries tx) then Some r else ow_locks w i)\<rparr>)"
| handles: "ow_relays w r = Some tx \<Longrightarrow> tx_entries tx = entry # rest \<Longrightarrow> known \<subseteq>\<^sub>m reg \<Longrightarrow>
     deliver known publish entry = d \<Longrightarrow> handle_entry c named u d entry tx = Some tx' \<Longrightarrow>
     outbox_step jsonb reg w (w\<lparr>ow_relays := (ow_relays w)(r \<mapsto> tx'),
       ow_delivered := (case d of Delivered e \<Rightarrow> insert (pe_id entry, e) (ow_delivered w) | _ \<Rightarrow> ow_delivered w)\<rparr>)"
| finishes: "ow_relays w r = Some tx \<Longrightarrow> tx_entries tx = [] \<Longrightarrow>
     outbox_step jsonb reg w (end_tx r (w\<lparr>ow_table := fold apply_write (tx_writes tx) (ow_table w)\<rparr>))"
| aborts: "ow_relays w r = Some tx \<Longrightarrow> outbox_step jsonb reg w (end_tx r w)"
| stops: "outbox_step jsonb reg w (end_tx r (w\<lparr>ow_tasks := (ow_tasks w)(r := relay_stop (ow_tasks w r))\<rparr>))"

abbreviation outbox_reachable :: "(payload \<Rightarrow> payload option) \<Rightarrow> event_registry \<Rightarrow> outbox_world \<Rightarrow> bool" where
  "outbox_reachable jsonb reg \<equiv> reach (\<lambda>w. w = new_outbox_world) (outbox_step jsonb reg)"

section \<open>Lemmas\<close>

subsection \<open>Codec\<close>

lemma decode_known: "known \<subseteq>\<^sub>m reg \<Longrightarrow> decode_payload known n p i t = Inr e \<Longrightarrow> decode_payload reg n p i t = Inr e"
  by (auto simp: decode_payload_def map_le_def dom_def split: option.splits)

lemma encode_fields_values:
  assumes "encode_fields event fs = Inr p" "set (map fst fs) \<inter> set IDENTITY_FIELDS = {}"
  shows "fs = map (\<lambda>(k, v). (k, Plain v)) p"
  using assms
proof (induction fs arbitrary: p)
  case (Cons kv fs)
  obtain k v where kv: "kv = (k, v)" by fastforce
  then obtain x q where "check_scalar event k v = Inr x" "encode_fields event fs = Inr q" "p = (k, x) # q"
    using Cons.prems by (auto split: sum.splits)
  moreover from this(1) have "v = Plain x" by (cases v) (auto split: if_splits json.splits)
  ultimately show ?case using Cons.IH Cons.prems(2) kv by simp
qed simp

text \<open>
  An event as its class builds it: a value for each field, and no field named as an identity field.
\<close>

definition event_ok :: "domain_event \<Rightarrow> bool" where
  "event_ok e \<longleftrightarrow> map fst (de_values e) = map fst (ec_fields (de_class e)) \<and> distinct (map fst (de_values e)) \<and>
     set (map fst (de_values e)) \<inter> set IDENTITY_FIELDS = {}"

lemma encode_values:
  assumes "encode_payload e = Inr p" "event_ok e"
  shows "de_values e = map (\<lambda>(k, v). (k, Plain v)) p"
proof -
  have "field_values e = (''event_id'', Plain (JStr (de_event_id e))) # (''occurred_at'', Object ''datetime'') # de_values e"
    by (simp add: field_values_def)
  with assms(1) have "encode_fields (ec_event_name (de_class e)) (de_values e) = Inr p"
    by (simp add: encode_payload_def IDENTITY_FIELDS_def)
  from encode_fields_values [OF this] assms(2) show ?thesis by (simp add: event_ok_def)
qed

text \<open>
  What the column promises: the keys of an object come back, and so does each value, a float too
  unless its numeral is written with a positive exponent, which \<open>jsonb\<close> turns into that of an integer.
\<close>

fun keeps_its_type :: "json \<Rightarrow> bool" where
  "keeps_its_type (JFloat (Fin x)) \<longleftrightarrow> \<bar>x\<bar> < 10 ^ 16"
| "keeps_its_type v \<longleftrightarrow> True"

definition jsonb_ok :: "(payload \<Rightarrow> payload option) \<Rightarrow> bool" where
  "jsonb_ok jsonb \<longleftrightarrow> (\<forall>p q. distinct (map fst p) \<longrightarrow> jsonb p = Some q \<longrightarrow> set (map fst q) = set (map fst p) \<and>
     (\<forall>k v. map_of p k = Some v \<longrightarrow> keeps_its_type v \<longrightarrow> map_of q k = Some v))"

definition small_floats :: "domain_event \<Rightarrow> bool" where
  "small_floats e \<longleftrightarrow> list_all (\<lambda>kv. case snd kv of Plain v \<Rightarrow> keeps_its_type v | Object _ \<Rightarrow> True) (de_values e)"

lemma map_of_Plain: "map_of (map (\<lambda>(k, v). (k, Plain v)) p) k = map_option Plain (map_of p k)"
  by (induction p) auto

lemma construct_again:
  assumes "event_ok e" "set (map fst kw) = set (map fst (de_values e))" "\<And>k v. (k, v) \<in> set (de_values e) \<Longrightarrow> map_of kw k = Some v"
  shows "construct (de_class e) (de_event_id e) (de_occurred_at e) kw = Some e"
proof -
  let ?fs = "ec_fields (de_class e)"
  have names: "map fst ?fs = map fst (de_values e)" "distinct (map fst (de_values e))"
    using assms(1) unfolding event_ok_def by (metis, blast)
  have known: "\<not> list_ex (\<lambda>kv. fst kv \<notin> set (map fst ?fs)) kw"
  proof -
    have "fst kv \<in> set (map fst ?fs)" if "kv \<in> set kw" for kv
      using imageI [OF that, of fst] assms(2) unfolding names(1) by simp
    then show ?thesis by (auto simp: list_ex_iff)
  qed
  have found: "\<exists>v. (k, v) \<in> set (de_values e) \<and> map_of kw k = Some v" if "k \<in> set (map fst ?fs)" for k
    using that assms(3) unfolding names(1) by fastforce
  then have given: "\<not> list_ex (\<lambda>fd. snd fd = None \<and> map_of kw (fst fd) = None) ?fs" by (fastforce simp: list_ex_iff)
  have "map (\<lambda>fd. (fst fd, case map_of kw (fst fd) of Some v \<Rightarrow> v | None \<Rightarrow> the (snd fd))) ?fs =
      map (\<lambda>k. (k, the (map_of kw k))) (map fst ?fs)"
    using found by (fastforce simp: comp_def)
  also have "\<dots> = map (\<lambda>kv. (fst kv, the (map_of kw (fst kv)))) (de_values e)" unfolding names(1) by (simp add: comp_def)
  also have "\<dots> = de_values e" using assms(3) by (intro map_idI) auto
  finally show ?thesis using known given by (simp add: construct_def)
qed

text \<open>Encoding, storing and decoding give the event back.\<close>

lemma stored_event_reads_back:
  assumes "event_ok e" "encode_payload e = Inr p" "jsonb_ok jsonb" "jsonb p = Some q" "small_floats e"
    and "reg (ec_event_name (de_class e)) = Some (de_class e)"
  shows "decode_payload reg (ec_event_name (de_class e)) q (de_event_id e) (de_occurred_at e) = Inr e"
proof -
  note v = encode_values [OF assms(2,1)]
  have keys: "map fst (de_values e) = map fst p" unfolding v by (simp add: comp_def case_prod_beta)
  have d: "distinct (map fst p)" using assms(1) unfolding keys [symmetric] event_ok_def by blast
  from assms(3) d assms(4) have q: "set (map fst q) = set (map fst p)"
      "\<And>k x. map_of p k = Some x \<Longrightarrow> keeps_its_type x \<Longrightarrow> map_of q k = Some x"
    unfolding jsonb_ok_def by blast+
  have "construct (de_class e) (de_event_id e) (de_occurred_at e) (map (\<lambda>(k, v). (k, Plain v)) q) = Some e"
  proof (rule construct_again [OF assms(1)])
    show "set (map fst (map (\<lambda>(k, v). (k, Plain v)) q)) = set (map fst (de_values e))"
      unfolding keys q(1) [symmetric] by (simp add: comp_def case_prod_beta)
    fix k x assume x: "(k, x) \<in> set (de_values e)"
    then obtain y where y: "x = Plain y" "(k, y) \<in> set p" unfolding v by auto
    with d have "map_of p k = Some y" by simp
    moreover have "keeps_its_type y" using x y(1) assms(5) by (auto simp: small_floats_def list_all_iff)
    ultimately show "map_of (map (\<lambda>(k, v). (k, Plain v)) q) k = Some x" using q(2) y(1) by (simp add: map_of_Plain)
  qed
  with assms(6) show ?thesis by (simp add: decode_payload_def)
qed

subsection \<open>Table\<close>

definition carries :: "outbox_row \<Rightarrow> domain_event \<Rightarrow> payload \<Rightarrow> bool" where
  "carries row e p \<longleftrightarrow> ob_event_id row = de_event_id e \<and> ob_event_name row = ec_event_name (de_class e) \<and>
     ob_occurred_at row = de_occurred_at e \<and> ob_payload row = p"

definition decoded :: "event_registry \<Rightarrow> outbox_row \<Rightarrow> outbox_error + domain_event" where
  "decoded reg row = decode_payload reg (ob_event_name row) (ob_payload row) (ob_event_id row) (ob_occurred_at row)"

text \<open>What a relay reads when it reads the stored payload of an event.\<close>

definition reads_as :: "event_registry \<Rightarrow> domain_event \<Rightarrow> payload \<Rightarrow> outbox_error + domain_event" where
  "reads_as reg e p = decode_payload reg (ec_event_name (de_class e)) p (de_event_id e) (de_occurred_at e)"

lemma carries_decoded: "carries row e p \<Longrightarrow> decoded reg row = reads_as reg e p"
  by (simp add: carries_def decoded_def reads_as_def)

lemma row_by_id:
  assumes "distinct (map ob_id table)" "row \<in> set table" "row' \<in> set table" "ob_id row = ob_id row'"
  shows "row = row'"
  using assms by (simp add: distinct_map inj_on_def)

lemma apply_write_other:
  assumes "row \<in> set table" "ob_id row \<noteq> write_id x"
  shows "row \<in> set (apply_write x table)"
  using assms by (cases x) (auto simp: image_iff intro: bexI [of _ row])

lemma apply_writes_other: "row \<in> set table \<Longrightarrow> \<forall>x \<in> set xs. ob_id row \<noteq> write_id x \<Longrightarrow> row \<in> set (fold apply_write xs table)"
  by (induction xs arbitrary: table) (simp_all add: apply_write_other)

lemma apply_write_ids: "distinct (map ob_id table) \<Longrightarrow> distinct (map ob_id (apply_write x table))"
  by (cases x) (auto simp: distinct_map_filter comp_def if_distrib cong: if_cong)

lemma apply_writes_ids: "distinct (map ob_id table) \<Longrightarrow> distinct (map ob_id (fold apply_write xs table))"
  by (induction xs arbitrary: table) (simp_all add: apply_write_ids)

text \<open>A write changes no row's event, and only completing takes a row out.\<close>

lemma apply_write_carries:
  assumes "row \<in> set table" "carries row e p" "x \<noteq> Completed (ob_id row)"
  shows "\<exists>row' \<in> set (apply_write x table). ob_id row' = ob_id row \<and> carries row' e p"
proof (cases x)
  case (Completed i)
  with assms show ?thesis by auto
next
  case (FailedRow i err t)
  let ?f = "\<lambda>row. if ob_id row = i then row\<lparr>ob_attempts := ob_attempts row + 1, ob_last_error := Some err, ob_available_at := t\<rparr> else row"
  have "?f row \<in> set (apply_write x table)" unfolding FailedRow apply_write.simps set_map by (rule imageI [OF assms(1)])
  moreover have "ob_id (?f row) = ob_id row" "carries (?f row) e p" using assms(2) by (simp_all add: carries_def)
  ultimately show ?thesis by blast
qed

lemma apply_writes_carries:
  "row \<in> set table \<Longrightarrow> carries row e p \<Longrightarrow> Completed (ob_id row) \<notin> set xs \<Longrightarrow>
   \<exists>row' \<in> set (fold apply_write xs table). ob_id row' = ob_id row \<and> carries row' e p"
proof (induction xs arbitrary: table row)
  case (Cons x xs)
  then obtain row1 where "row1 \<in> set (apply_write x table)" "ob_id row1 = ob_id row" "carries row1 e p"
    using apply_write_carries [of row table e p x] by auto
  with Cons.IH [of row1 "apply_write x table"] Cons.prems(3) show ?case by simp
qed auto

lemma apply_write_back:
  assumes "row' \<in> set (apply_write x table)"
  shows "\<exists>row \<in> set table. ob_id row = ob_id row' \<and> (\<forall>e p. carries row' e p = carries row e p)"
  using assms by (cases x) (auto simp: carries_def)

lemma apply_writes_back:
  "row' \<in> set (fold apply_write xs table) \<Longrightarrow> \<exists>row \<in> set table. ob_id row = ob_id row' \<and> (\<forall>e p. carries row' e p = carries row e p)"
proof (induction xs arbitrary: table)
  case (Cons x xs)
  then have "row' \<in> set (fold apply_write xs (apply_write x table))" by simp
  from Cons.IH [OF this] obtain row1 where 1: "row1 \<in> set (apply_write x table)" "ob_id row1 = ob_id row'"
      "\<forall>e p. carries row' e p = carries row1 e p"
    by blast
  from apply_write_back [OF 1(1)] obtain row where "row \<in> set table" "ob_id row = ob_id row1" "\<forall>e p. carries row1 e p = carries row e p"
    by blast
  with 1 show ?case by (intro bexI [of _ row]) simp_all
qed auto

lemma insert_all_spec:
  assumes "insert_all jsonb now ss table = Some table'" "distinct (map ob_id table)"
  shows "distinct (map ob_id table') \<and> (\<exists>new. table' = table @ new \<and>
    (\<forall>s \<in> set ss. \<exists>p. jsonb (st_payload s) = Some p \<and> insert_row now p s \<in> set new) \<and>
    (\<forall>row \<in> set new. \<exists>s \<in> set ss. \<exists>p. jsonb (st_payload s) = Some p \<and> row = insert_row now p s))"
  using assms
proof (induction ss arbitrary: table)
  case (Cons s ss)
  then obtain p where p: "st_id s \<notin> set (map ob_id table)" "jsonb (st_payload s) = Some p"
      "insert_all jsonb now ss (table @ [insert_row now p s]) = Some table'"
    by (auto split: if_splits option.splits)
  moreover have "distinct (map ob_id (table @ [insert_row now p s]))" using p(1) Cons.prems(2) by (simp add: insert_row_def)
  ultimately obtain new where "distinct (map ob_id table')" "table' = (table @ [insert_row now p s]) @ new"
      "\<forall>s \<in> set ss. \<exists>p. jsonb (st_payload s) = Some p \<and> insert_row now p s \<in> set new"
      "\<forall>row \<in> set new. \<exists>s \<in> set ss. \<exists>p. jsonb (st_payload s) = Some p \<and> row = insert_row now p s"
    using Cons.IH by blast
  with p(2) show ?case by (intro conjI exI [of _ "insert_row now p s # new"]) auto
qed simp

lemma claim_rows_spec:
  assumes "claim_rows limit now locks table = Some entries" "entry \<in> set entries"
  shows "\<exists>row \<in> set table. as_pending row = entry \<and> locks (ob_id row) = None"
proof -
  from assms obtain row where "as_pending row = entry"
      "row \<in> set (take (nat limit) (sort_key ob_available_at (sort_key ob_id (filter (\<lambda>row. ob_available_at row \<le> now \<and> locks (ob_id row) = None) table))))"
    by (auto simp: claim_rows_def split: if_splits)
  then show ?thesis by (auto dest!: in_set_takeD)
qed

subsection \<open>Invariant\<close>

definition staged_ok :: "event_registry \<Rightarrow> staged_row \<Rightarrow> domain_event \<Rightarrow> bool" where
  "staged_ok reg s e \<longleftrightarrow> reg (ec_event_name (de_class e)) = Some (de_class e) \<and> st_event_id s = de_event_id e \<and>
     st_event_name s = ec_event_name (de_class e) \<and> st_occurred_at s = de_occurred_at e \<and> encode_payload e = Inr (st_payload s)"

text \<open>A transaction holds the locks of what it still has to handle and of what it will write.\<close>

definition tx_ok ::
  "event_registry \<Rightarrow> outbox_row list \<Rightarrow> (nat \<Rightarrow> nat option) \<Rightarrow> (nat \<times> domain_event) set \<Rightarrow> nat \<Rightarrow> relay_tx \<Rightarrow> bool" where
  "tx_ok reg table locks delivered r tx \<longleftrightarrow>
     (\<forall>en \<in> set (tx_entries tx). locks (pe_id en) = Some r \<and> en \<in> as_pending ` set table) \<and>
     (\<forall>x \<in> set (tx_writes tx). locks (write_id x) = Some r) \<and>
     (\<forall>i. Completed i \<in> set (tx_writes tx) \<longrightarrow> (\<exists>row \<in> set table. ob_id row = i \<and> (\<exists>e. (i, e) \<in> delivered \<and> decoded reg row = Inr e)))"

text \<open>A committed event is still in the table, or was delivered as its payload reads.\<close>

definition settled :: "event_registry \<Rightarrow> outbox_row list \<Rightarrow> (nat \<times> domain_event) set \<Rightarrow> nat \<Rightarrow> domain_event \<Rightarrow> payload \<Rightarrow> bool" where
  "settled reg table delivered i e p \<longleftrightarrow>
     (\<exists>row \<in> set table. ob_id row = i \<and> carries row e p) \<or> (\<exists>e'. (i, e') \<in> delivered \<and> reads_as reg e p = Inr e')"

definition committed_ok :: "(payload \<Rightarrow> payload option) \<Rightarrow> event_registry \<Rightarrow> domain_event \<Rightarrow> payload \<Rightarrow> bool" where
  "committed_ok jsonb reg e p \<longleftrightarrow> reg (ec_event_name (de_class e)) = Some (de_class e) \<and> (\<exists>q. encode_payload e = Inr q \<and> jsonb q = Some p)"

definition outbox_ok :: "(payload \<Rightarrow> payload option) \<Rightarrow> event_registry \<Rightarrow> outbox_world \<Rightarrow> bool" where
  "outbox_ok jsonb reg w \<longleftrightarrow>
     distinct (map ob_id (ow_table w)) \<and>
     (\<forall>row \<in> set (ow_table w). \<exists>e p. (ob_id row, e, p) \<in> ow_committed w \<and> carries row e p) \<and>
     (\<forall>i e p. (i, e, p) \<in> ow_committed w \<longrightarrow> committed_ok jsonb reg e p \<and> settled reg (ow_table w) (ow_delivered w) i e p) \<and>
     (\<forall>i e'. (i, e') \<in> ow_delivered w \<longrightarrow> (\<exists>e p. (i, e, p) \<in> ow_committed w \<and> reads_as reg e p = Inr e')) \<and>
     (\<forall>q st s e. ow_requests w q = Some st \<longrightarrow> (s, e) \<in> set st \<longrightarrow> staged_ok reg s e) \<and>
     (\<forall>r tx. ow_relays w r = Some tx \<longrightarrow> tx_ok reg (ow_table w) (ow_locks w) (ow_delivered w) r tx)"

lemma outbox_okD:
  assumes "outbox_ok jsonb reg w"
  shows "distinct (map ob_id (ow_table w))"
    and "row \<in> set (ow_table w) \<Longrightarrow> \<exists>e p. (ob_id row, e, p) \<in> ow_committed w \<and> carries row e p"
    and "(i, e, p) \<in> ow_committed w \<Longrightarrow> committed_ok jsonb reg e p"
    and "(i, e, p) \<in> ow_committed w \<Longrightarrow> settled reg (ow_table w) (ow_delivered w) i e p"
    and "(i, e') \<in> ow_delivered w \<Longrightarrow> \<exists>e p. (i, e, p) \<in> ow_committed w \<and> reads_as reg e p = Inr e'"
    and "ow_requests w q = Some st \<Longrightarrow> (s, e) \<in> set st \<Longrightarrow> staged_ok reg s e"
    and "ow_relays w r = Some tx \<Longrightarrow> tx_ok reg (ow_table w) (ow_locks w) (ow_delivered w) r tx"
  using assms unfolding outbox_ok_def by blast+

lemma outbox_okI:
  assumes "distinct (map ob_id (ow_table w))"
    and "\<And>row. row \<in> set (ow_table w) \<Longrightarrow> \<exists>e p. (ob_id row, e, p) \<in> ow_committed w \<and> carries row e p"
    and "\<And>i e p. (i, e, p) \<in> ow_committed w \<Longrightarrow> committed_ok jsonb reg e p"
    and "\<And>i e p. (i, e, p) \<in> ow_committed w \<Longrightarrow> settled reg (ow_table w) (ow_delivered w) i e p"
    and "\<And>i e'. (i, e') \<in> ow_delivered w \<Longrightarrow> \<exists>e p. (i, e, p) \<in> ow_committed w \<and> reads_as reg e p = Inr e'"
    and "\<And>q st s e. ow_requests w q = Some st \<Longrightarrow> (s, e) \<in> set st \<Longrightarrow> staged_ok reg s e"
    and "\<And>r tx. ow_relays w r = Some tx \<Longrightarrow> tx_ok reg (ow_table w) (ow_locks w) (ow_delivered w) r tx"
  shows "outbox_ok jsonb reg w"
  unfolding outbox_ok_def using assms by blast

lemma tx_ok_mono:
  assumes "tx_ok reg table locks delivered r tx" "set table \<subseteq> set table'" "delivered \<subseteq> delivered'"
    and "\<And>i. locks i = Some r \<Longrightarrow> locks' i = Some r"
  shows "tx_ok reg table' locks' delivered' r tx"
  unfolding tx_ok_def
proof (intro conjI ballI allI impI)
  fix en assume "en \<in> set (tx_entries tx)"
  then show "locks' (pe_id en) = Some r" "en \<in> as_pending ` set table'"
    using assms(1,2) assms(4) unfolding tx_ok_def by blast+
next
  fix x assume "x \<in> set (tx_writes tx)"
  then show "locks' (write_id x) = Some r" using assms(1,4) unfolding tx_ok_def by blast
next
  fix i assume "Completed i \<in> set (tx_writes tx)"
  then show "\<exists>row \<in> set table'. ob_id row = i \<and> (\<exists>e. (i, e) \<in> delivered' \<and> decoded reg row = Inr e)"
    using assms(1,2,3) unfolding tx_ok_def by blast
qed

lemma settled_mono:
  "settled reg table delivered i e p \<Longrightarrow> set table \<subseteq> set table' \<Longrightarrow> delivered \<subseteq> delivered' \<Longrightarrow> settled reg table' delivered' i e p"
  unfolding settled_def by blast

lemma publish_staged:
  assumes "outbox_publish i e sink = (Inr r, sink @ [s])" "reg (ec_event_name (de_class e)) = Some (de_class e)"
  shows "staged_ok reg s e" "st_id s = i"
  using assms by (auto simp: outbox_publish_def staged_ok_def Let_def split: option.splits sum.splits)

lemma outbox_ok_commits:
  assumes ok: "outbox_ok jsonb reg w" and q: "ow_requests w q = Some st"
    and ins: "insert_all jsonb now (map fst st) (ow_table w) = Some table'"
  shows "outbox_ok jsonb reg (w\<lparr>ow_requests := (ow_requests w)(q := None), ow_table := table',
    ow_committed := ow_committed w \<union> {(st_id s, e, the (jsonb (st_payload s))) | s e. (s, e) \<in> set st}\<rparr>)"
proof -
  note D = outbox_okD [OF ok]
  have ids: "distinct (map ob_id table')" using insert_all_spec [OF ins D(1)] by blast
  obtain new where new: "table' = ow_table w @ new"
      "\<forall>s \<in> set (map fst st). \<exists>p. jsonb (st_payload s) = Some p \<and> insert_row now p s \<in> set new"
      "\<forall>row \<in> set new. \<exists>s \<in> set (map fst st). \<exists>p. jsonb (st_payload s) = Some p \<and> row = insert_row now p s"
    using insert_all_spec [OF ins D(1)] by blast
  have there: "\<exists>p. jsonb (st_payload s) = Some p \<and> insert_row now p s \<in> set new" if "(s, e) \<in> set st" for s e
    using new(2) that by force
  have from_request: "\<exists>s e p. (s, e) \<in> set st \<and> jsonb (st_payload s) = Some p \<and> row = insert_row now p s" if "row \<in> set new" for row
    using new(3) that by fastforce
  have carry: "carries (insert_row now p s) e p" if "(s, e) \<in> set st" for s e p
    using D(6) [OF q that] by (simp add: carries_def insert_row_def staged_ok_def)
  let ?w = "w\<lparr>ow_requests := (ow_requests w)(q := None), ow_table := table',
    ow_committed := ow_committed w \<union> {(st_id s, e, the (jsonb (st_payload s))) | s e. (s, e) \<in> set st}\<rparr>"
  have sub: "set (ow_table w) \<subseteq> set table'" by (simp add: new(1))
  show ?thesis
  proof (rule outbox_okI)
    show "distinct (map ob_id (ow_table ?w))" using ids by simp
  next
    fix row assume "row \<in> set (ow_table ?w)"
    then consider "row \<in> set (ow_table w)" | "row \<in> set new" by (auto simp: new(1))
    then show "\<exists>e p. (ob_id row, e, p) \<in> ow_committed ?w \<and> carries row e p"
    proof cases
      case 1
      with D(2) show ?thesis by fastforce
    next
      case 2
      then obtain s e p where r: "(s, e) \<in> set st" "jsonb (st_payload s) = Some p" "row = insert_row now p s" using from_request by blast
      then have "(st_id s, e, the (jsonb (st_payload s))) \<in> ow_committed ?w" by auto
      then have "(ob_id row, e, p) \<in> ow_committed ?w" using r(2,3) by (simp add: insert_row_def)
      with carry [OF r(1)] r(3) show ?thesis by blast
    qed
  next
    fix i e p assume "(i, e, p) \<in> ow_committed ?w"
    then consider "(i, e, p) \<in> ow_committed w" | s where "(s, e) \<in> set st" "i = st_id s" "p = the (jsonb (st_payload s))" by auto
    note c = this
    show "committed_ok jsonb reg e p"
      using c
    proof cases
      case 2
      with D(6) [OF q 2(1)] there [OF 2(1)] show ?thesis by (auto simp: committed_ok_def staged_ok_def)
    qed (rule D(3))
    show "settled reg (ow_table ?w) (ow_delivered ?w) i e p"
      using c
    proof cases
      case 1
      from settled_mono [OF D(4) [OF 1] sub] show ?thesis by simp
    next
      case (2 s)
      from there [OF 2(1)] 2(3) have "insert_row now p s \<in> set table'" by (auto simp: new(1))
      with carry [OF 2(1), of p] 2(2) show ?thesis unfolding settled_def
        by (intro disjI1 bexI [of _ "insert_row now p s"]) (simp_all add: insert_row_def)
    qed
  next
    fix i e' assume "(i, e') \<in> ow_delivered ?w"
    with D(5) [of i e'] show "\<exists>e p. (i, e, p) \<in> ow_committed ?w \<and> reads_as reg e p = Inr e'" by auto
  next
    fix q' st' s e assume "ow_requests ?w q' = Some st'" "(s, e) \<in> set st'"
    with D(6) show "staged_ok reg s e" by (auto split: if_splits)
  next
    fix r tx assume "ow_relays ?w r = Some tx"
    then have "tx_ok reg (ow_table w) (ow_locks w) (ow_delivered w) r tx" using D(7) by simp
    from tx_ok_mono [OF this sub] show "tx_ok reg (ow_table ?w) (ow_locks ?w) (ow_delivered ?w) r tx" by simp
  qed
qed

text \<open>Claiming takes rows nobody holds, so the other transactions keep theirs.\<close>

lemma outbox_ok_claims:
  assumes ok: "outbox_ok jsonb reg w" and free: "ow_relays w r = None"
    and dr: "drain_begin c now (ow_locks w) (ow_table w) = Some tx"
  shows "outbox_ok jsonb reg (w\<lparr>ow_relays := (ow_relays w)(r \<mapsto> tx),
    ow_locks := (\<lambda>i. if i \<in> pe_id ` set (tx_entries tx) then Some r else ow_locks w i)\<rparr>)" (is "outbox_ok jsonb reg ?w")
proof -
  note D = outbox_okD [OF ok]
  from dr have cl: "claim_rows (rc_batch_size c) now (ow_locks w) (ow_table w) = Some (tx_entries tx)" "tx_writes tx = []"
    by (auto simp: drain_begin_def split: option.splits)
  have taken: "\<exists>row \<in> set (ow_table w). as_pending row = en \<and> ow_locks w (pe_id en) = None" if "en \<in> set (tx_entries tx)" for en
    using claim_rows_spec [OF cl(1) that] by (auto simp: as_pending_def)
  have "tx_ok reg (ow_table ?w) (ow_locks ?w) (ow_delivered ?w) r' tx'" if "ow_relays ?w r' = Some tx'" for r' tx'
  proof (cases "r' = r")
    case True
    with that have "tx' = tx" by simp
    with True cl(2) taken show ?thesis by (fastforce simp: tx_ok_def)
  next
    case False
    with that have "tx_ok reg (ow_table w) (ow_locks w) (ow_delivered w) r' tx'" using D(7) by simp
    then show ?thesis
    proof (rule tx_ok_mono)
      fix i assume "ow_locks w i = Some r'"
      with taken have "i \<notin> pe_id ` set (tx_entries tx)" by fastforce
      with \<open>ow_locks w i = Some r'\<close> show "ow_locks ?w i = Some r'" by simp
    qed simp_all
  qed
  then show ?thesis using ok unfolding outbox_ok_def by simp
qed

lemma handle_entry_fields:
  assumes "handle_entry c named u d entry tx = Some tx'"
  shows "tx_entries tx' = tl (tx_entries tx)" "\<exists>x. tx_writes tx' = tx_writes tx @ [x] \<and> write_id x = pe_id entry \<and>
    (x = Completed (pe_id entry) \<longleftrightarrow> (\<exists>e. d = Delivered e))"
  using assms by (auto simp: handle_entry_def Let_def batch_complete_def batch_fail_def split: delivery.splits)

lemma delivered_decoded:
  assumes "deliver known publish (as_pending row) = Delivered e" "known \<subseteq>\<^sub>m reg"
  shows "decoded reg row = Inr e"
proof -
  have "decode_payload known (ob_event_name row) (ob_payload row) (ob_event_id row) (ob_occurred_at row) = Inr e"
    using assms(1) by (auto simp: deliver_def as_pending_def split: sum.splits dispatch_end.splits option.splits)
  from decode_known [OF assms(2) this] show ?thesis by (simp add: decoded_def)
qed

lemma outbox_ok_handles:
  assumes ok: "outbox_ok jsonb reg w" and r: "ow_relays w r = Some tx" and en: "tx_entries tx = entry # rest" and known: "known \<subseteq>\<^sub>m reg"
    and d: "deliver known publish entry = d" and h: "handle_entry c named u d entry tx = Some tx'"
  defines "delivered' \<equiv> case d of Delivered e \<Rightarrow> insert (pe_id entry, e) (ow_delivered w) | _ \<Rightarrow> ow_delivered w"
  shows "outbox_ok jsonb reg (w\<lparr>ow_relays := (ow_relays w)(r \<mapsto> tx'), ow_delivered := delivered'\<rparr>)" (is "outbox_ok jsonb reg ?w")
proof -
  note D = outbox_okD [OF ok]
  note t = D(7) [OF r]
  obtain row where row: "row \<in> set (ow_table w)" "as_pending row = entry" "ow_locks w (pe_id entry) = Some r"
    using t unfolding tx_ok_def en by fastforce
  then have id: "pe_id entry = ob_id row" by (auto simp: as_pending_def)
  have dec: "decoded reg row = Inr e" if "d = Delivered e" for e using delivered_decoded [OF _ known] d that row(2) by blast
  have sub: "ow_delivered w \<subseteq> delivered'" by (auto simp: delivered'_def split: delivery.splits)
  have mine: "tx_ok reg (ow_table w) (ow_locks w) delivered' r tx'"
  proof -
    note m = tx_ok_mono [OF t subset_refl sub, of "ow_locks w"]
    obtain x where x: "tx_writes tx' = tx_writes tx @ [x]" "write_id x = pe_id entry" "x = Completed (pe_id entry) \<longleftrightarrow> (\<exists>e. d = Delivered e)"
      using handle_entry_fields(2) [OF h] by blast
    have es: "set (tx_entries tx') \<subseteq> set (tx_entries tx)" unfolding handle_entry_fields(1) [OF h] en by auto
    have "\<exists>row \<in> set (ow_table w). ob_id row = i \<and> (\<exists>e. (i, e) \<in> delivered' \<and> decoded reg row = Inr e)" if "x = Completed i" for i
    proof -
      from that x(2) have i: "i = pe_id entry" by simp
      with that x(3) obtain e where "d = Delivered e" by blast
      with dec i row(1) id show ?thesis by (intro bexI [of _ row]) (auto simp: delivered'_def)
    qed
    with m es x(1,2) row(3) show ?thesis by (auto simp: tx_ok_def)
  qed
  show ?thesis
  proof (rule outbox_okI)
    fix i e' assume "(i, e') \<in> ow_delivered ?w"
    then consider "(i, e') \<in> ow_delivered w" | "d = Delivered e'" "i = ob_id row"
      by (auto simp: delivered'_def id split: delivery.splits)
    then show "\<exists>e p. (i, e, p) \<in> ow_committed ?w \<and> reads_as reg e p = Inr e'"
    proof cases
      case 1
      with D(5) show ?thesis by simp
    next
      case 2
      obtain e p where "(ob_id row, e, p) \<in> ow_committed w" "carries row e p" using D(2) [OF row(1)] by blast
      with carries_decoded [of row e p reg] dec 2 show ?thesis by auto
    qed
  next
    fix r' tx1 assume "ow_relays ?w r' = Some tx1"
    then show "tx_ok reg (ow_table ?w) (ow_locks ?w) (ow_delivered ?w) r' tx1"
      using mine tx_ok_mono [OF D(7) subset_refl sub] by (auto split: if_splits)
  next
    fix i e p assume "(i, e, p) \<in> ow_committed ?w"
    then have "(i, e, p) \<in> ow_committed w" by simp
    from settled_mono [OF D(4) [OF this] subset_refl sub] D(3) [OF this]
    show "settled reg (ow_table ?w) (ow_delivered ?w) i e p" "committed_ok jsonb reg e p" by simp_all
  qed (use D in auto)
qed

text \<open>Ending a transaction gives its locks back; a commit has written only to rows it had locked.\<close>

lemma outbox_ok_end:
  assumes "outbox_ok jsonb reg w"
  shows "outbox_ok jsonb reg (end_tx r w)"
proof -
  have "tx_ok reg (ow_table w) (ow_locks (end_tx r w)) (ow_delivered w) r' tx" if "ow_relays (end_tx r w) r' = Some tx" for r' tx
  proof -
    from that have "r' \<noteq> r" "ow_relays w r' = Some tx" by (auto simp: end_tx_def split: if_splits)
    with tx_ok_mono [OF outbox_okD(7) [OF assms] subset_refl subset_refl] show ?thesis by (simp add: end_tx_def)
  qed
  then show ?thesis using assms unfolding outbox_ok_def by (simp add: end_tx_def)
qed

lemma outbox_ok_finishes:
  assumes ok: "outbox_ok jsonb reg w" and r: "ow_relays w r = Some tx"
  shows "outbox_ok jsonb reg (end_tx r (w\<lparr>ow_table := fold apply_write (tx_writes tx) (ow_table w)\<rparr>))" (is "outbox_ok jsonb reg (end_tx r ?w)")
proof -
  note D = outbox_okD [OF ok]
  note t = D(7) [OF r]
  have other: "row \<in> set (ow_table ?w)" if "row \<in> set (ow_table w)" "ow_locks w (ob_id row) \<noteq> Some r" for row
  proof -
    have "ow_locks w (write_id x) = Some r" if "x \<in> set (tx_writes tx)" for x using t that unfolding tx_ok_def by blast
    with that(2) have "\<forall>x \<in> set (tx_writes tx). ob_id row \<noteq> write_id x" by metis
    from apply_writes_other [OF that(1) this] show ?thesis by simp
  qed
  have txs: "tx_ok reg (ow_table ?w) (ow_locks w) (ow_delivered w) r' tx'" if "ow_relays w r' = Some tx'" "r' \<noteq> r" for r' tx'
  proof -
    note t' = D(7) [OF that(1)]
    have "en \<in> as_pending ` set (ow_table ?w)" if "en \<in> set (tx_entries tx')" for en
    proof -
      from that t' obtain row where "row \<in> set (ow_table w)" "en = as_pending row" "ow_locks w (pe_id en) = Some r'"
        unfolding tx_ok_def by blast
      with other [of row] \<open>r' \<noteq> r\<close> show ?thesis by (auto simp: as_pending_def)
    qed
    moreover have "\<exists>row \<in> set (ow_table ?w). ob_id row = i \<and> (\<exists>e. (i, e) \<in> ow_delivered w \<and> decoded reg row = Inr e)"
      if "Completed i \<in> set (tx_writes tx')" for i
    proof -
      from that t' obtain row where "row \<in> set (ow_table w)" "ob_id row = i" "\<exists>e. (i, e) \<in> ow_delivered w \<and> decoded reg row = Inr e"
          "ow_locks w (write_id (Completed i)) = Some r'"
        unfolding tx_ok_def by blast
      with other [of row] \<open>r' \<noteq> r\<close> show ?thesis by auto
    qed
    ultimately show ?thesis using t' unfolding tx_ok_def by blast
  qed
  have keep: "settled reg (ow_table ?w) (ow_delivered w) i e p" if c: "(i, e, p) \<in> ow_committed w" for i e p
  proof (cases "\<exists>row \<in> set (ow_table w). ob_id row = i \<and> carries row e p")
    case False
    with D(4) [OF c] show ?thesis unfolding settled_def by blast
  next
    case True
    then obtain row where row: "row \<in> set (ow_table w)" "ob_id row = i" "carries row e p" by blast
    show ?thesis
    proof (cases "Completed i \<in> set (tx_writes tx)")
      case True
      with t obtain row' e' where "row' \<in> set (ow_table w)" "ob_id row' = i" "(i, e') \<in> ow_delivered w" "decoded reg row' = Inr e'"
        unfolding tx_ok_def by blast
      with row_by_id [OF D(1) row(1)] row carries_decoded [OF row(3), of reg] show ?thesis unfolding settled_def by auto
    next
      case False
      from apply_writes_carries [OF row(1,3)] False row(2) show ?thesis unfolding settled_def by auto
    qed
  qed
  have traced: "\<exists>e p. (ob_id row', e, p) \<in> ow_committed w \<and> carries row' e p" if "row' \<in> set (ow_table ?w)" for row'
  proof -
    from that have "row' \<in> set (fold apply_write (tx_writes tx) (ow_table w))" by simp
    from apply_writes_back [OF this] obtain row where "row \<in> set (ow_table w)" "ob_id row = ob_id row'" "\<forall>e p. carries row' e p = carries row e p"
      by blast
    with D(2) [of row] show ?thesis by simp
  qed
  let ?x = "end_tx r ?w"
  have fields: "ow_table ?x = ow_table ?w" "ow_committed ?x = ow_committed w" "ow_delivered ?x = ow_delivered w" "ow_requests ?x = ow_requests w"
    by (simp_all add: end_tx_def)
  show ?thesis
  proof (rule outbox_okI)
    show "distinct (map ob_id (ow_table ?x))" using apply_writes_ids [OF D(1)] by (simp add: fields)
    fix r' tx' assume "ow_relays ?x r' = Some tx'"
    then have "ow_relays w r' = Some tx'" "r' \<noteq> r" by (auto simp: end_tx_def split: if_splits)
    from tx_ok_mono [OF txs [OF this] subset_refl subset_refl, of "ow_locks ?x"] this(2)
    show "tx_ok reg (ow_table ?x) (ow_locks ?x) (ow_delivered ?x) r' tx'" by (simp add: fields end_tx_def)
  qed (use D keep traced in \<open>simp_all only: fields\<close>)
qed

lemma outbox_ok_init: "outbox_ok jsonb reg new_outbox_world"
  by (simp add: outbox_ok_def new_outbox_world_def)

lemma outbox_ok_step:
  assumes "outbox_step jsonb reg w w'" "outbox_ok jsonb reg w"
  shows "outbox_ok jsonb reg w'"
  using assms
proof induction
  case (begins w q)
  then show ?case unfolding outbox_ok_def by simp
next
  case (stages w q st e i r s)
  from publish_staged(1) [of i e "map fst st" r s reg, OF stages(3,2)] outbox_okD(6) [OF stages(4,1)]
  have "staged_ok reg s' e'" if "(s', e') \<in> set (st @ [(s, e)])" for s' e' using that by auto
  then show ?case using stages(4) unfolding outbox_ok_def by simp
next
  case (commits w q st now table')
  then show ?case by (intro outbox_ok_commits)
next
  case (rolls_back w q)
  then show ?case unfolding outbox_ok_def by simp
next
  case (starts w r)
  then show ?case unfolding outbox_ok_def by simp
next
  case (claims w r c now tx)
  then show ?case by (intro outbox_ok_claims)
next
  case (handles w r tx entry rest known publish d c named u tx')
  then show ?case by (intro outbox_ok_handles)
next
  case (finishes w r tx)
  then show ?case by (intro outbox_ok_finishes)
next
  case (aborts w r tx)
  then show ?case by (intro outbox_ok_end)
next
  case (stops w r)
  then have "outbox_ok jsonb reg (w\<lparr>ow_tasks := (ow_tasks w)(r := relay_stop (ow_tasks w r))\<rparr>)" unfolding outbox_ok_def by simp
  then show ?case by (rule outbox_ok_end)
qed

interpretation outbox: transitions "\<lambda>w. w = new_outbox_world" "outbox_step jsonb reg" "outbox_ok jsonb reg" for jsonb reg
  by unfold_locales (auto intro: outbox_ok_init outbox_ok_step)

section \<open>An example\<close>

definition example_event :: domain_event where
  "example_event =
     \<lparr>de_class = UserRegistered, de_event_id = ''e1'', de_occurred_at = 0,
      de_values = [(''user_id'', Plain (JStr ''u1'')), (''email'', Plain (JStr ''a@b.c'')), (''via'', Plain (JStr ''password''))]\<rparr>"

definition example_payload :: payload where
  "example_payload = [(''user_id'', JStr ''u1''), (''email'', JStr ''a@b.c''), (''via'', JStr ''password'')]"

definition example_staged :: staged_row where
  "example_staged =
     \<lparr>st_id = 1, st_event_id = ''e1'', st_event_name = ''user.registered'', st_payload = example_payload, st_occurred_at = 0\<rparr>"

definition example_registry :: event_registry where
  "example_registry = projr default_codec"

definition example_tx :: relay_tx where
  "example_tx = the (drain_begin default_relay_config 5 Map.empty [insert_row 5 example_payload example_staged])"

lemma example_publishes:
  "outbox_publish 1 example_event [] =
     (Inr \<lparr>or_id = 1, or_event_id = ''e1'', or_event_name = ''user.registered''\<rparr>, [example_staged])"
  by code_simp

lemma example_registered: "example_registry (ec_event_name (de_class example_event)) = Some (de_class example_event)"
  by code_simp

lemma example_event_ok: "event_ok example_event" "small_floats example_event"
  by code_simp+

lemma example_claims:
  "drain_begin default_relay_config 5 Map.empty [insert_row 5 example_payload example_staged] = Some example_tx"
  "tx_entries example_tx = [as_pending (insert_row 5 example_payload example_staged)]" "tx_writes example_tx = []"
  by (simp_all add: example_tx_def drain_begin_def claim_rows_def default_relay_config_def insert_row_def)

lemma example_delivers:
  "deliver example_registry (\<lambda>e. Published \<lparr>pr_event = e, pr_outcomes = []\<rparr>) (as_pending (insert_row 5 example_payload example_staged)) =
     Delivered example_event"
  by code_simp

lemma jsonb_ok_Some: "jsonb_ok Some"
  by (simp add: jsonb_ok_def)

text \<open>A request publishes and commits, a relay claims, dispatches and commits.\<close>

lemma example_reachable:
  "\<exists>w. outbox_reachable Some example_registry w \<and> ow_table w = [] \<and> (1, example_event, example_payload) \<in> ow_committed w"
proof -
  note go = reach_step [of "\<lambda>w. w = new_outbox_world" "outbox_step Some example_registry"]
  let ?row = "insert_row 5 example_payload example_staged"
  let ?w0 = "new_outbox_world"
  let ?w1 = "?w0\<lparr>ow_requests := (ow_requests ?w0)(0 \<mapsto> [])\<rparr>"
  let ?w2 = "?w1\<lparr>ow_requests := (ow_requests ?w1)(0 \<mapsto> [] @ [(example_staged, example_event)])\<rparr>"
  let ?w3 = "?w2\<lparr>ow_requests := (ow_requests ?w2)(0 := None), ow_table := [?row], ow_committed := ow_committed ?w2 \<union>
     {(st_id s, e, the (Some (st_payload s))) | s e. (s, e) \<in> set ([] @ [(example_staged, example_event)])}\<rparr>"
  let ?w4 = "?w3\<lparr>ow_tasks := (ow_tasks ?w3)(7 := relay_start (ow_tasks ?w3 7))\<rparr>"
  let ?w5 = "?w4\<lparr>ow_relays := (ow_relays ?w4)(7 \<mapsto> example_tx),
     ow_locks := (\<lambda>i. if i \<in> pe_id ` set (tx_entries example_tx) then Some 7 else ow_locks ?w4 i)\<rparr>"
  have r0: "outbox_reachable Some example_registry ?w0" by (rule reach_init) simp
  have r1: "outbox_reachable Some example_registry ?w1" by (rule go [OF r0]) (rule begins, simp add: new_outbox_world_def)
  have r2: "outbox_reachable Some example_registry ?w2"
    by (rule go [OF r1], rule stages [where i = 1], simp, rule example_registered) (use example_publishes in simp)
  have ins: "insert_all Some 5 (map fst ([] @ [(example_staged, example_event)])) (ow_table ?w2) = Some [?row]"
    by (simp add: new_outbox_world_def) (simp add: example_staged_def)
  have r3: "outbox_reachable Some example_registry ?w3" by (rule go [OF r2], rule commits [OF _ ins]) simp
  have r4: "outbox_reachable Some example_registry ?w4" by (rule go [OF r3], rule starts)
  have r5: "outbox_reachable Some example_registry ?w5"
    by (rule go [OF r4], rule claims [where c = default_relay_config and now = 5])
      (use example_claims(1) in \<open>simp_all add: new_outbox_world_def relay_start_def relay_running_def\<close>)
  obtain tx where tx: "handle_entry default_relay_config (\<lambda>x. []) 0 (Delivered example_event) (as_pending ?row) example_tx = Some tx"
      "tx_entries tx = []" "tx_writes tx = [Completed 1]"
    by (simp add: handle_entry_def Let_def example_claims batch_complete_def as_pending_def insert_row_def example_staged_def)
  let ?w6 = "?w5\<lparr>ow_relays := (ow_relays ?w5)(7 \<mapsto> tx),
     ow_delivered := (case Delivered example_event of Delivered e \<Rightarrow> insert (pe_id (as_pending ?row), e) (ow_delivered ?w5) | _ \<Rightarrow> ow_delivered ?w5)\<rparr>"
  have r6: "outbox_reachable Some example_registry ?w6"
    by (rule go [OF r5], rule handles [OF _ example_claims(2) map_le_refl example_delivers tx(1)]) simp
  let ?w7 = "end_tx 7 (?w6\<lparr>ow_table := fold apply_write (tx_writes tx) (ow_table ?w6)\<rparr>)"
  have r7: "outbox_reachable Some example_registry ?w7" by (rule go [OF r6], rule finishes) (simp_all add: tx)
  have "ow_table ?w7 = []" by (simp add: end_tx_def tx insert_row_def example_staged_def)
  moreover have "(1, example_event, example_payload) \<in> ow_committed ?w7" by (simp add: end_tx_def) (simp add: example_staged_def)
  ultimately show ?thesis using r7 by blast
qed

section \<open>Properties\<close>

text \<open>
  C2: A committed event is never lost. In every interleaving of requests and relays, with relays stopped,
  crashing or rolling back anywhere, an event whose transaction committed is still in the table, in a row
  that decodes to this very event, or was handed to the dispatcher without any failure. The hypotheses
  are what the \<open>jsonb\<close> column promises and that no float of the event is too large for it.
\<close>

theorem committed_event_is_never_lost:
  assumes "outbox_reachable jsonb reg w" "(i, e, p) \<in> ow_committed w" "jsonb_ok jsonb" "event_ok e" "small_floats e"
  shows "(\<exists>row \<in> set (ow_table w). ob_id row = i \<and>
      decode_payload reg (ob_event_name row) (ob_payload row) (ob_event_id row) (ob_occurred_at row) = Inr e) \<or>
    (i, e) \<in> ow_delivered w"
proof -
  note D = outbox_okD [OF outbox.reach_ok [OF assms(1)]]
  obtain q where q: "encode_payload e = Inr q" "jsonb q = Some p" "reg (ec_event_name (de_class e)) = Some (de_class e)"
    using D(3) [OF assms(2)] by (auto simp: committed_ok_def)
  have "reads_as reg e p = Inr e" unfolding reads_as_def by (rule stored_event_reads_back [of e q jsonb p reg, OF assms(4) q(1) assms(3) q(2) assms(5) q(3)])
  with D(4) [OF assms(2)] carries_decoded [of _ e p reg] show ?thesis by (auto simp: settled_def decoded_def)
qed

theorem committed_event_is_never_lost_witness:
  "\<exists>w. outbox_reachable Some example_registry w \<and> ow_table w = [] \<and> (1, example_event) \<in> ow_delivered w"
proof -
  obtain w where w: "outbox_reachable Some example_registry w" "ow_table w = []" "(1, example_event, example_payload) \<in> ow_committed w"
    using example_reachable by blast
  from committed_event_is_never_lost [OF w(1,3) jsonb_ok_Some example_event_ok] w(1,2) show ?thesis by auto
qed



text \<open>
  C12: A row is completed only when every subscriber finished. When the relay, dispatching to the event
  bus, takes an event for delivered, the row decoded to that event and each subscription that the bus
  has for its class ran to its end, whatever it published on the way; one that raised, overran or was
  cut off in a cycle makes the whole event be retried.
\<close>

theorem delivered_means_every_subscriber_finished:
  "deliver reg (bus_dispatch b bh) entry = Delivered e \<longleftrightarrow>
     decode_payload reg (pe_event_name entry) (pe_payload entry) (pe_event_id entry) (pe_occurred_at entry) = Inr e \<and>
     (\<exists>r. bus_publish b bh 0 e = Inr r) \<and>
     {s \<in> set (subscribers_for b (de_class e)). run_script (bus_publish b bh 1) (bh_script bh s e) \<noteq> Finished} = {}"
proof (cases "decode_payload reg (pe_event_name entry) (pe_payload entry) (pe_event_id entry) (pe_occurred_at entry)")
  case (Inr e1)
  show ?thesis
  proof (cases "bus_publish b bh 0 e1")
    case (Inr r)
    from publish_all_finished [OF this] Inr \<open>decode_payload _ _ _ _ _ = Inr e1\<close> show ?thesis
      by (auto simp: deliver_def bus_dispatch_def split: option.splits)
  next
    case (Inl err)
    with Inr show ?thesis by (cases err) (auto simp: deliver_def bus_dispatch_def)
  qed
qed (simp add: deliver_def)

end
