(* ===== verification/Auth.thy ===== *)
theory Auth
  imports Event_Bus
begin

text \<open>
  Authentication: \<open>auth/utils.py\<close>, \<open>auth/service.py\<close>, \<open>auth/dependencies.py\<close>, \<open>repositories/refresh_token.py\<close>,
  \<open>repositories/user.py\<close> and the handshake of \<open>ws/auth.py\<close>.

  Signing and verifying a JWT, hashing a password and the text of a UUID are the library argument \<open>lib\<close>; the
  clock, fresh UUIDs and event ids are a record of draws. A request is a function on the tables that
  gives its answer and what it has committed: an exception before the commit leaves the tables as they
  were. \<open>refresh\<close> is the composition of what it reads and what it then writes, so that two of them
  can also be interleaved. The rows are those of the tenant the connection is bound to.
\<close>

section \<open>Model\<close>

subsection \<open>Tokens\<close>

type_synonym claims = "(string \<times> json) list"

record auth_lib =
  al_encode :: "claims \<Rightarrow> string"
  al_decode :: "seconds \<Rightarrow> string \<Rightarrow> claims option"
  al_uuid :: "string \<Rightarrow> nat option"
  al_uuid_text :: "nat \<Rightarrow> string"
  al_fromtimestamp :: "pyfloat \<Rightarrow> seconds option"
  al_hash :: "string \<Rightarrow> string"
  al_verify :: "string \<Rightarrow> string \<Rightarrow> bool"
  al_access_minutes :: int
  al_refresh_days :: int

definition access_payload :: "auth_lib \<Rightarrow> seconds \<Rightarrow> string \<Rightarrow> string \<Rightarrow> string \<Rightarrow> nat option \<Rightarrow> claims" where
  "access_payload lib now user_id email role tenant_id =
     [(''sub'', JStr user_id), (''email'', JStr email), (''role'', JStr role), (''type'', JStr ''access''),
      (''exp'', JInt \<lfloor>now + 60 * of_int (al_access_minutes lib)\<rfloor>)] @
     (case tenant_id of None \<Rightarrow> [] | Some t \<Rightarrow> [(''tid'', JStr (al_uuid_text lib t))])"

definition create_access_token :: "auth_lib \<Rightarrow> seconds \<Rightarrow> string \<Rightarrow> string \<Rightarrow> string \<Rightarrow> nat option \<Rightarrow> string" where
  "create_access_token lib now user_id email role tenant_id = al_encode lib (access_payload lib now user_id email role tenant_id)"

definition refresh_payload :: "auth_lib \<Rightarrow> seconds \<Rightarrow> string \<Rightarrow> string \<Rightarrow> claims" where
  "refresh_payload lib expire user_id jti =
     [(''sub'', JStr user_id), (''jti'', JStr jti), (''type'', JStr ''refresh''), (''exp'', JInt \<lfloor>expire\<rfloor>)]"

definition create_refresh_token :: "auth_lib \<Rightarrow> seconds \<Rightarrow> string \<Rightarrow> string \<Rightarrow> string \<times> seconds" where
  "create_refresh_token lib now user_id jti =
     (let expire = now + 86400 * of_int (al_refresh_days lib) in (al_encode lib (refresh_payload lib expire user_id jti), expire))"

record access_claims =
  ac_subject :: nat
  ac_email :: string
  ac_role :: string
  ac_expires_at :: seconds
  ac_tenant_id :: "nat option"

text \<open>\<open>isinstance(x, int | float)\<close>, where a bool is an int.\<close>

fun number_of :: "json \<Rightarrow> pyfloat option" where
  "number_of (JInt i) = Some (Fin (of_int i))"
| "number_of (JBool b) = Some (Fin (if b then 1 else 0))"
| "number_of (JFloat x) = Some x"
| "number_of _ = None"

definition text_or_empty :: "json option \<Rightarrow> string" where
  "text_or_empty v = (case v of Some (JStr s) \<Rightarrow> s | _ \<Rightarrow> [])"

datatype token_error = InvalidAccessToken string | TimestampOutOfRange

definition verify_access_token :: "auth_lib \<Rightarrow> seconds \<Rightarrow> string \<Rightarrow> token_error + access_claims" where
  "verify_access_token lib now token =
     (case al_decode lib now token of
        None \<Rightarrow> Inl (InvalidAccessToken ''Invalid or expired token'')
      | Some payload \<Rightarrow>
          if map_of payload ''type'' \<noteq> Some (JStr ''access'') then Inl (InvalidAccessToken ''Invalid token type'')
          else
            (case map_of payload ''sub'' of
               Some (JStr raw_subject) \<Rightarrow>
                 (case al_uuid lib raw_subject of
                    None \<Rightarrow> Inl (InvalidAccessToken ''Token subject is not a valid user id'')
                  | Some subject \<Rightarrow>
                      (case Option.bind (map_of payload ''exp'') number_of of
                         None \<Rightarrow> Inl (InvalidAccessToken ''Token has no expiry'')
                       | Some raw_expiry \<Rightarrow>
                           (case (case map_of payload ''tid'' of
                                    None \<Rightarrow> Inr None
                                  | Some JNull \<Rightarrow> Inr None
                                  | Some (JStr raw_tenant) \<Rightarrow>
                                      (case al_uuid lib raw_tenant of
                                         None \<Rightarrow> Inl (InvalidAccessToken ''Token tenant is not a valid tenant id'')
                                       | Some t \<Rightarrow> Inr (Some t))
                                  | Some _ \<Rightarrow> Inl (InvalidAccessToken ''Token tenant is not a valid tenant id'')) of
                              Inl err \<Rightarrow> Inl err
                            | Inr tenant_id \<Rightarrow>
                                (case al_fromtimestamp lib raw_expiry of
                                   None \<Rightarrow> Inl TimestampOutOfRange
                                 | Some expires_at \<Rightarrow>
                                     Inr \<lparr>ac_subject = subject, ac_email = text_or_empty (map_of payload ''email''),
                                          ac_role = text_or_empty (map_of payload ''role''), ac_expires_at = expires_at,
                                          ac_tenant_id = tenant_id\<rparr>))))
             | _ \<Rightarrow> Inl (InvalidAccessToken ''Token is missing a subject'')))"

subsection \<open>Tables\<close>

record user_row =
  u_id :: nat
  u_tenant :: nat
  u_email :: string
  u_hash :: "string option"
  u_active :: bool
  u_verified :: bool
  u_role :: string
  u_provider :: "string option"
  u_sub :: "string option"

datatype revocation_reason = Rotated | Logout | ReuseDetected

record token_row =
  t_token :: string
  t_user :: nat
  t_family :: nat
  t_expires_at :: seconds
  t_revoked :: bool
  t_revoked_at :: "seconds option"
  t_reason :: "revocation_reason option"

text \<open>The third component is the outbox: what the transactions published.\<close>

record auth_db =
  db_users :: "user_row list"
  db_tokens :: "token_row list"
  db_events :: "domain_event list"

definition get_by_token :: "string \<Rightarrow> auth_db \<Rightarrow> token_row option" where
  "get_by_token token db = find (\<lambda>t. t_token t = token) (db_tokens db)"

definition token_create :: "string \<Rightarrow> nat \<Rightarrow> seconds \<Rightarrow> nat \<Rightarrow> auth_db \<Rightarrow> auth_db option" where
  "token_create token user_id expires_at family_id db =
     (if token \<in> set (map t_token (db_tokens db)) then None
      else Some (db\<lparr>db_tokens := db_tokens db @ [\<lparr>t_token = token, t_user = user_id, t_family = family_id, t_expires_at = expires_at,
                                                 t_revoked = False, t_revoked_at = None, t_reason = None\<rparr>]\<rparr>))"

definition mark_revoked :: "seconds \<Rightarrow> revocation_reason \<Rightarrow> token_row \<Rightarrow> token_row" where
  "mark_revoked now reason t = t\<lparr>t_revoked := True, t_revoked_at := Some now, t_reason := Some reason\<rparr>"

definition token_revoke :: "seconds \<Rightarrow> string \<Rightarrow> revocation_reason \<Rightarrow> auth_db \<Rightarrow> bool \<times> auth_db" where
  "token_revoke now token reason db =
     (case get_by_token token db of
        None \<Rightarrow> (False, db)
      | Some _ \<Rightarrow> (True, db\<lparr>db_tokens := map (\<lambda>t. if t_token t = token then mark_revoked now reason t else t) (db_tokens db)\<rparr>))"

definition revoke_where :: "seconds \<Rightarrow> (token_row \<Rightarrow> bool) \<Rightarrow> revocation_reason \<Rightarrow> auth_db \<Rightarrow> int \<times> auth_db" where
  "revoke_where now p reason db =
     (int (length (filter (\<lambda>t. p t \<and> \<not> t_revoked t) (db_tokens db))),
      db\<lparr>db_tokens := map (\<lambda>t. if p t \<and> \<not> t_revoked t then mark_revoked now reason t else t) (db_tokens db)\<rparr>)"

definition revoke_family :: "seconds \<Rightarrow> nat \<Rightarrow> revocation_reason \<Rightarrow> auth_db \<Rightarrow> int \<times> auth_db" where
  "revoke_family now family_id reason db = revoke_where now (\<lambda>t. t_family t = family_id) reason db"

definition revoke_all_for_user :: "seconds \<Rightarrow> nat \<Rightarrow> revocation_reason \<Rightarrow> auth_db \<Rightarrow> int \<times> auth_db" where
  "revoke_all_for_user now user_id reason db = revoke_where now (\<lambda>t. t_user t = user_id) reason db"

definition delete_expired :: "seconds \<Rightarrow> auth_db \<Rightarrow> int \<times> auth_db" where
  "delete_expired now db =
     (int (length (filter (\<lambda>t. t_expires_at t < now) (db_tokens db))),
      db\<lparr>db_tokens := filter (\<lambda>t. \<not> t_expires_at t < now) (db_tokens db)\<rparr>)"

definition get_user :: "nat \<Rightarrow> auth_db \<Rightarrow> user_row option" where
  "get_user i db = find (\<lambda>u. u_id u = i) (db_users db)"

definition get_by_email :: "string \<Rightarrow> auth_db \<Rightarrow> user_row option" where
  "get_by_email email db = find (\<lambda>u. u_email u = email) (db_users db)"

definition get_by_oauth :: "string \<Rightarrow> string \<Rightarrow> auth_db \<Rightarrow> user_row option" where
  "get_by_oauth provider sub db = find (\<lambda>u. u_provider u = Some provider \<and> u_sub u = Some sub) (db_users db)"

definition exists_by_email :: "string \<Rightarrow> auth_db \<Rightarrow> bool" where
  "exists_by_email email db \<longleftrightarrow> get_by_email email db \<noteq> None"

subsection \<open>Service\<close>

datatype auth_error = Unauthorized string | Forbidden string | Conflict string | BadRequest string | IntegrityError

record draws =
  dr_now :: seconds
  dr_tenant :: nat
  dr_user_id :: nat
  dr_jti :: nat
  dr_family :: nat
  dr_event_id :: string
  dr_event_id2 :: string

record token_response =
  tr_access :: string
  tr_refresh :: string

record user_response =
  ur_id :: nat
  ur_email :: string
  ur_role :: string
  ur_active :: bool
  ur_verified :: bool

definition user_event :: "event_class \<Rightarrow> string \<Rightarrow> seconds \<Rightarrow> (string \<times> json) list \<Rightarrow> domain_event" where
  "user_event cls event_id now kwargs = the (construct cls event_id now (map (\<lambda>(k, v). (k, Plain v)) kwargs))"

definition user_registered :: "auth_lib \<Rightarrow> string \<Rightarrow> seconds \<Rightarrow> user_row \<Rightarrow> string \<Rightarrow> domain_event" where
  "user_registered lib event_id now u via =
     user_event UserRegistered event_id now
       [(''user_id'', JStr (al_uuid_text lib (u_id u))), (''email'', JStr (u_email u)), (''via'', JStr via)]"

definition user_logged_in :: "auth_lib \<Rightarrow> string \<Rightarrow> seconds \<Rightarrow> user_row \<Rightarrow> string \<Rightarrow> domain_event" where
  "user_logged_in lib event_id now u how =
     user_event UserLoggedIn event_id now
       [(''user_id'', JStr (al_uuid_text lib (u_id u))), (''email'', JStr (u_email u)), (''method'', JStr how)]"

definition reuse_detected :: "auth_lib \<Rightarrow> string \<Rightarrow> seconds \<Rightarrow> token_row \<Rightarrow> int \<Rightarrow> domain_event" where
  "reuse_detected lib event_id now stored n =
     user_event RefreshTokenReuseDetected event_id now
       [(''user_id'', JStr (al_uuid_text lib (t_user stored))), (''family_id'', JStr (al_uuid_text lib (t_family stored))),
        (''sessions_revoked'', JInt n)]"

definition publish_event :: "domain_event \<Rightarrow> auth_db \<Rightarrow> auth_db" where
  "publish_event e db = db\<lparr>db_events := db_events db @ [e]\<rparr>"

definition issue_tokens :: "auth_lib \<Rightarrow> draws \<Rightarrow> user_row \<Rightarrow> nat option \<Rightarrow> auth_db \<Rightarrow> auth_error + token_response \<times> auth_db" where
  "issue_tokens lib d user family_id db =
     (let uid = al_uuid_text lib (u_id user);
          access = create_access_token lib (dr_now d) uid (u_email user) (u_role user) (Some (u_tenant user))
      in case create_refresh_token lib (dr_now d) uid (al_uuid_text lib (dr_jti d)) of
           (refresh, expires_at) \<Rightarrow>
             (case token_create refresh (u_id user) expires_at (case family_id of Some f \<Rightarrow> f | None \<Rightarrow> dr_family d) db of
                None \<Rightarrow> Inl IntegrityError
              | Some db1 \<Rightarrow> Inr (\<lparr>tr_access = access, tr_refresh = refresh\<rparr>, db1)))"

definition register :: "auth_lib \<Rightarrow> draws \<Rightarrow> string \<Rightarrow> string \<Rightarrow> auth_db \<Rightarrow> (auth_error + user_response) \<times> auth_db" where
  "register lib d email password db =
     (if exists_by_email email db then (Inl (Conflict ''Email already registered''), db)
      else
        (let u = \<lparr>u_id = dr_user_id d, u_tenant = dr_tenant d, u_email = email, u_hash = Some (al_hash lib password), u_active = True,
                  u_verified = False, u_role = ''user'', u_provider = None, u_sub = None\<rparr>
         in (Inr \<lparr>ur_id = u_id u, ur_email = u_email u, ur_role = u_role u, ur_active = u_active u, ur_verified = u_verified u\<rparr>,
             publish_event (user_registered lib (dr_event_id d) (dr_now d) u ''password'') (db\<lparr>db_users := db_users db @ [u]\<rparr>))))"

definition login :: "auth_lib \<Rightarrow> draws \<Rightarrow> string \<Rightarrow> string \<Rightarrow> auth_db \<Rightarrow> (auth_error + token_response) \<times> auth_db" where
  "login lib d email password db =
     (case get_by_email email db of
        None \<Rightarrow> (Inl (Unauthorized ''Invalid credentials''), db)
      | Some user \<Rightarrow>
          (case u_hash user of
             None \<Rightarrow> (Inl (Unauthorized ''Invalid credentials''), db)
           | Some hashed \<Rightarrow>
               if \<not> al_verify lib password hashed then (Inl (Unauthorized ''Invalid credentials''), db)
               else if \<not> u_active user then (Inl (Forbidden ''Account is inactive''), db)
               else
                 (case issue_tokens lib d user None db of
                    Inl err \<Rightarrow> (Inl err, db)
                  | Inr (tokens, db1) \<Rightarrow> (Inr tokens, publish_event (user_logged_in lib (dr_event_id d) (dr_now d) user ''password'') db1))))"

text \<open>\<open>_handle_reuse\<close> commits the revocation and the event, and then refuses.\<close>

definition handle_reuse :: "auth_lib \<Rightarrow> draws \<Rightarrow> token_row \<Rightarrow> auth_db \<Rightarrow> auth_error \<times> auth_db" where
  "handle_reuse lib d stored db =
     (case revoke_family (dr_now d) (t_family stored) ReuseDetected db of
        (revoked, db1) \<Rightarrow>
          (Unauthorized ''Refresh token is invalid or revoked'', publish_event (reuse_detected lib (dr_event_id d) (dr_now d) stored revoked) db1))"

text \<open>\<open>refresh\<close> up to the point where the presented token has been found to be live.\<close>

definition refresh_check :: "auth_lib \<Rightarrow> draws \<Rightarrow> string \<Rightarrow> auth_db \<Rightarrow> (auth_error + token_row) \<times> auth_db" where
  "refresh_check lib d refresh_token db =
     (case al_decode lib (dr_now d) refresh_token of
        None \<Rightarrow> (Inl (Unauthorized ''Invalid refresh token''), db)
      | Some payload \<Rightarrow>
          if map_of payload ''type'' \<noteq> Some (JStr ''refresh'') then (Inl (Unauthorized ''Invalid token type''), db)
          else
            (case get_by_token refresh_token db of
               None \<Rightarrow> (Inl (Unauthorized ''Refresh token is invalid or revoked''), db)
             | Some stored \<Rightarrow>
                 if t_revoked stored then (case handle_reuse lib d stored db of (err, db1) \<Rightarrow> (Inl err, db1))
                 else if t_expires_at stored < dr_now d then (Inl (Unauthorized ''Refresh token has expired''), db)
                 else (Inr stored, db)))"

definition refresh_rotate :: "auth_lib \<Rightarrow> draws \<Rightarrow> token_row \<Rightarrow> auth_db \<Rightarrow> (auth_error + token_response) \<times> auth_db" where
  "refresh_rotate lib d stored db =
     (let db1 = snd (token_revoke (dr_now d) (t_token stored) Rotated db) in
      case get_user (t_user stored) db1 of
        None \<Rightarrow> (Inl (Unauthorized ''User not found''), db)
      | Some user \<Rightarrow>
          if \<not> u_active user then (Inl (Forbidden ''Account is inactive''), db)
          else
            (case issue_tokens lib d user (Some (t_family stored)) db1 of
               Inl err \<Rightarrow> (Inl err, db)
             | Inr (tokens, db2) \<Rightarrow> (Inr tokens, db2)))"

definition refresh :: "auth_lib \<Rightarrow> draws \<Rightarrow> string \<Rightarrow> auth_db \<Rightarrow> (auth_error + token_response) \<times> auth_db" where
  "refresh lib d refresh_token db =
     (case refresh_check lib d refresh_token db of
        (Inl err, db1) \<Rightarrow> (Inl err, db1)
      | (Inr stored, db1) \<Rightarrow> refresh_rotate lib d stored db1)"

definition link_oauth :: "string \<Rightarrow> string \<Rightarrow> user_row \<Rightarrow> user_row" where
  "link_oauth provider sub u = u\<lparr>u_provider := Some provider, u_sub := Some sub, u_verified := True\<rparr>"

text \<open>The account of an OAuth callback: the linked one, the one with that address, or a new one.\<close>

definition oauth_account :: "draws \<Rightarrow> string \<Rightarrow> string \<Rightarrow> string \<Rightarrow> auth_db \<Rightarrow> (bool \<times> user_row) \<times> auth_db" where
  "oauth_account d provider sub email db =
     (case get_by_oauth provider sub db of
        Some user \<Rightarrow> ((False, user), db)
      | None \<Rightarrow>
          (case get_by_email email db of
             Some user \<Rightarrow>
               ((False, link_oauth provider sub user),
                db\<lparr>db_users := map (\<lambda>u. if u_id u = u_id user then link_oauth provider sub u else u) (db_users db)\<rparr>)
           | None \<Rightarrow>
               (let u = \<lparr>u_id = dr_user_id d, u_tenant = dr_tenant d, u_email = email, u_hash = None, u_active = True, u_verified = True,
                         u_role = ''user'', u_provider = Some provider, u_sub = Some sub\<rparr>
                in ((True, u), db\<lparr>db_users := db_users db @ [u]\<rparr>))))"

definition oauth_login :: "auth_lib \<Rightarrow> draws \<Rightarrow> string \<Rightarrow> string \<Rightarrow> string \<Rightarrow> auth_db \<Rightarrow> (auth_error + token_response) \<times> auth_db" where
  "oauth_login lib d provider sub email db =
     (case oauth_account d provider sub email db of
        ((created, user), db1) \<Rightarrow>
          if \<not> u_active user then (Inl (Forbidden ''Account is inactive''), db)
          else
            (case issue_tokens lib d user None db1 of
               Inl err \<Rightarrow> (Inl err, db)
             | Inr (tokens, db2) \<Rightarrow>
                 (let db3 = (if created then publish_event (user_registered lib (dr_event_id d) (dr_now d) user ''oauth'') db2 else db2)
                  in (Inr tokens, publish_event (user_logged_in lib (dr_event_id2 d) (dr_now d) user ''oauth'') db3))))"

record oauth_user_info =
  oi_sub :: string
  oi_email :: string
  oi_email_verified :: bool

text \<open>
  The callback route: the token exchange is the first argument, an exception or the \<open>userinfo\<close> of the token, and
  the validation of the user info the second one.
\<close>

definition google_callback ::
    "auth_lib \<Rightarrow> (claims \<Rightarrow> oauth_user_info option) \<Rightarrow> draws \<Rightarrow> string + claims option \<Rightarrow> auth_db \<Rightarrow> (auth_error + token_response) \<times> auth_db" where
  "google_callback lib validate d exchange db =
     (case exchange of
        Inl exc \<Rightarrow> (Inl (BadRequest (''OAuth error: '' @ exc)), db)
      | Inr None \<Rightarrow> (Inl (BadRequest ''No user info returned from Google''), db)
      | Inr (Some []) \<Rightarrow> (Inl (BadRequest ''No user info returned from Google''), db)
      | Inr (Some (kv # kvs)) \<Rightarrow>
          (case validate (kv # kvs) of
             None \<Rightarrow> (Inl (BadRequest ''Invalid user info from Google''), db)
           | Some info \<Rightarrow> oauth_login lib d ''google'' (oi_sub info) (oi_email info) db))"

definition logout :: "draws \<Rightarrow> string \<Rightarrow> auth_db \<Rightarrow> auth_db" where
  "logout d refresh_token db =
     (case get_by_token refresh_token db of
        None \<Rightarrow> db
      | Some stored \<Rightarrow> snd (revoke_family (dr_now d) (t_family stored) Logout db))"

subsection \<open>Requests that present an access token\<close>

definition get_current_user :: "auth_lib \<Rightarrow> seconds \<Rightarrow> string \<Rightarrow> auth_db \<Rightarrow> (token_error + auth_error) + user_row" where
  "get_current_user lib now credentials db =
     (case verify_access_token lib now credentials of
        Inl (InvalidAccessToken note) \<Rightarrow> Inl (Inr (Unauthorized note))
      | Inl TimestampOutOfRange \<Rightarrow> Inl (Inl TimestampOutOfRange)
      | Inr claims \<Rightarrow>
          (case get_user (ac_subject claims) db of
             None \<Rightarrow> Inl (Inr (Unauthorized ''User not found''))
           | Some user \<Rightarrow> if \<not> u_active user then Inl (Inr (Forbidden ''Inactive user'')) else Inr user))"

definition require_role :: "string list \<Rightarrow> user_row \<Rightarrow> auth_error + user_row" where
  "require_role roles user = (if u_role user \<notin> set roles then Inl (Forbidden ''Insufficient permissions'') else Inr user)"

definition AUTH_SUBPROTOCOL :: string where
  "AUTH_SUBPROTOCOL = ''bearer.auth.v1''"

text \<open>The handshake request: the header, the offered subprotocols, and whether the query has a token.\<close>

record handshake =
  hs_authorization :: "string option"
  hs_subprotocols :: "string list"
  hs_query_token :: bool

datatype ws_auth_error = BadHeader | NoTokenAfterTag | TokenInQuery | NoCredential | TokenRefused string | NoSuchUser | InactiveUser | WsTimestamp

text \<open>\<open>header.partition(" ")\<close>; lowering other letters than ASCII ones cannot give \<open>bearer\<close>.\<close>

definition partition_space :: "string \<Rightarrow> string \<times> string" where
  "partition_space s = (takeWhile (\<lambda>c. c \<noteq> CHR '' '') s, drop 1 (dropWhile (\<lambda>c. c \<noteq> CHR '' '') s))"

fun after_tag :: "string \<Rightarrow> string list \<Rightarrow> string option" where
  "after_tag tag (x # y # ys) = (if x = tag then (if y = [] then None else Some y) else after_tag tag (y # ys))"
| "after_tag tag _ = None"

definition extract_credential :: "handshake \<Rightarrow> ws_auth_error + string \<times> string option" where
  "extract_credential hs =
     (case hs_authorization hs of
        Some (c # header) \<Rightarrow>
          (case partition_space (c # header) of
             (scheme, token) \<Rightarrow>
               if map ascii_lower scheme \<noteq> ''bearer'' \<or> py_strip token = [] then Inl BadHeader else Inr (py_strip token, None))
      | _ \<Rightarrow>
          if AUTH_SUBPROTOCOL \<in> set (hs_subprotocols hs) then
            (case after_tag AUTH_SUBPROTOCOL (hs_subprotocols hs) of
               Some token \<Rightarrow> Inr (token, Some AUTH_SUBPROTOCOL)
             | None \<Rightarrow> Inl NoTokenAfterTag)
          else if hs_query_token hs then Inl TokenInQuery
          else Inl NoCredential)"

record authenticated_client =
  cl_user :: user_row
  cl_claims :: access_claims
  cl_subprotocol :: "string option"

definition authenticate :: "auth_lib \<Rightarrow> seconds \<Rightarrow> handshake \<Rightarrow> auth_db \<Rightarrow> ws_auth_error + authenticated_client" where
  "authenticate lib now hs db =
     (case extract_credential hs of
        Inl err \<Rightarrow> Inl err
      | Inr (token, subprotocol) \<Rightarrow>
          (case verify_access_token lib now token of
             Inl (InvalidAccessToken note) \<Rightarrow> Inl (TokenRefused note)
           | Inl TimestampOutOfRange \<Rightarrow> Inl WsTimestamp
           | Inr claims \<Rightarrow>
               (case get_user (ac_subject claims) db of
                  None \<Rightarrow> Inl NoSuchUser
                | Some user \<Rightarrow>
                    if \<not> u_active user then Inl InactiveUser
                    else Inr \<lparr>cl_user = user, cl_claims = claims, cl_subprotocol = subprotocol\<rparr>)))"

subsection \<open>Requests one after the other\<close>

text \<open>
  \<open>aw_families\<close> observes which grants were opened; a fresh UUID is one that was never drawn before. What
  else the application does to accounts may be anything.
\<close>

record auth_world =
  aw_db :: auth_db
  aw_families :: "nat set"

definition new_auth_world :: auth_world where
  "new_auth_world = \<lparr>aw_db = \<lparr>db_users = [], db_tokens = [], db_events = []\<rparr>, aw_families = {}\<rparr>"

inductive auth_step :: "auth_lib \<Rightarrow> auth_world \<Rightarrow> auth_world \<Rightarrow> bool" for lib where
  registers: "register lib d email password (aw_db w) = (r, db) \<Longrightarrow> auth_step lib w (w\<lparr>aw_db := db\<rparr>)"
| logs_in: "dr_family d \<notin> aw_families w \<Longrightarrow> login lib d email password (aw_db w) = (r, db) \<Longrightarrow>
     auth_step lib w \<lparr>aw_db = db, aw_families = insert (dr_family d) (aw_families w)\<rparr>"
| logs_in_by_oauth: "dr_family d \<notin> aw_families w \<Longrightarrow> oauth_login lib d provider sub email (aw_db w) = (r', db) \<Longrightarrow>
     auth_step lib w \<lparr>aw_db = db, aw_families = insert (dr_family d) (aw_families w)\<rparr>"
| refreshes: "refresh lib d token (aw_db w) = (r', db) \<Longrightarrow> auth_step lib w (w\<lparr>aw_db := db\<rparr>)"
| logs_out: "auth_step lib w (w\<lparr>aw_db := logout d token (aw_db w)\<rparr>)"
| revokes_user: "auth_step lib w (w\<lparr>aw_db := snd (revoke_all_for_user now i reason (aw_db w))\<rparr>)"
| sweeps: "auth_step lib w (w\<lparr>aw_db := snd (delete_expired now (aw_db w))\<rparr>)"
| changes_users: "auth_step lib w (w\<lparr>aw_db := (aw_db w)\<lparr>db_users := us\<rparr>\<rparr>)"

abbreviation auth_reachable :: "auth_lib \<Rightarrow> auth_world \<Rightarrow> bool" where
  "auth_reachable lib \<equiv> reach (\<lambda>w. w = new_auth_world) (auth_step lib)"

definition live_in :: "nat \<Rightarrow> auth_db \<Rightarrow> token_row list" where
  "live_in f db = filter (\<lambda>t. t_family t = f \<and> \<not> t_revoked t) (db_tokens db)"

section \<open>Lemmas\<close>

subsection \<open>Token rows\<close>

text \<open>Rows that were only revoked or deleted: what is still live is unchanged.\<close>

definition aged :: "token_row list \<Rightarrow> token_row list \<Rightarrow> bool" where
  "aged ts ts' \<longleftrightarrow> (distinct (map t_token ts) \<longrightarrow> distinct (map t_token ts')) \<and>
     (\<forall>t' \<in> set ts'. \<exists>t \<in> set ts. t_token t' = t_token t \<and> t_family t' = t_family t \<and> t_user t' = t_user t \<and> (\<not> t_revoked t' \<longrightarrow> t' = t))"

lemma aged_refl [simp]: "aged ts ts"
  by (auto simp: aged_def)

lemma aged_map:
  assumes "\<And>t. t_token (f t) = t_token t" "\<And>t. t_family (f t) = t_family t" "\<And>t. t_user (f t) = t_user t" "\<And>t. \<not> t_revoked (f t) \<Longrightarrow> f t = t"
  shows "aged ts (map f ts)"
  using assms by (auto simp: aged_def comp_def)

lemma aged_filter: "aged ts (filter p ts)"
  by (auto simp: aged_def distinct_map_filter)

lemma aged_marked: "aged ts (map (\<lambda>t. if p t then mark_revoked now reason t else t) ts)"
  by (rule aged_map) (simp_all add: mark_revoked_def split: if_splits)

lemma marked_tokens: "map t_token (map (\<lambda>t. if p t then mark_revoked now reason t else t) ts) = map t_token ts"
  by (simp add: mark_revoked_def)

lemma aged_revoke: "aged (db_tokens db) (db_tokens (snd (token_revoke now token reason db)))"
  by (cases "get_by_token token db") (simp_all add: token_revoke_def aged_marked)

lemma aged_revoke_where: "aged (db_tokens db) (db_tokens (snd (revoke_where now p reason db)))"
  by (simp add: revoke_where_def aged_marked)

text \<open>At most one live row per grant, and one account per grant.\<close>

definition grants_ok :: "nat set \<Rightarrow> token_row list \<Rightarrow> bool" where
  "grants_ok fs ts \<longleftrightarrow> distinct (map t_token ts) \<and> t_family ` set ts \<subseteq> fs \<and>
     (\<forall>t \<in> set ts. \<forall>t' \<in> set ts. t_family t = t_family t' \<longrightarrow> t_user t = t_user t' \<and> (\<not> t_revoked t \<longrightarrow> \<not> t_revoked t' \<longrightarrow> t = t'))"

lemma agedE:
  assumes "aged ts ts'" "t' \<in> set ts'"
  obtains t where "t \<in> set ts" "t_family t' = t_family t" "t_user t' = t_user t" "\<not> t_revoked t' \<Longrightarrow> t' = t"
proof -
  from assms have "\<exists>t \<in> set ts. t_token t' = t_token t \<and> t_family t' = t_family t \<and> t_user t' = t_user t \<and> (\<not> t_revoked t' \<longrightarrow> t' = t)"
    unfolding aged_def by (elim conjE) (rule bspec)
  then show thesis by (elim bexE conjE) (rule that; simp)
qed

lemma grants_okD:
  assumes "grants_ok fs ts"
  shows "distinct (map t_token ts)" "t \<in> set ts \<Longrightarrow> t_family t \<in> fs"
    and "t \<in> set ts \<Longrightarrow> t' \<in> set ts \<Longrightarrow> t_family t = t_family t' \<Longrightarrow> t_user t = t_user t'"
    and "t \<in> set ts \<Longrightarrow> t' \<in> set ts \<Longrightarrow> t_family t = t_family t' \<Longrightarrow> \<not> t_revoked t \<Longrightarrow> \<not> t_revoked t' \<Longrightarrow> t = t'"
  using assms unfolding grants_ok_def by (simp, blast, blast, blast)

lemma grants_okI:
  assumes "distinct (map t_token ts)" "\<And>t. t \<in> set ts \<Longrightarrow> t_family t \<in> fs"
    and "\<And>t t'. t \<in> set ts \<Longrightarrow> t' \<in> set ts \<Longrightarrow> t_family t = t_family t' \<Longrightarrow> t_user t = t_user t'"
    and "\<And>t t'. t \<in> set ts \<Longrightarrow> t' \<in> set ts \<Longrightarrow> t_family t = t_family t' \<Longrightarrow> \<not> t_revoked t \<Longrightarrow> \<not> t_revoked t' \<Longrightarrow> t = t'"
  shows "grants_ok fs ts"
  unfolding grants_ok_def image_subset_iff
proof (intro conjI ballI impI)
  show "distinct (map t_token ts)" by (rule assms(1))
next
  fix t assume "t \<in> set ts"
  then show "t_family t \<in> fs" by (rule assms(2))
next
  fix t t' assume t: "t \<in> set ts" "t' \<in> set ts" "t_family t = t_family t'"
  then show "t_user t = t_user t'" by (rule assms(3))
  assume "\<not> t_revoked t" "\<not> t_revoked t'"
  with t show "t = t'" by (rule assms(4))
qed

lemma grants_ok_aged:
  assumes "grants_ok fs ts" "aged ts ts'"
  shows "grants_ok fs ts'"
proof (rule grants_okI)
  show "distinct (map t_token ts')" using grants_okD(1) [OF assms(1)] assms(2) unfolding aged_def by blast
next
  fix t assume "t \<in> set ts'"
  then obtain s where "s \<in> set ts" "t_family t = t_family s" by (rule agedE [OF assms(2)])
  with grants_okD(2) [OF assms(1)] show "t_family t \<in> fs" by simp
next
  fix t t' assume t: "t \<in> set ts'" "t' \<in> set ts'" "t_family t = t_family t'"
  obtain s where s: "s \<in> set ts" "t_family t = t_family s" "t_user t = t_user s" "\<not> t_revoked t \<Longrightarrow> t = s"
    by (rule agedE [OF assms(2) t(1)]) (rule that)
  obtain s' where s': "s' \<in> set ts" "t_family t' = t_family s'" "t_user t' = t_user s'" "\<not> t_revoked t' \<Longrightarrow> t' = s'"
    by (rule agedE [OF assms(2) t(2)]) (rule that)
  have f: "t_family s = t_family s'" using s(2) s'(2) t(3) by simp
  from grants_okD(3) [OF assms(1) s(1) s'(1) f] s(3) s'(3) show "t_user t = t_user t'" by simp
  assume r: "\<not> t_revoked t" "\<not> t_revoked t'"
  from s(4) [OF r(1)] s'(4) [OF r(2)] grants_okD(4) [OF assms(1) s(1) s'(1) f] r show "t = t'" by simp
qed

lemma aged_dead:
  assumes "aged (db_tokens db) (db_tokens db')" "live_in f db = []"
  shows "live_in f db' = []"
  unfolding live_in_def filter_empty_conv
proof (intro ballI notI, elim conjE)
  fix t assume t: "t \<in> set (db_tokens db')" "t_family t = f" "\<not> t_revoked t"
  obtain s where "s \<in> set (db_tokens db)" "\<not> t_revoked t \<Longrightarrow> t = s" by (rule agedE [OF assms(1) t(1)]) (rule that)
  with t assms(2) show False by (simp add: live_in_def filter_empty_conv)
qed

lemma token_createD:
  assumes "token_create token u e f db = Some db'"
  obtains t where "db' = db\<lparr>db_tokens := db_tokens db @ [t]\<rparr>" "t_token t = token" "t_family t = f" "t_user t = u" "\<not> t_revoked t"
    "token \<notin> set (map t_token (db_tokens db))"
proof -
  from assms have "token \<notin> set (map t_token (db_tokens db))" "db' = db\<lparr>db_tokens := db_tokens db @ [\<lparr>t_token = token, t_user = u, t_family = f, t_expires_at = e, t_revoked = False, t_revoked_at = None, t_reason = None\<rparr>]\<rparr>"
    by (auto simp: token_create_def split: if_splits)
  then show thesis by - (rule that, assumption, simp_all)
qed

lemma issue_tokensD:
  assumes "issue_tokens lib d user fam db = Inr (r, db')"
  obtains t where "db' = db\<lparr>db_tokens := db_tokens db @ [t]\<rparr>" "t_token t = tr_refresh r" "t_family t = (case fam of Some f \<Rightarrow> f | None \<Rightarrow> dr_family d)"
    "t_user t = u_id user" "\<not> t_revoked t" "tr_refresh r \<notin> set (map t_token (db_tokens db))"
proof -
  let ?r = "create_refresh_token lib (dr_now d) (al_uuid_text lib (u_id user)) (al_uuid_text lib (dr_jti d))"
  from assms have "token_create (fst ?r) (u_id user) (snd ?r) (case fam of Some f \<Rightarrow> f | None \<Rightarrow> dr_family d) db = Some db'" "tr_refresh r = fst ?r"
    by (auto simp: issue_tokens_def Let_def split: prod.splits option.splits)
  from token_createD [OF this(1)] this(2) that show thesis by metis
qed

lemma grants_ok_new:
  assumes "grants_ok fs ts" "t_token t \<notin> set (map t_token ts)" "t_family t \<notin> fs"
  shows "grants_ok (insert (t_family t) fs) (ts @ [t])"
proof (rule grants_okI)
  note D = grants_okD [OF assms(1)]
  have other: "t_family s \<noteq> t_family t" if "s \<in> set ts" for s using D(2) [OF that] assms(3) by metis
  show "distinct (map t_token (ts @ [t]))" using D(1) assms(2) by simp
  fix s assume s: "s \<in> set (ts @ [t])"
  then show "t_family s \<in> insert (t_family t) fs" using D(2) [of s] by (cases "s = t") simp_all
  fix s' assume s': "s' \<in> set (ts @ [t])" "t_family s = t_family s'"
  consider "s = t" "s' = t" | "s \<in> set ts" "s' \<in> set ts" using s s' other [of s] other [of s'] by (cases "s = t"; cases "s' = t") simp_all
  note both = this
  show "t_user s = t_user s'" using both by cases (simp, rule D(3) [OF _ _ s'(2)])
  assume live: "\<not> t_revoked s" "\<not> t_revoked s'"
  show "s = s'" using both by cases (simp, rule D(4) [OF _ _ s'(2) live])
qed

lemma grants_ok_successor:
  assumes "grants_ok fs ts" "t_token t \<notin> set (map t_token ts)" "s0 \<in> set ts" "t_family t = t_family s0" "t_user t = t_user s0"
    and dead: "\<And>x. x \<in> set ts \<Longrightarrow> t_family x = t_family s0 \<Longrightarrow> t_revoked x"
  shows "grants_ok fs (ts @ [t])"
proof (rule grants_okI)
  note D = grants_okD [OF assms(1)]
  have old: "t_user s = t_user t" if "s \<in> set ts" "t_family s = t_family t" for s
    using D(3) [OF that(1) assms(3)] that(2) assms(4,5) by simp
  show "distinct (map t_token (ts @ [t]))" using D(1) assms(2) by simp
  fix s assume s: "s \<in> set (ts @ [t])"
  show "t_family s \<in> fs" using s D(2) [of s] D(2) [OF assms(3)] assms(4) by (cases "s = t") simp_all
  fix s' assume s': "s' \<in> set (ts @ [t])" "t_family s = t_family s'"
  consider "s = t" "s' = t" | "s = t" "s' \<in> set ts" | "s \<in> set ts" "s' = t" | "s \<in> set ts" "s' \<in> set ts"
    using s s' by (cases "s = t"; cases "s' = t") simp_all
  note both = this
  show "t_user s = t_user s'"
    using both
  proof cases
    case 2
    with old [of s'] s'(2) show ?thesis by simp
  next
    case 3
    with old [of s] s'(2) show ?thesis by simp
  qed (simp, rule D(3) [OF _ _ s'(2)])
  assume live: "\<not> t_revoked s" "\<not> t_revoked s'"
  show "s = s'"
    using both
  proof cases
    case 2
    with dead [of s'] s'(2) assms(4) live show ?thesis by simp
  next
    case 3
    with dead [of s] s'(2) assms(4) live show ?thesis by simp
  qed (simp, rule D(4) [OF _ _ s'(2) live])
qed

lemma grants_ok_mono: "grants_ok fs ts \<Longrightarrow> fs \<subseteq> fs' \<Longrightarrow> grants_ok fs' ts"
  unfolding grants_ok_def by blast

subsection \<open>Requests\<close>

lemma find_Some: "find p xs = Some x \<Longrightarrow> x \<in> set xs \<and> p x"
  by (induction xs) (auto split: if_splits)

lemma publish_event_tokens [simp]: "db_tokens (publish_event e db) = db_tokens db"
  by (simp add: publish_event_def)

text \<open>A request that opens at most one new grant.\<close>

definition opens :: "nat \<Rightarrow> token_row list \<Rightarrow> token_row list \<Rightarrow> bool" where
  "opens f ts ts' \<longleftrightarrow> ts' = ts \<or> (\<exists>t. ts' = ts @ [t] \<and> t_token t \<notin> set (map t_token ts) \<and> t_family t = f \<and> \<not> t_revoked t)"

lemma issue_opens:
  assumes "issue_tokens lib d user None db = Inr (r, db')"
  shows "opens (dr_family d) (db_tokens db) (db_tokens db')"
proof -
  obtain t where "db' = db\<lparr>db_tokens := db_tokens db @ [t]\<rparr>" "t_token t = tr_refresh r" "t_family t = dr_family d" "\<not> t_revoked t"
      "tr_refresh r \<notin> set (map t_token (db_tokens db))"
    by (rule issue_tokensD [OF assms]) (rule that; simp)
  then show ?thesis by (auto simp: opens_def)
qed

lemma register_tokens: "register lib d email password db = (r, db') \<Longrightarrow> db_tokens db' = db_tokens db"
  by (auto simp: register_def Let_def split: if_splits)

lemma login_opens: "login lib d email password db = (r, db') \<Longrightarrow> opens (dr_family d) (db_tokens db) (db_tokens db')"
  by (auto simp: login_def opens_def [of _ x x for x] split: option.splits if_splits sum.splits prod.splits dest!: issue_opens)

lemma oauth_account_tokens: "oauth_account d provider sub email db = (cu, db1) \<Longrightarrow> db_tokens db1 = db_tokens db"
  by (auto simp: oauth_account_def Let_def split: option.splits)

lemma oauth_opens:
  assumes "oauth_login lib d provider sub email db = (r, db')"
  shows "opens (dr_family d) (db_tokens db) (db_tokens db')"
proof -
  obtain created user db1 where a: "oauth_account d provider sub email db = ((created, user), db1)" by (metis prod.collapse)
  note t = oauth_account_tokens [OF a]
  show ?thesis
  proof (cases "\<not> u_active user")
    case True
    with assms a show ?thesis by (simp add: oauth_login_def opens_def)
  next
    case False
    show ?thesis
    proof (cases "issue_tokens lib d user None db1")
      case (Inl err)
      with assms a False show ?thesis by (simp add: oauth_login_def opens_def)
    next
      case (Inr x)
      obtain r1 db2 where x: "x = (r1, db2)" by fastforce
      from assms a False Inr x have "db_tokens db' = db_tokens db2" by (auto simp: oauth_login_def Let_def)
      with issue_opens [of lib d user db1 r1 db2] Inr x t show ?thesis by simp
    qed
  qed
qed

lemma grants_ok_opens:
  assumes "grants_ok fs ts" "opens f ts ts'" "f \<notin> fs"
  shows "grants_ok (insert f fs) ts'"
proof (cases "ts' = ts")
  case True
  then show ?thesis using grants_ok_mono [OF assms(1), of "insert f fs"] by auto
next
  case False
  then obtain t where t: "ts' = ts @ [t]" "t_token t \<notin> set (map t_token ts)" "t_family t = f" using assms(2) unfolding opens_def by blast
  with grants_ok_new [OF assms(1) t(2)] assms(3) show ?thesis by simp
qed

lemma revoke_family_dead: "live_in f (snd (revoke_family now f reason db)) = []"
proof -
  have "live_in f (snd (revoke_family now f reason db)) =
      map (\<lambda>t. if t_family t = f \<and> \<not> t_revoked t then mark_revoked now reason t else t)
        (filter (\<lambda>t. t_family t = f \<and> \<not> t_revoked (if t_family t = f \<and> \<not> t_revoked t then mark_revoked now reason t else t)) (db_tokens db))"
    by (simp add: live_in_def revoke_family_def revoke_where_def filter_map comp_def mark_revoked_def if_distrib cong: if_cong)
  also have "filter (\<lambda>t. t_family t = f \<and> \<not> t_revoked (if t_family t = f \<and> \<not> t_revoked t then mark_revoked now reason t else t)) (db_tokens db) = []"
    by (simp add: filter_empty_conv mark_revoked_def)
  finally show ?thesis by simp
qed

text \<open>
  A refresh only ages the rows, or it retires the one live row of a grant and appends a successor.
\<close>

definition rotates :: "token_row list \<Rightarrow> token_row list \<Rightarrow> bool" where
  "rotates ts ts' \<longleftrightarrow> (\<exists>stored t ts1. stored \<in> set ts \<and> \<not> t_revoked stored \<and> aged ts ts1 \<and> (\<exists>x \<in> set ts1. t_family x = t_family stored \<and> t_user x = t_user stored) \<and>
     (\<forall>x \<in> set ts1. t_token x = t_token stored \<longrightarrow> t_revoked x) \<and> ts' = ts1 @ [t] \<and> t_token t \<notin> set (map t_token ts1) \<and>
     t_family t = t_family stored \<and> t_user t = t_user stored \<and> \<not> t_revoked t)"

lemma rotatesI:
  assumes "stored \<in> set ts" "\<not> t_revoked stored" "aged ts ts1" "\<exists>x \<in> set ts1. t_family x = t_family stored \<and> t_user x = t_user stored"
    and "\<forall>x \<in> set ts1. t_token x = t_token stored \<longrightarrow> t_revoked x" "t_token t \<notin> set (map t_token ts1)"
    and "t_family t = t_family stored" "t_user t = t_user stored" "\<not> t_revoked t"
  shows "rotates ts (ts1 @ [t])"
  unfolding rotates_def by (rule exI [of _ stored], rule exI [of _ t], rule exI [of _ ts1]) (intro conjI assms refl)

lemma check_live:
  assumes "refresh_check lib d token db = (Inr stored, db1)"
  shows "db1 = db" "stored \<in> set (db_tokens db)" "\<not> t_revoked stored" "t_token stored = token"
proof -
  from assms have "get_by_token token db = Some stored" "db1 = db" "\<not> t_revoked stored"
    by (auto simp: refresh_check_def split: option.splits if_splits prod.splits)
  with find_Some show "db1 = db" "stored \<in> set (db_tokens db)" "\<not> t_revoked stored" "t_token stored = token"
    by (fastforce simp: get_by_token_def)+
qed

lemma handle_reuse_tokens: "db_tokens (snd (handle_reuse lib d stored db)) = db_tokens (snd (revoke_family (dr_now d) (t_family stored) ReuseDetected db))"
  by (simp add: handle_reuse_def case_prod_beta)

lemma check_refused:
  assumes "refresh_check lib d token db = (Inl err, db1)"
  shows "aged (db_tokens db) (db_tokens db1)"
proof -
  from assms have "db1 = db \<or> (\<exists>stored. db1 = snd (handle_reuse lib d stored db))"
    by (auto simp: refresh_check_def case_prod_beta split: option.splits if_splits)
  then show ?thesis using aged_revoke_where by (auto simp: handle_reuse_tokens revoke_family_def)
qed

lemma rotate_spec:
  assumes "refresh_rotate lib d stored db = (Inr r, db')" "t_token stored \<in> set (map t_token (db_tokens db))"
  obtains t where "db_tokens db' = map (\<lambda>x. if t_token x = t_token stored then mark_revoked (dr_now d) Rotated x else x) (db_tokens db) @ [t]"
    "t_token t = tr_refresh r" "tr_refresh r \<notin> set (map t_token (db_tokens db))" "t_family t = t_family stored" "t_user t = t_user stored" "\<not> t_revoked t"
proof -
  let ?f = "\<lambda>x. if t_token x = t_token stored then mark_revoked (dr_now d) Rotated x else x"
  have "get_by_token (t_token stored) db \<noteq> None" using assms(2) by (auto simp: get_by_token_def find_None_iff)
  then have db1: "snd (token_revoke (dr_now d) (t_token stored) Rotated db) = db\<lparr>db_tokens := map ?f (db_tokens db)\<rparr>"
    by (auto simp: token_revoke_def)
  obtain user where user: "get_user (t_user stored) (db\<lparr>db_tokens := map ?f (db_tokens db)\<rparr>) = Some user"
      "issue_tokens lib d user (Some (t_family stored)) (db\<lparr>db_tokens := map ?f (db_tokens db)\<rparr>) = Inr (r, db')"
    using assms(1) unfolding refresh_rotate_def db1 Let_def by (auto split: option.splits if_splits sum.splits)
  have "u_id user = t_user stored" using find_Some user(1) by (fastforce simp: get_user_def)
  moreover have "set (map t_token (map ?f (db_tokens db))) = set (map t_token (db_tokens db))" by (simp only: marked_tokens)
  ultimately show thesis using that by (rule_tac issue_tokensD [OF user(2)]) simp
qed

lemma refresh_spec:
  assumes "refresh lib d token db = (r, db')"
  shows "aged (db_tokens db) (db_tokens db') \<or> rotates (db_tokens db) (db_tokens db')"
proof (cases "refresh_check lib d token db")
  case (Pair x db1)
  show ?thesis
  proof (cases x)
    case (Inl err)
    with Pair assms have "db' = db1" by (simp add: refresh_def)
    with check_refused [OF Pair [unfolded Inl]] show ?thesis by simp
  next
    case (Inr stored)
    note c = check_live [OF Pair [unfolded Inr]]
    with Pair Inr assms have rot: "refresh_rotate lib d stored db = (r, db')" by (simp add: refresh_def)
    show ?thesis
    proof (cases r)
      case (Inl err)
      with rot have "db' = db" by (auto simp: refresh_rotate_def Let_def split: option.splits if_splits sum.splits prod.splits)
      then show ?thesis by simp
    next
      case (Inr tr)
      let ?ts1 = "map (\<lambda>x. if t_token x = t_token stored then mark_revoked (dr_now d) Rotated x else x) (db_tokens db)"
      have in_db: "t_token stored \<in> set (map t_token (db_tokens db))" using c(2) by simp
      obtain t where t: "db_tokens db' = ?ts1 @ [t]" "t_token t = tr_refresh tr" "tr_refresh tr \<notin> set (map t_token (db_tokens db))"
          "t_family t = t_family stored" "t_user t = t_user stored" "\<not> t_revoked t"
        by (rule rotate_spec [OF rot [unfolded Inr] in_db]) (rule that)
      have n: "set (map t_token ?ts1) = set (map t_token (db_tokens db))" by (simp only: marked_tokens)
      have "mark_revoked (dr_now d) Rotated stored \<in> set ?ts1" using c(2) by force
      moreover have "t_family (mark_revoked (dr_now d) Rotated stored) = t_family stored" "t_user (mark_revoked (dr_now d) Rotated stored) = t_user stored"
        by (simp_all add: mark_revoked_def)
      ultimately have there: "\<exists>x \<in> set ?ts1. t_family x = t_family stored \<and> t_user x = t_user stored" by blast
      have spent: "\<forall>x \<in> set ?ts1. t_token x = t_token stored \<longrightarrow> t_revoked x" by (auto simp: mark_revoked_def)
      have fresh: "t_token t \<notin> set (map t_token ?ts1)" unfolding n t(2) by (rule t(3))
      from rotatesI [OF c(2,3) aged_marked there spent fresh t(4-6)] show ?thesis unfolding t(1) by (rule disjI2)
    qed
  qed
qed

lemma grants_ok_rotates:
  assumes "grants_ok fs ts" "rotates ts ts'"
  shows "grants_ok fs ts'"
proof -
  obtain stored t ts1 x where r: "stored \<in> set ts" "\<not> t_revoked stored" "aged ts ts1" "x \<in> set ts1" "t_family x = t_family stored" "t_user x = t_user stored"
      "\<forall>x \<in> set ts1. t_token x = t_token stored \<longrightarrow> t_revoked x" "ts' = ts1 @ [t]" "t_token t \<notin> set (map t_token ts1)"
      "t_family t = t_family stored" "t_user t = t_user stored"
    using assms(2) unfolding rotates_def by (elim exE conjE bexE) (rule that; assumption)
  have "t_revoked y" if y: "y \<in> set ts1" "t_family y = t_family stored" for y
  proof (rule ccontr)
    assume live: "\<not> t_revoked y"
    obtain s where s: "s \<in> set ts" "t_family y = t_family s" "\<not> t_revoked y \<Longrightarrow> y = s" by (rule agedE [OF r(3) y(1)]) (rule that)
    from s(3) [OF live] have "y = s" .
    with grants_okD(4) [OF assms(1) s(1) r(1)] y(2) live r(2) have "y = stored" by simp
    with r(7) y(1) live show False by blast
  qed
  with grants_ok_successor [OF grants_ok_aged [OF assms(1) r(3)] r(9,4)] r(5,6,8,10,11) show ?thesis by simp
qed

lemma rotates_dead:
  assumes "rotates (db_tokens db) (db_tokens db')" "live_in f db = []"
  shows "live_in f db' = []"
proof -
  obtain stored t ts1 where r: "stored \<in> set (db_tokens db)" "\<not> t_revoked stored" "aged (db_tokens db) ts1" "db_tokens db' = ts1 @ [t]"
      "t_family t = t_family stored"
    using assms(1) unfolding rotates_def by (elim exE conjE bexE) (rule that; assumption)
  have "t_family stored \<noteq> f" using assms(2) r(1,2) by (auto simp: live_in_def filter_empty_conv)
  moreover have "live_in f (db\<lparr>db_tokens := ts1\<rparr>) = []" using aged_dead [of db "db\<lparr>db_tokens := ts1\<rparr>" f] r(3) assms(2) by simp
  ultimately show ?thesis using r(4,5) by (simp add: live_in_def)
qed

definition auth_ok :: "auth_world \<Rightarrow> bool" where
  "auth_ok w \<longleftrightarrow> grants_ok (aw_families w) (db_tokens (aw_db w))"

lemma logout_aged: "aged (db_tokens db) (db_tokens (logout d token db))"
  using aged_revoke_where by (auto simp: logout_def revoke_family_def split: option.split)

text \<open>What a step does to the rows of the tokens.\<close>

lemma auth_step_tokens:
  assumes "auth_step lib w w'"
  shows "aw_families w' = aw_families w \<and>
      (aged (db_tokens (aw_db w)) (db_tokens (aw_db w')) \<or> rotates (db_tokens (aw_db w)) (db_tokens (aw_db w'))) \<or>
    (\<exists>f. f \<notin> aw_families w \<and> aw_families w' = insert f (aw_families w) \<and> opens f (db_tokens (aw_db w)) (db_tokens (aw_db w')))"
  using assms
proof cases
  case (registers d email password r db)
  then show ?thesis using register_tokens by simp
next
  case (logs_in d email password r db)
  then show ?thesis using login_opens by (intro disjI2 exI [of _ "dr_family d"]) simp
next
  case (logs_in_by_oauth d provider sub email r' db)
  then show ?thesis using oauth_opens by (intro disjI2 exI [of _ "dr_family d"]) simp
next
  case (refreshes d token r' db)
  then show ?thesis using refresh_spec by simp
next
  case (logs_out d token)
  then show ?thesis using logout_aged by simp
next
  case (revokes_user now i reason)
  then show ?thesis using aged_revoke_where by (simp add: revoke_all_for_user_def)
next
  case (sweeps now)
  then show ?thesis by (simp add: delete_expired_def aged_filter)
next
  case (changes_users us)
  then show ?thesis by simp
qed

lemma auth_ok_step:
  assumes "auth_step lib w w'" "auth_ok w"
  shows "auth_ok w'"
proof -
  have ok: "grants_ok (aw_families w) (db_tokens (aw_db w))" using assms(2) by (simp add: auth_ok_def)
  from auth_step_tokens [OF assms(1)] show ?thesis
  proof (elim disjE conjE exE)
    assume f: "aw_families w' = aw_families w" and "aged (db_tokens (aw_db w)) (db_tokens (aw_db w'))"
    from grants_ok_aged [OF ok this(2)] f show ?thesis by (simp add: auth_ok_def)
  next
    assume f: "aw_families w' = aw_families w" and "rotates (db_tokens (aw_db w)) (db_tokens (aw_db w'))"
    from grants_ok_rotates [OF ok this(2)] f show ?thesis by (simp add: auth_ok_def)
  next
    fix g assume f: "g \<notin> aw_families w" "aw_families w' = insert g (aw_families w)" and "opens g (db_tokens (aw_db w)) (db_tokens (aw_db w'))"
    from grants_ok_opens [OF ok this(3) f(1)] f(2) show ?thesis by (simp add: auth_ok_def)
  qed
qed

lemma auth_ok_init: "auth_ok new_auth_world"
  by (simp add: auth_ok_def new_auth_world_def grants_ok_def)

interpretation auth: transitions "\<lambda>w. w = new_auth_world" "auth_step lib" auth_ok for lib
  by unfold_locales (simp add: auth_ok_init, rule auth_ok_step)

text \<open>A grant that was opened and has no live row keeps none.\<close>

definition dead_grant :: "nat \<Rightarrow> auth_world \<Rightarrow> bool" where
  "dead_grant f w \<longleftrightarrow> f \<in> aw_families w \<and> live_in f (aw_db w) = []"

lemma dead_grant_step:
  assumes "auth_step lib w w'" "dead_grant f w"
  shows "dead_grant f w'"
proof -
  have f: "f \<in> aw_families w" "live_in f (aw_db w) = []" using assms(2) by (simp_all add: dead_grant_def)
  have "live_in f (aw_db w') = []" if "opens g (db_tokens (aw_db w)) (db_tokens (aw_db w'))" "g \<notin> aw_families w" for g
  proof -
    have "g \<noteq> f" using that(2) f(1) by blast
    from that(1) show ?thesis unfolding opens_def
    proof (elim disjE exE conjE)
      fix t assume "db_tokens (aw_db w') = db_tokens (aw_db w) @ [t]" "t_family t = g"
      with f(2) \<open>g \<noteq> f\<close> show ?thesis by (simp add: live_in_def)
    qed (use f(2) in \<open>simp add: live_in_def\<close>)
  qed
  note opened = this
  from auth_step_tokens [OF assms(1)] show ?thesis
  proof (elim disjE conjE exE)
    assume "aw_families w' = aw_families w" "aged (db_tokens (aw_db w)) (db_tokens (aw_db w'))"
    with aged_dead [OF this(2) f(2)] f(1) show ?thesis by (simp add: dead_grant_def)
  next
    assume "aw_families w' = aw_families w" "rotates (db_tokens (aw_db w)) (db_tokens (aw_db w'))"
    with rotates_dead [OF this(2) f(2)] f(1) show ?thesis by (simp add: dead_grant_def)
  next
    fix g assume "g \<notin> aw_families w" "aw_families w' = insert g (aw_families w)" "opens g (db_tokens (aw_db w)) (db_tokens (aw_db w'))"
    with opened [OF this(3,1)] f(1) show ?thesis by (simp add: dead_grant_def)
  qed
qed

interpretation dead: transitions "\<lambda>w. w = w0 \<and> dead_grant f w" "auth_step lib" "dead_grant f" for w0 f lib
  by unfold_locales (simp, rule dead_grant_step)

lemma reach_from:
  assumes "reach (\<lambda>x. x = w) step w'" "P w"
  shows "reach (\<lambda>x. x = w \<and> P x) step w'"
  using assms
proof (induction rule: reach.induct)
  case (reach_init s)
  then show ?case by (intro reach.reach_init) simp
next
  case (reach_step s s')
  then show ?case by (intro reach.reach_step [of _ _ s s'])
qed

lemma distinct_alike:
  assumes "distinct xs" "\<And>x y. x \<in> set xs \<Longrightarrow> y \<in> set xs \<Longrightarrow> x = y"
  shows "length xs \<le> 1"
proof -
  have "card (set xs) \<le> Suc 0" unfolding card_le_Suc0_iff_eq [OF finite_set] by (intro ballI) (rule assms(2))
  then show ?thesis using distinct_card [OF assms(1)] by simp
qed

lemma length_live:
  assumes "grants_ok fs (db_tokens db)"
  shows "length (live_in f db) \<le> 1"
proof (rule distinct_alike)
  show "distinct (live_in f db)" using grants_okD(1) [OF assms] by (simp add: live_in_def distinct_map)
  fix x y assume "x \<in> set (live_in f db)" "y \<in> set (live_in f db)"
  then have "x \<in> set (db_tokens db)" "y \<in> set (db_tokens db)" "t_family x = t_family y" "\<not> t_revoked x" "\<not> t_revoked y"
    by (simp_all add: live_in_def)
  then show "x = y" by (rule grants_okD(4) [OF assms])
qed

lemma events_construct:
  "construct UserRegistered i now [(''user_id'', a), (''email'', b), (''via'', c)] \<noteq> None"
  "construct UserLoggedIn i now [(''user_id'', a), (''email'', b), (''method'', c)] \<noteq> None"
  "construct RefreshTokenReuseDetected i now [(''user_id'', a), (''family_id'', b), (''sessions_revoked'', c)] \<noteq> None"
  by (simp_all add: construct_def UserRegistered_def UserLoggedIn_def RefreshTokenReuseDetected_def
      event_subclass_def UserEvent_def DomainEvent_def)

section \<open>An example\<close>

definition example_jwt_lib :: auth_lib where
  "example_jwt_lib =
     \<lparr>al_encode = (\<lambda>c. case map_of c ''jti'' of Some (JStr jti) \<Rightarrow> CHR ''r'' # jti | _ \<Rightarrow> ''access''),
      al_decode = (\<lambda>now token.
        if now \<le> 900 then
          (case token of
             [] \<Rightarrow> None
           | c # jti \<Rightarrow>
               if c = CHR ''r'' then
                 Some [(''sub'', JStr ''u''), (''jti'', JStr jti), (''type'', JStr ''refresh''), (''exp'', JInt 604800)]
               else
                 Some [(''sub'', JStr ''u''), (''email'', JStr ''a@b.c''), (''role'', JStr ''user''), (''type'', JStr ''access''),
                       (''exp'', JInt 900), (''tid'', JStr ''uu'')])
        else None),
      al_uuid = (\<lambda>s. Some (length s)), al_uuid_text = (\<lambda>n. replicate n (CHR ''u'')),
      al_fromtimestamp = (\<lambda>x. case x of Fin q \<Rightarrow> Some q | _ \<Rightarrow> None),
      al_hash = id, al_verify = (=), al_access_minutes = 15, al_refresh_days = 7\<rparr>"

definition example_user :: user_row where
  "example_user = \<lparr>u_id = 1, u_tenant = 2, u_email = ''a@b.c'', u_hash = Some ''pw'', u_active = True, u_verified = False,
     u_role = ''user'', u_provider = None, u_sub = None\<rparr>"

definition example_draws :: "nat \<Rightarrow> draws" where
  "example_draws n = \<lparr>dr_now = 0, dr_tenant = 2, dr_user_id = 9, dr_jti = n, dr_family = 5, dr_event_id = ''e'', dr_event_id2 = ''f''\<rparr>"

definition example_row :: "string \<Rightarrow> token_row" where
  "example_row token =
     \<lparr>t_token = token, t_user = 1, t_family = 5, t_expires_at = 604800, t_revoked = False, t_revoked_at = None, t_reason = None\<rparr>"

definition example_db :: "token_row list \<Rightarrow> auth_db" where
  "example_db ts = \<lparr>db_users = [example_user], db_tokens = ts, db_events = []\<rparr>"

definition example_login :: auth_db where
  "example_login = publish_event (user_logged_in example_jwt_lib ''e'' 0 example_user ''password'') (example_db [example_row ''ru''])"

lemmas example_defs = example_jwt_lib_def example_user_def example_draws_def example_row_def example_db_def

lemma example_logs_in:
  "login example_jwt_lib (example_draws 1) ''a@b.c'' ''pw'' (example_db []) = (Inr \<lparr>tr_access = ''access'', tr_refresh = ''ru''\<rparr>, example_login)"
  by (simp add: example_defs example_login_def login_def get_by_email_def issue_tokens_def create_access_token_def access_payload_def
      create_refresh_token_def refresh_payload_def token_create_def publish_event_def user_logged_in_def)

text \<open>The refresh that spends \<open>ru\<close>, and two that race.\<close>

definition example_spent :: auth_db where
  "example_spent = example_login\<lparr>db_tokens := [mark_revoked 0 Rotated (example_row ''ru''), example_row ''ruu'']\<rparr>"

definition example_forked :: auth_db where
  "example_forked = example_login\<lparr>db_tokens := [mark_revoked 0 Rotated (example_row ''ru''), example_row ''ruu'', example_row ''ruuu'']\<rparr>"

definition example_left :: auth_db where
  "example_left = example_login\<lparr>db_tokens := [mark_revoked 0 Rotated (mark_revoked 0 Logout (example_row ''ru'')), example_row ''ruuu'']\<rparr>"

lemmas example_requests = publish_event_def get_by_token_def token_revoke_def get_user_def issue_tokens_def create_access_token_def access_payload_def
  create_refresh_token_def refresh_payload_def token_create_def mark_revoked_def

lemma example_tokens: "db_tokens example_login = [example_row ''ru'']" "db_users example_login = [example_user]"
  by (simp_all add: example_login_def publish_event_def example_db_def)

lemma example_checks: "refresh_check example_jwt_lib (example_draws n) ''ru'' example_login = (Inr (example_row ''ru''), example_login)"
proof -
  have "get_by_token ''ru'' example_login = Some (example_row ''ru'')" by (simp add: get_by_token_def example_tokens) (simp add: example_row_def)
  then show ?thesis by (simp add: refresh_check_def example_jwt_lib_def example_draws_def) (simp add: example_row_def)
qed

lemma example_rotates:
  "refresh_rotate example_jwt_lib (example_draws 2) (example_row ''ru'') example_login = (Inr \<lparr>tr_access = ''access'', tr_refresh = ''ruu''\<rparr>, example_spent)"
  "refresh_rotate example_jwt_lib (example_draws 3) (example_row ''ru'') example_spent = (Inr \<lparr>tr_access = ''access'', tr_refresh = ''ruuu''\<rparr>, example_forked)"
  "refresh_rotate example_jwt_lib (example_draws 3) (example_row ''ru'') (logout (example_draws 2) ''ru'' example_login) =
     (Inr \<lparr>tr_access = ''access'', tr_refresh = ''ruuu''\<rparr>, example_left)"
  by (simp_all add: refresh_rotate_def Let_def logout_def revoke_family_def revoke_where_def example_requests example_defs
      example_login_def example_spent_def example_forked_def example_left_def) (simp_all add: numeral_eq_Suc)

lemma example_refreshes:
  "refresh example_jwt_lib (example_draws 2) ''ru'' example_login = (Inr \<lparr>tr_access = ''access'', tr_refresh = ''ruu''\<rparr>, example_spent)"
  by (simp add: refresh_def example_checks example_rotates)

lemma example_spent_reachable: "auth_reachable example_jwt_lib \<lparr>aw_db = example_spent, aw_families = {5}\<rparr>"
proof -
  note go = reach_step [of "\<lambda>w. w = new_auth_world" "auth_step example_jwt_lib"]
  let ?w1 = "new_auth_world\<lparr>aw_db := (aw_db new_auth_world)\<lparr>db_users := [example_user]\<rparr>\<rparr>"
  let ?w2 = "\<lparr>aw_db = example_login, aw_families = insert (dr_family (example_draws 1)) (aw_families ?w1)\<rparr>"
  have r0: "auth_reachable example_jwt_lib new_auth_world" by (rule reach_init) simp
  have r1: "auth_reachable example_jwt_lib ?w1" by (rule go [OF r0]) (rule changes_users)
  have r2: "auth_reachable example_jwt_lib ?w2"
  proof (rule go [OF r1], rule logs_in)
    show "dr_family (example_draws 1) \<notin> aw_families ?w1" by (simp add: new_auth_world_def)
    have "aw_db ?w1 = example_db []" by (simp add: new_auth_world_def example_db_def)
    then show "login example_jwt_lib (example_draws 1) ''a@b.c'' ''pw'' (aw_db ?w1) = (Inr \<lparr>tr_access = ''access'', tr_refresh = ''ru''\<rparr>, example_login)"
      by (simp only: example_logs_in)
  qed
  have "auth_reachable example_jwt_lib (?w2\<lparr>aw_db := example_spent\<rparr>)"
    by (rule go [OF r2], rule refreshes [of _ "example_draws 2" "''ru''"]) (simp add: example_refreshes)
  then show ?thesis by (simp add: new_auth_world_def example_draws_def)
qed

section \<open>Properties\<close>

text \<open>
  C15: A grant has one live link. However requests, sweeps and changes to accounts follow each other, of the
  refresh tokens that descend from one login at most one is not revoked, and all belong to one account.
\<close>

theorem one_live_token_per_grant:
  assumes "auth_reachable lib w"
  shows "length (live_in f (aw_db w)) \<le> 1 \<and>
    (\<forall>t \<in> set (db_tokens (aw_db w)). \<forall>t' \<in> set (db_tokens (aw_db w)). t_family t = t_family t' \<longrightarrow> t_user t = t_user t')"
proof -
  have ok: "grants_ok (aw_families w) (db_tokens (aw_db w))" using auth.reach_ok [OF assms] by (simp add: auth_ok_def)
  from length_live [OF ok] grants_okD(3) [OF ok] show ?thesis by blast
qed

theorem one_live_token_per_grant_witness:
  "length (live_in 5 example_spent) \<le> 1 \<and> db_tokens example_spent = [mark_revoked 0 Rotated (example_row ''ru''), example_row ''ruu'']"
  using one_live_token_per_grant [OF example_spent_reachable, of 5] by (simp add: example_spent_def)

text \<open>
  C14: A replayed refresh token ends its grant for good. Presenting one that was already spent or logged out
  is refused with the message of an unknown token, commits the event that says how many sessions it
  ended, and whatever is requested afterwards, no token of that grant is live again.
\<close>

theorem replayed_token_ends_the_grant:
  assumes "auth_reachable lib w" "get_by_token token (aw_db w) = Some stored" "t_revoked stored"
    and "al_decode lib (dr_now d) token = Some payload" "map_of payload ''type'' = Some (JStr ''refresh'')"
    and "refresh lib d token (aw_db w) = (r, db)" "reach (\<lambda>x. x = w\<lparr>aw_db := db\<rparr>) (auth_step lib) w'"
  shows "r = Inl (Unauthorized ''Refresh token is invalid or revoked'') \<and> live_in (t_family stored) (aw_db w') = [] \<and>
    db_events db = db_events (aw_db w) @
      [reuse_detected lib (dr_event_id d) (dr_now d) stored (int (length (live_in (t_family stored) (aw_db w))))]"
proof -
  have ok: "grants_ok (aw_families w) (db_tokens (aw_db w))" using auth.reach_ok [OF assms(1)] by (simp add: auth_ok_def)
  have h: "handle_reuse lib d stored (aw_db w) = (Unauthorized ''Refresh token is invalid or revoked'', db)"
      "r = Inl (Unauthorized ''Refresh token is invalid or revoked'')"
    using assms(2-6) by (auto simp: refresh_def refresh_check_def handle_reuse_def split: prod.splits)
  have "db_tokens db = db_tokens (snd (revoke_family (dr_now d) (t_family stored) ReuseDetected (aw_db w)))"
    using handle_reuse_tokens [of lib d stored "aw_db w"] h(1) by simp
  then have "live_in (t_family stored) db = []" using revoke_family_dead [of "t_family stored"] by (simp add: live_in_def)
  moreover have "stored \<in> set (db_tokens (aw_db w))" using assms(2) find_Some by (fastforce simp: get_by_token_def)
  ultimately have "dead_grant (t_family stored) (w\<lparr>aw_db := db\<rparr>)" using grants_okD(2) [OF ok] by (simp add: dead_grant_def)
  note this = reach_from [of _ _ _ "dead_grant (t_family stored)", OF assms(7) this]
  from dead.reach_ok [OF this] have "live_in (t_family stored) (aw_db w') = []" by (simp add: dead_grant_def)
  moreover have "db_events db = db_events (aw_db w) @
      [reuse_detected lib (dr_event_id d) (dr_now d) stored (int (length (live_in (t_family stored) (aw_db w))))]"
    using h(1) by (auto simp: handle_reuse_def revoke_family_def revoke_where_def publish_event_def live_in_def)
  ultimately show ?thesis using h(2) by blast
qed

theorem replayed_token_ends_the_grant_witness:
  "\<exists>db. refresh example_jwt_lib (example_draws 3) ''ru'' example_spent = (Inl (Unauthorized ''Refresh token is invalid or revoked''), db) \<and>
     live_in 5 example_spent = [example_row ''ruu''] \<and> live_in 5 db = []"
proof -
  let ?w = "\<lparr>aw_db = example_spent, aw_families = {5}\<rparr>"
  let ?stored = "mark_revoked 0 Rotated (example_row ''ru'')"
  obtain r db where r: "refresh example_jwt_lib (example_draws 3) ''ru'' example_spent = (r, db)" by force
  have stored: "get_by_token ''ru'' (aw_db ?w) = Some ?stored" "t_revoked ?stored" "t_family ?stored = 5"
    by (simp_all add: get_by_token_def example_spent_def mark_revoked_def example_row_def)
  have dec: "al_decode example_jwt_lib (dr_now (example_draws 3)) ''ru'' =
      Some [(''sub'', JStr ''u''), (''jti'', JStr ''u''), (''type'', JStr ''refresh''), (''exp'', JInt 604800)]"
    by (simp add: example_jwt_lib_def example_draws_def)
  have start: "reach (\<lambda>x. x = ?w\<lparr>aw_db := db\<rparr>) (auth_step example_jwt_lib) (?w\<lparr>aw_db := db\<rparr>)" by (rule reach_init) simp
  have "refresh example_jwt_lib (example_draws 3) ''ru'' (aw_db ?w) = (r, db)" using r by simp
  note end_grant = replayed_token_ends_the_grant [OF example_spent_reachable stored(1,2) dec _ this start]
  have "live_in 5 example_spent = [example_row ''ruu'']" by (simp add: live_in_def example_spent_def mark_revoked_def example_row_def)
  with end_grant r stored(3) show ?thesis by simp
qed








end
